(* ===== verification/TK_Prelude.thy ===== *)
theory TK_Prelude
  imports Main "HOL-Library.Word" "HOL-Library.Monad_Syntax"
begin

text \<open>
  Shared by every component: the reading of a failing computation, a total-correctness
  predicate transformer for it, and generic lemmas on lists and options.

  Every operation of the kernel is a function into an option type. The value
  \<^term>\<open>None\<close> says that the C code has no defined continuation: it follows a null or a
  poisoned link, indexes an array out of range, or loops for ever. An error code of the API is
  an ordinary result. Proving that an operation returns \<^term>\<open>Some\<close> is therefore
  proving memory safety and termination of that operation.
\<close>

unbundle bit_operations_syntax

named_theorems ok_intros \<open>rules that run one step of a computation\<close>

section \<open>Total correctness of a computation that may fail\<close>

definition ok :: "'a option \<Rightarrow> ('a \<Rightarrow> bool) \<Rightarrow> bool" where
  "ok m P \<longleftrightarrow> (\<exists>x. m = Some x \<and> P x)"

lemma ok_Some [simp]: "ok (Some x) P = P x"
  by (simp add: ok_def)

lemma ok_None [simp]: "ok None P = False"
  by (simp add: ok_def)

lemma ok_bind [simp]: "ok (Option.bind m f) P = ok m (\<lambda>x. ok (f x) P)"
  by (cases m) simp_all

lemma ok_if [simp]: "ok (if b then m else n) P = (if b then ok m P else ok n P)"
  by simp

lemma ok_case_prod [simp]: "ok (case p of (a, b) \<Rightarrow> f a b) P = (case p of (a, b) \<Rightarrow> ok (f a b) P)"
  by (cases p) simp

lemma ok_Let [simp]: "ok (let x = e in f x) P = ok (f e) P"
  by simp

lemma ok_map_option [simp]: "ok (map_option f m) P = ok m (\<lambda>x. P (f x))"
  by (cases m) auto

lemma ok_mono: "ok m P \<Longrightarrow> (\<And>x. P x \<Longrightarrow> R x) \<Longrightarrow> ok m R"
  by (auto simp: ok_def)

lemma ok_conjI: "ok m P \<Longrightarrow> ok m R \<Longrightarrow> ok m (\<lambda>x. P x \<and> R x)"
  by (auto simp: ok_def)

lemma okE:
  assumes "ok m P"
  obtains x where "m = Some x" and "P x"
  using assms by (auto simp: ok_def)

lemma okI: "m = Some x \<Longrightarrow> P x \<Longrightarrow> ok m P"
  by (simp add: ok_def)

lemma ok_Some_eq: "ok m P \<Longrightarrow> m = Some x \<Longrightarrow> P x"
  by (simp add: ok_def)

section \<open>Lists\<close>

text \<open>
  Insertion in front of the first element that satisfies a test, at the end if none does. Each
  of the four insertion scans of the kernel (semaphore waiters, flag waiters, mailbox waiters,
  messages by priority) computes this list.
\<close>

fun insert_before :: "('a \<Rightarrow> bool) \<Rightarrow> 'a \<Rightarrow> 'a list \<Rightarrow> 'a list" where
  "insert_before P n [] = [n]"
| "insert_before P n (x # xs) = (if P x then n # x # xs else x # insert_before P n xs)"

lemma set_insert_before [simp]: "set (insert_before P n xs) = insert n (set xs)"
  by (induction xs) auto

lemma insert_before_neq_Nil [simp]: "insert_before P n xs \<noteq> []"
  by (cases xs) auto

lemma distinct_insert_before [simp]:
  "distinct (insert_before P n xs) = (n \<notin> set xs \<and> distinct xs)"
  by (induction xs) auto

lemma length_insert_before [simp]: "length (insert_before P n xs) = Suc (length xs)"
  by (induction xs) auto

lemma insert_before_tail: "\<forall>x \<in> set xs. \<not> P x \<Longrightarrow> insert_before P n xs = xs @ [n]"
  by (induction xs) auto

lemma insert_before_split:
  "\<forall>x \<in> set xs. \<not> P x \<Longrightarrow> P y \<Longrightarrow> insert_before P n (xs @ y # ys) = xs @ n # y # ys"
  by (induction xs) auto

lemma insert_before_append:
  "\<forall>x \<in> set xs. \<not> P x \<Longrightarrow> insert_before P n (xs @ ys) = xs @ insert_before P n ys"
  by (induction xs) auto

lemma filter_insert_before:
  "\<not> R n \<Longrightarrow> filter R (insert_before P n xs) = filter R xs"
  by (induction xs) auto

lemma insert_before_cong:
  "(\<And>x. x \<in> set xs \<Longrightarrow> P x = P' x) \<Longrightarrow> insert_before P n xs = insert_before P' n xs"
  by (induction xs) auto

lemma sorted_wrt_insert_before:
  assumes "sorted_wrt (\<lambda>x y. f x \<le> (f y :: 'k :: linorder)) xs"
  shows "sorted_wrt (\<lambda>x y. f x \<le> f y) (insert_before (\<lambda>x. f n < f x) n xs)"
  using assms
proof (induction xs)
  case Nil
  then show ?case by simp
next
  case (Cons x xs)
  then show ?case by (auto simp: not_less dest: less_le_trans)
qed

text \<open>
  The insertion is stable: the elements that keep their place in front of the new one are
  exactly those that do not come after it.
\<close>

lemma insert_before_stable:
  assumes "sorted_wrt (\<lambda>x y. f x \<le> (f y :: 'k :: linorder)) xs"
  shows "insert_before (\<lambda>x. f n < f x) n xs =
    filter (\<lambda>x. f x \<le> f n) xs @ n # filter (\<lambda>x. f n < f x) xs"
  using assms
proof (induction xs)
  case Nil
  then show ?case by simp
next
  case (Cons x xs)
  show ?case
  proof (cases "f n < f x")
    case True
    with Cons.prems have "\<forall>y \<in> set xs. f n < f y" by auto
    with True show ?thesis by (auto simp: filter_empty_conv not_le)
  next
    case False
    with Cons show ?thesis by auto
  qed
qed

lemma filter_neq_notin [simp]: "n \<notin> set xs \<Longrightarrow> filter (\<lambda>x. x \<noteq> n) xs = xs"
  by (induction xs) auto

lemma filter_neq_split:
  "distinct (xs @ n # ys) \<Longrightarrow> filter (\<lambda>x. x \<noteq> n) (xs @ n # ys) = xs @ ys"
  by auto

lemma sorted_wrt_filterI: "sorted_wrt R xs \<Longrightarrow> sorted_wrt R (filter P xs)"
  by (induction xs) auto

lemma bind_Some_map: "m \<bind> (\<lambda>x. Some (f x)) = map_option f m"
  by (cases m) auto

lemma single_member: "set xs = {a} \<Longrightarrow> distinct xs \<Longrightarrow> xs = [a]"
  by (cases xs) (auto simp: set_eq_iff, metis list.set_intros(1) neq_Nil_conv)

end
