(* ===== verification/TK_Types.thy ===== *)
theory TK_Types
  imports TK_Prelude
begin

text \<open>
  The kernel's basic types, its configuration and its error codes: \<^verbatim>\<open>typedef.h.in\<close>,
  \<^verbatim>\<open>include/sys/config.h\<close>, \<^verbatim>\<open>include/sys/profile.h\<close>,
  \<^verbatim>\<open>include/tk/tkernel.h\<close>, \<^verbatim>\<open>include/tk/errno.h\<close>,
  \<^verbatim>\<open>kernel/object_id.h\<close> and the tick conversion of \<^verbatim>\<open>kernel/timer.h\<close>.

  Unsigned types keep their width (\<open>32 word\<close>), so that wrap-around and bit masks are the
  machine's. Signed types (identifiers, priorities, counts, time limits, error codes) are
  integers: the code only compares them and adds within bounds that are proved.
\<close>

section \<open>Basic types\<close>

type_synonym addr = "32 word"
type_synonym UINT = "32 word"
type_synonym UW = "32 word"
type_synonym UD = "64 word"
type_synonym ATR = "32 word"
type_synonym RELTIM = "32 word"

type_synonym ID = int
type_synonym ER = int
type_synonym PRI = int
type_synonym TMO = int

abbreviation (input) NULL :: addr where "NULL \<equiv> 0"

definition TMO_POL :: TMO where "TMO_POL = 0"
definition TMO_FEVR :: TMO where "TMO_FEVR = -1"

section \<open>Configuration\<close>

abbreviation CFN_MAX_PRI :: nat where "CFN_MAX_PRI \<equiv> 16"
abbreviation CFN_MAX_TSKID :: nat where "CFN_MAX_TSKID \<equiv> 32"
abbreviation CFN_MAX_SEMID :: nat where "CFN_MAX_SEMID \<equiv> 16"
abbreviation CFN_MAX_FLGID :: nat where "CFN_MAX_FLGID \<equiv> 16"
abbreviation CFN_MAX_MBXID :: nat where "CFN_MAX_MBXID \<equiv> 8"
abbreviation CFN_MAX_INTNO :: nat where "CFN_MAX_INTNO \<equiv> 32"

definition TK_WAKEUP_MAXCNT :: UINT where "TK_WAKEUP_MAXCNT = 4095"
definition TK_SEMAPHORE_MAXCNT :: int where "TK_SEMAPHORE_MAXCNT = 32767"

section \<open>Object attributes and wait modes\<close>

definition TA_ASM :: ATR where "TA_ASM = 0x0"
definition TA_HLNG :: ATR where "TA_HLNG = 0x1"
definition TA_USERBUF :: ATR where "TA_USERBUF = 0x20"
definition TA_RNG0 :: ATR where "TA_RNG0 = 0x0"
definition TA_RNG1 :: ATR where "TA_RNG1 = 0x100"
definition TA_RNG2 :: ATR where "TA_RNG2 = 0x200"
definition TA_RNG3 :: ATR where "TA_RNG3 = 0x300"
definition TA_TFIFO :: ATR where "TA_TFIFO = 0x0"
definition TA_TPRI :: ATR where "TA_TPRI = 0x1"
definition TA_WSGL :: ATR where "TA_WSGL = 0x0"
definition TA_WMUL :: ATR where "TA_WMUL = 0x8"
definition TA_FIRST :: ATR where "TA_FIRST = 0x0"
definition TA_CNT :: ATR where "TA_CNT = 0x2"
definition TA_MFIFO :: ATR where "TA_MFIFO = 0x0"
definition TA_MPRI :: ATR where "TA_MPRI = 0x2"

definition TWF_ANDW :: UINT where "TWF_ANDW = 0x00"
definition TWF_ORW :: UINT where "TWF_ORW = 0x01"
definition TWF_CLR :: UINT where "TWF_CLR = 0x10"
definition TWF_BITCLR :: UINT where "TWF_BITCLR = 0x20"

lemmas attr_defs = TA_ASM_def TA_HLNG_def TA_USERBUF_def TA_RNG0_def TA_RNG1_def TA_RNG2_def
  TA_RNG3_def TA_TFIFO_def TA_TPRI_def TA_WSGL_def TA_WMUL_def TA_FIRST_def TA_CNT_def
  TA_MFIFO_def TA_MPRI_def TWF_ANDW_def TWF_ORW_def TWF_CLR_def TWF_BITCLR_def

text \<open>
  Task states and wait factors. The code assigns and compares these constants and does no bit
  arithmetic on them, so they are datatypes; \<open>TTW_NONE\<close> is the value 0 of
  \<open>tskwait\<close>.
\<close>

datatype tskstat =
  TTS_NOEXS | TTS_RUN | TTS_RDY | TTS_WAI | TTS_SUS | TTS_WAS | TTS_DMT

datatype tskwait =
  TTW_NONE | TTW_SLP | TTW_DLY | TTW_SEM | TTW_FLG | TTW_MBX

section \<open>Error codes\<close>

definition ERCD :: "int \<Rightarrow> int \<Rightarrow> ER" where
  "ERCD mer ser = mer * 65536 + ser mod 65536"

definition MERCD :: "ER \<Rightarrow> ER" where
  "MERCD er = er div 65536"

definition SERCD :: "ER \<Rightarrow> int" where
  "SERCD er = (let u = (er mod 2 ^ 32) mod 65536 in if u < 32768 then u else u - 65536)"

definition E_OK :: ER where "E_OK = ERCD 0 0"
definition E_NOSPT :: ER where "E_NOSPT = ERCD (-9) 0"
definition E_RSATR :: ER where "E_RSATR = ERCD (-11) 0"
definition E_PAR :: ER where "E_PAR = ERCD (-17) 0"
definition E_ID :: ER where "E_ID = ERCD (-18) 0"
definition E_CTX :: ER where "E_CTX = ERCD (-25) 0"
definition E_LIMIT :: ER where "E_LIMIT = ERCD (-34) 0"
definition E_OBJ :: ER where "E_OBJ = ERCD (-41) 0"
definition E_NOEXS :: ER where "E_NOEXS = ERCD (-42) 0"
definition E_QOVR :: ER where "E_QOVR = ERCD (-43) 0"
definition E_RLWAI :: ER where "E_RLWAI = ERCD (-49) 0"
definition E_TMOUT :: ER where "E_TMOUT = ERCD (-50) 0"
definition E_DLT :: ER where "E_DLT = ERCD (-51) 0"

lemmas er_defs = E_OK_def E_NOSPT_def E_RSATR_def E_PAR_def E_ID_def E_CTX_def E_LIMIT_def
  E_OBJ_def E_NOEXS_def E_QOVR_def E_RLWAI_def E_TMOUT_def E_DLT_def ERCD_def

section \<open>Range check and tick conversion\<close>

definition tkmc_id_in_range :: "ID \<Rightarrow> ID \<Rightarrow> bool" where
  "tkmc_id_in_range objid mx \<longleftrightarrow> objid \<ge> 1 \<and> objid \<le> mx"

definition tkmc_ms_to_ticks :: "UINT \<Rightarrow> UINT" where
  "tkmc_ms_to_ticks ms = ms div 10 + (if ms mod 10 \<noteq> 0 then 1 else 0) + 1"

section \<open>Lemmas\<close>

lemma MERCD_ERCD_id: "MERCD (ERCD m s) = m"
  by (simp add: MERCD_def ERCD_def)

lemma SERCD_ERCD_id:
  assumes "-32768 \<le> s" and "s < 32768"
  shows "SERCD (ERCD m s) = s"
proof -
  have u: "(ERCD m s mod 2 ^ 32) mod 65536 = s mod 65536"
    by (simp add: ERCD_def mod_mod_cancel)
  show ?thesis
  proof (cases "s < 0")
    case True
    have "s mod 65536 = (s + 65536) mod 65536" by simp
    also have "\<dots> = s + 65536" using True assms by (intro mod_pos_pos_trivial) auto
    finally show ?thesis using True assms u by (simp add: SERCD_def)
  next
    case False
    then have "s mod 65536 = s" using assms by (intro mod_pos_pos_trivial) auto
    then show ?thesis using False assms u by (simp add: SERCD_def)
  qed
qed

lemma er_causes_distinct [simp]:
  "E_OK \<noteq> E_TMOUT" "E_OK \<noteq> E_RLWAI" "E_OK \<noteq> E_DLT" "E_TMOUT \<noteq> E_RLWAI"
  "E_TMOUT \<noteq> E_DLT" "E_RLWAI \<noteq> E_DLT"
  by (simp_all add: er_defs)

lemma er_neg: "E_LIMIT < 0" "E_PAR < 0" "E_RSATR < 0"
  by (simp_all add: er_defs)

lemma id_in_range_index:
  "tkmc_id_in_range objid (int n) \<Longrightarrow> nat (objid - 1) < n \<and> objid = int (nat (objid - 1)) + 1"
  by (auto simp: tkmc_id_in_range_def)

section \<open>Properties\<close>

text \<open>\<^verbatim>\<open>MERCD\<close> and \<^verbatim>\<open>SERCD\<close> take apart what \<^verbatim>\<open>ERCD\<close> puts together, for every sub-code of 16 bits.\<close>

lemma ercd_round_trip:
  assumes "-32768 \<le> ser" and "ser < 32768"
  shows "MERCD (ERCD mer ser) = mer \<and> SERCD (ERCD mer ser) = ser"
  using MERCD_ERCD_id SERCD_ERCD_id [OF assms] by simp

text \<open>\<^verbatim>\<open>tkmc_ms_to_ticks\<close> never overflows, never waits less than the milliseconds asked for, and at most
  two ticks of 10 ms more.\<close>

theorem ms_to_ticks_bounds:
  "unat (tkmc_ms_to_ticks ms) = (unat ms + 9) div 10 + 1 \<and> unat ms \<le> 10 * (unat (tkmc_ms_to_ticks ms) - 1) \<and>
     10 * unat (tkmc_ms_to_ticks ms) < unat ms + 20"
proof -
  have ms: "unat ms < 2 ^ 32" using unsigned_less [of ms] by simp
  have d: "unat (ms div 10) = unat ms div 10" "unat (ms mod 10) = unat ms mod 10" by (simp_all add: unat_div unat_mod)
  have z: "ms mod 10 \<noteq> 0 \<longleftrightarrow> unat ms mod 10 \<noteq> 0" using d(2) by (simp add: unat_eq_0 [symmetric])
  have "tkmc_ms_to_ticks ms = of_nat (unat ms div 10 + (if unat ms mod 10 \<noteq> 0 then 1 else 0) + 1)"
    using z by (simp add: tkmc_ms_to_ticks_def flip: d(1))
  moreover have "unat ms div 10 + (if unat ms mod 10 \<noteq> 0 then 1 else 0) + 1 < 2 ^ 32" using ms by auto
  ultimately have "unat (tkmc_ms_to_ticks ms) = unat ms div 10 + (if unat ms mod 10 \<noteq> 0 then 1 else 0) + 1"
    by (simp only: unat_of_nat take_bit_nat_eq_self) simp
  moreover have "unat ms div 10 + (if unat ms mod 10 \<noteq> 0 then 1 else 0) = (unat ms + 9) div 10" by presburger
  ultimately show ?thesis by auto
qed

end
