(* ===== verification/TK_List.thy ===== *)
theory TK_List
  imports TK_Types
begin

text \<open>
  The intrusive circular doubly linked lists of \<^verbatim>\<open>kernel/list.h\<close>, as the code has them:
  a heap of link nodes with a next and a prev pointer each, and operations that read and write
  these pointers. The nodes are the link members of the kernel's objects, named by the object
  that holds them; \<open>Null\<close> and \<open>Deadbeef\<close> are the two pointer values that do
  not point at a node (the null pointer and the poison that \<open>tkmc_list_del\<close> leaves behind).
  Following one of them is a failure.

  The second half gives the lists their meaning. A \<open>rings\<close> value says which nodes own a
  ring and what each ring holds; \<open>rep\<close> relates it to a heap. Each operation on pointers
  is shown to implement an operation on rings.
\<close>

section \<open>Nodes and the link heap\<close>

datatype node =
    TcbHead nat      \<comment> \<open>\<open>tkmc_tcbs[i].head\<close>\<close>
  | TcbWait nat      \<comment> \<open>\<open>tkmc_tcbs[i].winfo.wait_queue\<close>\<close>
  | FreeTcb          \<comment> \<open>\<open>tkmc_free_tcb\<close>\<close>
  | ReadyQ nat       \<comment> \<open>\<open>tkmc_ready_queue[p]\<close>\<close>
  | TimerQ           \<comment> \<open>\<open>tkmc_timer_queue\<close>\<close>
  | SemQ nat         \<comment> \<open>\<open>tkmc_semcbs[j].wait_queue\<close>\<close>
  | FreeSem          \<comment> \<open>\<open>tkmc_free_semcb\<close>\<close>
  | FlgQ nat         \<comment> \<open>\<open>tkmc_flgcbs[j].wait_queue\<close>\<close>
  | FreeFlg          \<comment> \<open>\<open>tkmc_free_flbcb\<close>\<close>
  | MbxWaitQ nat     \<comment> \<open>\<open>tkmc_mbxcbs[j].wait_queue\<close>\<close>
  | MbxMsgQ nat      \<comment> \<open>\<open>tkmc_mbxcbs[j].mbx_queue\<close>\<close>
  | FreeMbx          \<comment> \<open>\<open>tkmc_free_mbxcb\<close>\<close>
  | MsgLink addr     \<comment> \<open>\<open>list\<close> of the message at this address\<close>
  | Null
  | Deadbeef

record lheap =
  nxt :: "node \<Rightarrow> node"
  prv :: "node \<Rightarrow> node"

definition mapped :: "node \<Rightarrow> bool" where
  "mapped p \<longleftrightarrow> p \<noteq> Null \<and> p \<noteq> Deadbeef"

definition get_next :: "node \<Rightarrow> lheap \<Rightarrow> node option" where
  "get_next p h = (if mapped p then Some (nxt h p) else None)"

definition get_prev :: "node \<Rightarrow> lheap \<Rightarrow> node option" where
  "get_prev p h = (if mapped p then Some (prv h p) else None)"

definition set_next :: "node \<Rightarrow> node \<Rightarrow> lheap \<Rightarrow> lheap option" where
  "set_next p v h = (if mapped p then Some (h\<lparr>nxt := (nxt h)(p := v)\<rparr>) else None)"

definition set_prev :: "node \<Rightarrow> node \<Rightarrow> lheap \<Rightarrow> lheap option" where
  "set_prev p v h = (if mapped p then Some (h\<lparr>prv := (prv h)(p := v)\<rparr>) else None)"

section \<open>The operations of list.h\<close>

definition tkmc_init_list_head :: "node \<Rightarrow> lheap \<Rightarrow> lheap option" where
  "tkmc_init_list_head head h = do {
     h \<leftarrow> set_next head head h;
     set_prev head head h }"

definition tkmc_list_empty :: "node \<Rightarrow> lheap \<Rightarrow> bool option" where
  "tkmc_list_empty head h = do {
     n \<leftarrow> get_next head h;
     Some (head = n) }"

definition tkmc_list_del :: "node \<Rightarrow> lheap \<Rightarrow> lheap option" where
  "tkmc_list_del head h = do {
     p \<leftarrow> get_prev head h;
     n \<leftarrow> get_next head h;
     h \<leftarrow> set_next p n h;
     h \<leftarrow> set_prev n p h;
     h \<leftarrow> set_prev head Deadbeef h;
     set_next head Deadbeef h }"

definition tkmc_list_add_between :: "node \<Rightarrow> node \<Rightarrow> node \<Rightarrow> lheap \<Rightarrow> lheap option" where
  "tkmc_list_add_between new p n h = do {
     h \<leftarrow> set_prev n new h;
     h \<leftarrow> set_next new n h;
     h \<leftarrow> set_prev new p h;
     set_next p new h }"

definition tkmc_list_add :: "node \<Rightarrow> node \<Rightarrow> lheap \<Rightarrow> lheap option" where
  "tkmc_list_add new head h = do {
     n \<leftarrow> get_next head h;
     tkmc_list_add_between new head n h }"

definition tkmc_list_add_tail :: "node \<Rightarrow> node \<Rightarrow> lheap \<Rightarrow> lheap option" where
  "tkmc_list_add_tail new head h = do {
     p \<leftarrow> get_prev head h;
     tkmc_list_add_between new p head h }"

text \<open>
  \<open>memset\<close> over a structure clears the link members it holds to null pointers.
\<close>

definition zero_link :: "node \<Rightarrow> lheap \<Rightarrow> lheap option" where
  "zero_link n h = do {
     h \<leftarrow> set_next n Null h;
     set_prev n Null h }"

text \<open>
  \<open>tkmc_list_entry\<close>: the object that holds a link. The subtraction of the member's
  offset gives an object only for a link of that member.
\<close>

fun tcb_of_head :: "node \<Rightarrow> nat option" where
  "tcb_of_head (TcbHead i) = Some i"
| "tcb_of_head _ = None"

fun tcb_of_wait :: "node \<Rightarrow> nat option" where
  "tcb_of_wait (TcbWait i) = Some i"
| "tcb_of_wait _ = None"

fun semcb_of_link :: "node \<Rightarrow> nat option" where
  "semcb_of_link (SemQ j) = Some j"
| "semcb_of_link _ = None"

fun flgcb_of_link :: "node \<Rightarrow> nat option" where
  "flgcb_of_link (FlgQ j) = Some j"
| "flgcb_of_link _ = None"

fun mbxcb_of_link :: "node \<Rightarrow> nat option" where
  "mbxcb_of_link (MbxWaitQ j) = Some j"
| "mbxcb_of_link _ = None"

fun msg_from_link :: "node \<Rightarrow> addr option" where
  "msg_from_link (MsgLink m) = Some m"
| "msg_from_link _ = None"

text \<open>
  The traversal of \<open>tkmc_list_for_each_entry\<close> with an empty body: the nodes from
  \<open>pos\<close> up to the head. It observes what a heap holds.
\<close>

partial_function (option) walk :: "lheap \<Rightarrow> node \<Rightarrow> node \<Rightarrow> node list option" where
  "walk h head pos =
     (if pos = head then Some []
      else do { n \<leftarrow> get_next pos h; ns \<leftarrow> walk h head n; Some (pos # ns) })"

definition list_of :: "node \<Rightarrow> lheap \<Rightarrow> node list option" where
  "list_of head h = do { n \<leftarrow> get_next head h; walk h head n }"

section \<open>Rings: what a heap holds\<close>

type_synonym rings = "node \<Rightarrow> node list option"

fun chain :: "lheap \<Rightarrow> node list \<Rightarrow> bool" where
  "chain h (x # y # zs) \<longleftrightarrow> nxt h x = y \<and> prv h y = x \<and> chain h (y # zs)"
| "chain h _ \<longleftrightarrow> True"

definition ring :: "lheap \<Rightarrow> node \<Rightarrow> node list \<Rightarrow> bool" where
  "ring h q xs \<longleftrightarrow> chain h (q # xs @ [q])"

definition in_ring :: "rings \<Rightarrow> node \<Rightarrow> node \<Rightarrow> bool" where
  "in_ring Q q n \<longleftrightarrow> (\<exists>xs. Q q = Some xs \<and> n \<in> set xs)"

definition loose :: "node \<Rightarrow> rings \<Rightarrow> bool" where
  "loose n Q \<longleftrightarrow> (\<forall>q. \<not> in_ring Q q n)"

definition idle_node :: "node \<Rightarrow> rings \<Rightarrow> bool" where
  "idle_node n Q \<longleftrightarrow> loose n Q \<and> (Q n = None \<or> Q n = Some [])"

definition rep :: "lheap \<Rightarrow> rings \<Rightarrow> bool" where
  "rep h Q \<longleftrightarrow>
     (\<forall>q xs. Q q = Some xs \<longrightarrow>
        ring h q xs \<and> distinct (q # xs) \<and> (\<forall>n \<in> set (q # xs). mapped n)) \<and>
     (\<forall>q q' xs ys. Q q = Some xs \<longrightarrow> Q q' = Some ys \<longrightarrow> q \<noteq> q' \<longrightarrow>
        set (q # xs) \<inter> set (q' # ys) = {})"

text \<open>The operations on rings that the pointer operations implement.\<close>

definition detach :: "node \<Rightarrow> rings \<Rightarrow> rings" where
  "detach n Q = (\<lambda>q. if q = n then None else map_option (filter (\<lambda>x. x \<noteq> n)) (Q q))"

definition push :: "node \<Rightarrow> node \<Rightarrow> rings \<Rightarrow> rings" where
  "push n q Q = (Q(n := None))(q \<mapsto> the (Q q) @ [n])"

definition enlist :: "(node \<Rightarrow> bool) \<Rightarrow> node \<Rightarrow> node \<Rightarrow> rings \<Rightarrow> rings" where
  "enlist P n q Q = (Q(n := None))(q \<mapsto> insert_before P n (the (Q q)))"

section \<open>Chains under pointer writes\<close>

lemma chain_append:
  "chain h (us @ a # vs) \<longleftrightarrow> chain h (us @ [a]) \<and> chain h (a # vs)"
proof (induction us)
  case Nil
  then show ?case by simp
next
  case (Cons u us)
  then show ?case by (cases us) auto
qed

lemma chain_cong:
  assumes "\<And>x. x \<in> set (butlast zs) \<Longrightarrow> nxt h' x = nxt h x"
    and "\<And>x. x \<in> set (tl zs) \<Longrightarrow> prv h' x = prv h x"
  shows "chain h' zs = chain h zs"
  using assms by (induction h zs rule: chain.induct) auto

lemma in_set_tlD: "x \<in> set (tl zs) \<Longrightarrow> x \<in> set zs"
  by (cases zs) auto

lemma chain_frame:
  assumes "chain h zs"
    and "\<And>x. x \<in> set zs \<Longrightarrow> nxt h' x = nxt h x"
    and "\<And>x. x \<in> set zs \<Longrightarrow> prv h' x = prv h x"
  shows "chain h' zs"
proof -
  have "chain h' zs = chain h zs"
    by (rule chain_cong) (auto intro!: assms dest: in_set_butlastD intro: in_set_tlD)
  with assms(1) show ?thesis by simp
qed

lemma chain_splice:
  assumes c: "chain h (us @ a # b # vs)"
    and d1: "distinct (butlast (us @ a # b # vs))" and d2: "distinct (tl (us @ a # b # vs))"
    and n: "n \<notin> set (us @ a # b # vs)"
    and h': "nxt h' = (nxt h)(n := b, a := n)" "prv h' = (prv h)(b := n, n := a)"
  shows "chain h' (us @ a # n # b # vs)"
proof -
  from c have c1: "chain h (us @ [a])" and c2: "chain h (b # vs)"
    by (subst (asm) chain_append, simp)+
  from d1 have d1': "distinct (us @ a # butlast (b # vs))" by (simp add: butlast_append)
  have l: "a \<notin> set us" "n \<notin> set us" "n \<notin> set (tl (us @ [a]))" "b \<notin> set (tl (us @ [a]))"
    using d1' d2 n by (cases us, auto)+
  have r: "a \<notin> set (butlast (b # vs))" "n \<notin> set (butlast (b # vs))" "b \<notin> set vs" "n \<notin> set vs"
    using d1' d2 n by (cases us, auto dest: in_set_butlastD split: if_splits)+
  have "chain h' (us @ [a]) = chain h (us @ [a])"
    using l by (intro chain_cong) (auto simp: h')
  moreover have "chain h' (b # vs) = chain h (b # vs)"
    using r by (intro chain_cong) (auto simp: h' simp del: butlast.simps)
  ultimately have "chain h' (us @ [a])" "chain h' (b # vs)" using c1 c2 by simp_all
  moreover have "a \<noteq> n" "b \<noteq> n" using n by auto
  ultimately show ?thesis by (subst chain_append) (simp add: h')
qed

lemma chain_unsplice:
  assumes c: "chain h (us @ a # n # b # vs)"
    and d1: "distinct (butlast (us @ a # n # b # vs))" and d2: "distinct (tl (us @ a # n # b # vs))"
    and h': "nxt h' = (nxt h)(a := b, n := v)" "prv h' = (prv h)(b := a, n := w)"
  shows "chain h' (us @ a # b # vs)"
proof -
  from c have c1: "chain h (us @ [a])" and c2: "chain h (b # vs)"
    by (subst (asm) chain_append, simp)+
  from d1 have d1': "distinct (us @ a # n # butlast (b # vs))" by (simp add: butlast_append)
  have l: "a \<notin> set us" "n \<notin> set us" "n \<notin> set (tl (us @ [a]))" "b \<notin> set (tl (us @ [a]))"
    using d1' d2 by (cases us, auto)+
  have r: "a \<notin> set (butlast (b # vs))" "n \<notin> set (butlast (b # vs))" "b \<notin> set vs" "n \<notin> set vs"
    using d1' d2 by (cases us, auto dest: in_set_butlastD split: if_splits)+
  have "chain h' (us @ [a]) = chain h (us @ [a])"
    using l by (intro chain_cong) (auto simp: h')
  moreover have "chain h' (b # vs) = chain h (b # vs)"
    using r by (intro chain_cong) (auto simp: h' simp del: butlast.simps)
  ultimately have "chain h' (us @ [a])" "chain h' (b # vs)" using c1 c2 by simp_all
  moreover have "a \<noteq> n" "b \<noteq> n" using d1' d2 by (cases us, auto)+
  ultimately show ?thesis by (subst chain_append) (simp add: h')
qed

section \<open>The representation relation\<close>

lemma repD:
  assumes "rep h Q" and "Q q = Some xs"
  shows "chain h (q # xs @ [q])" and "distinct (q # xs)" and "\<And>n. n \<in> set (q # xs) \<Longrightarrow> mapped n"
  using assms unfolding rep_def ring_def by blast+

lemma rep_disjoint:
  "rep h Q \<Longrightarrow> Q p = Some xs \<Longrightarrow> Q q = Some ys \<Longrightarrow> p \<noteq> q \<Longrightarrow> set (p # xs) \<inter> set (q # ys) = {}"
  unfolding rep_def by blast

lemma rep_in_ring_unique: "rep h Q \<Longrightarrow> in_ring Q p n \<Longrightarrow> in_ring Q q n \<Longrightarrow> p = q"
  unfolding in_ring_def using rep_disjoint by fastforce

lemma rep_owner_loose: "rep h Q \<Longrightarrow> Q n = Some xs \<Longrightarrow> loose n Q"
  unfolding loose_def in_ring_def using repD(2) rep_disjoint by fastforce

lemma rep_member_not_owner: "rep h Q \<Longrightarrow> in_ring Q q n \<Longrightarrow> Q n = None"
  using rep_owner_loose by (cases "Q n") (auto simp: loose_def)

lemma rep_in_ring_mapped: "rep h Q \<Longrightarrow> in_ring Q q n \<Longrightarrow> mapped n"
  unfolding in_ring_def using repD(3) by fastforce

lemma rep_update:
  assumes R: "rep h Q"
    and frame: "\<And>x. x \<notin> T \<Longrightarrow> nxt h' x = nxt h x \<and> prv h' x = prv h x"
    and apart: "\<And>p zs. Q p = Some zs \<Longrightarrow> p \<noteq> q \<Longrightarrow> p \<noteq> n \<Longrightarrow> set (p # zs) \<inter> T = {}"
    and new: "\<And>ys. yso = Some ys \<Longrightarrow> chain h' (q # ys @ [q]) \<and> distinct (q # ys) \<and> set (q # ys) \<subseteq> T"
    and map: "\<And>x. x \<in> T \<Longrightarrow> mapped x"
  shows "rep h' (Q(n := None, q := yso))"
proof -
  let ?Q = "Q(n := None, q := yso)"
  have old: "chain h' (p # zs @ [p]) \<and> distinct (p # zs) \<and> (\<forall>x \<in> set (p # zs). mapped x)"
    if "Q p = Some zs" "p \<noteq> q" "p \<noteq> n" for p zs
  proof -
    have "\<And>x. x \<in> set (p # zs @ [p]) \<Longrightarrow> x \<notin> T" using apart [OF that] by auto
    then have "chain h' (p # zs @ [p])"
      using frame by (intro chain_frame [OF repD(1) [OF R that(1)]]) blast+
    with repD(2,3) [OF R that(1)] show ?thesis by simp
  qed
  have "ring h' p zs \<and> distinct (p # zs) \<and> (\<forall>x \<in> set (p # zs). mapped x)"
    if "?Q p = Some zs" for p zs
    using that old [of p zs] new map unfolding ring_def by (cases "p = q") (auto split: if_splits)
  moreover have "set (p # zs) \<inter> set (p' # zs') = {}"
    if a: "?Q p = Some zs" "?Q p' = Some zs'" and ne: "p \<noteq> p'" for p p' zs zs'
  proof -
    consider "p = q" "p' \<noteq> q" | "p \<noteq> q" "p' = q" | "p \<noteq> q" "p' \<noteq> q" using ne by blast
    then show ?thesis
    proof cases
      case 1
      with a new [of zs] apart [of p' zs'] show ?thesis by (auto split: if_splits)
    next
      case 2
      with a new [of zs'] apart [of p zs] show ?thesis by (auto split: if_splits)
    next
      case 3
      with a ne rep_disjoint [OF R, of p zs p' zs'] show ?thesis by (auto split: if_splits)
    qed
  qed
  ultimately show ?thesis unfolding rep_def by blast
qed

lemma detach_idle: "idle_node n Q \<Longrightarrow> detach n Q = Q(n := None)"
  unfolding detach_def idle_node_def loose_def in_ring_def
  by (rule ext) (auto simp: map_option_case split: option.splits)

lemma detach_member:
  assumes "rep h Q" and "Q q = Some (us @ n # vs)"
  shows "detach n Q = Q(n := None, q := Some (us @ vs))"
proof (rule ext)
  fix p
  have n: "Q n = None" "q \<noteq> n"
    using assms rep_member_not_owner [OF assms(1), of q n] by (auto simp: in_ring_def)
  have "n \<notin> set zs" if "Q p = Some zs" "p \<noteq> q" for zs
    using rep_in_ring_unique [OF assms(1), of p n q] assms(2) that by (auto simp: in_ring_def)
  moreover have "filter (\<lambda>x. x \<noteq> n) (us @ n # vs) = us @ vs"
    using repD(2) [OF assms] by (intro filter_neq_split) simp
  ultimately show "detach n Q p = (Q(n := None, q := Some (us @ vs))) p"
    using n assms(2) by (auto simp: detach_def map_option_case split: option.splits)
qed

section \<open>The pointer operations implement the ring operations\<close>

lemmas link_defs = get_next_def get_prev_def set_next_def set_prev_def

lemma tkmc_init_list_head_rep:
  assumes R: "rep h Q" and n: "mapped n" "loose n Q"
  shows "ok (tkmc_init_list_head n h) (\<lambda>h'. rep h' (Q(n \<mapsto> [])))"
proof -
  let ?h = "h\<lparr>nxt := (nxt h)(n := n), prv := (prv h)(n := n)\<rparr>"
  have "tkmc_init_list_head n h = Some ?h"
    using n by (simp add: tkmc_init_list_head_def link_defs)
  moreover have "rep ?h (Q(n := None, n := Some []))"
    using n R by (intro rep_update [where T = "{n}"]) (auto simp: loose_def in_ring_def)
  ultimately show ?thesis by simp
qed

lemma zero_link_rep:
  assumes R: "rep h Q" and n: "mapped n" "loose n Q"
  shows "ok (zero_link n h) (\<lambda>h'. rep h' (Q(n := None)))"
proof -
  let ?h = "h\<lparr>nxt := (nxt h)(n := Null), prv := (prv h)(n := Null)\<rparr>"
  have "zero_link n h = Some ?h"
    using n by (simp add: zero_link_def link_defs)
  moreover have "rep ?h (Q(n := None, n := None))"
    using n R by (intro rep_update [where T = "{n}"]) (auto simp: loose_def in_ring_def)
  ultimately show ?thesis by simp
qed

lemma ring_list_split:
  assumes "q # xs @ [q] = us @ a # b # vs"
  shows "a \<in> set (q # xs)" "b \<in> set (q # xs)" "set (us @ a # b # vs) = set (q # xs)"
    "butlast (us @ a # b # vs) = q # xs" "tl (us @ a # b # vs) = xs @ [q]"
proof -
  show *: "set (us @ a # b # vs) = set (q # xs)" using arg_cong [OF assms, of set] by auto
  then show "a \<in> set (q # xs)" "b \<in> set (q # xs)" by auto
  show "butlast (us @ a # b # vs) = q # xs" using arg_cong [OF assms, of butlast] by simp
  show "tl (us @ a # b # vs) = xs @ [q]" using arg_cong [OF assms, of tl] by simp
qed

lemma tkmc_list_add_between_rep:
  assumes R: "rep h Q" and q: "Q q = Some xs" and zs: "q # xs @ [q] = us @ a # b # vs"
    and ys: "q # ys @ [q] = us @ a # n # b # vs"
    and n: "idle_node n Q" "mapped n" "n \<noteq> q"
  shows "ok (tkmc_list_add_between n a b h) (\<lambda>h'. rep h' (Q(n := None, q := Some ys)))"
proof -
  note D = repD [OF R q] and L = ring_list_split [OF zs]
  let ?h = "h\<lparr>nxt := (nxt h)(n := b, a := n), prv := (prv h)(b := n, n := a)\<rparr>"
  have nx: "n \<notin> set (q # xs)" using n q by (auto simp: idle_node_def loose_def in_ring_def)
  have "tkmc_list_add_between n a b h = Some ?h"
    using n D(3) L(1,2) by (simp add: tkmc_list_add_between_def link_defs)
  moreover have "chain ?h (q # ys @ [q])"
    unfolding ys using D L nx zs by (intro chain_splice [of h]) auto
  moreover have sy: "set (q # ys) = insert n (set (q # xs))"
    using arg_cong [OF ys, of set] arg_cong [OF zs, of set] by auto
  moreover have "length ys = Suc (length xs)"
    using arg_cong [OF ys, of length] arg_cong [OF zs, of length] by simp
  then have "distinct (q # ys)"
    using D(2) nx sy by (metis card_distinct card_insert_disjoint distinct_card length_Cons List.finite_set)
  moreover have "rep ?h (Q(n := None, q := Some ys))"
    if "chain ?h (q # ys @ [q])" "distinct (q # ys)"
    using that sy D(3) n L(1,2) nx rep_disjoint [OF R _ q]
    by (intro rep_update [where T = "insert n (set (q # xs))", OF R])
       (fastforce simp: idle_node_def loose_def in_ring_def)+
  ultimately show ?thesis by simp
qed

lemma tkmc_list_add_tail_rep:
  assumes R: "rep h Q" and q: "Q q = Some xs" and n: "idle_node n Q" "mapped n" "n \<noteq> q"
  shows "ok (tkmc_list_add_tail n q h) (\<lambda>h'. rep h' (push n q Q))"
proof -
  define us where "us = butlast (q # xs)"
  define a where "a = last (q # xs)"
  have zs: "q # xs @ [q] = us @ a # q # []"
    unfolding us_def a_def by (metis append_Cons append_assoc append_butlast_last_id append_Nil list.distinct(1))
  have "prv h q = a" and "mapped q"
    using repD(1) [OF R q] repD(3) [OF R q] unfolding zs by (subst (asm) chain_append, auto)
  moreover have "q # (xs @ [n]) @ [q] = us @ a # n # q # []"
    using zs by (metis append.assoc append_Cons append_Nil append_same_eq)
  ultimately show ?thesis
    using tkmc_list_add_between_rep [OF R q zs _ n] q
    by (simp add: tkmc_list_add_tail_def link_defs push_def)
qed

lemma tkmc_list_add_before_rep:
  assumes R: "rep h Q" and q: "Q q = Some (us @ x # vs)"
    and n: "idle_node n Q" "mapped n" "n \<noteq> q"
  shows "ok (get_prev x h) (\<lambda>p. ok (tkmc_list_add n p h)
    (\<lambda>h'. rep h' (Q(n := None, q := Some (us @ n # x # vs)))))"
proof -
  define ws where "ws = butlast (q # us)"
  define a where "a = last (q # us)"
  have qu: "q # us = ws @ [a]" unfolding ws_def a_def by simp
  have zs: "q # (us @ x # vs) @ [q] = ws @ a # x # vs @ [q]"
    using arg_cong [OF qu, of "\<lambda>l. l @ x # vs @ [q]"] by simp
  have ys: "q # (us @ n # x # vs) @ [q] = ws @ a # n # x # vs @ [q]"
    using arg_cong [OF qu, of "\<lambda>l. l @ n # x # vs @ [q]"] by simp
  have "prv h x = a" "nxt h a = x"
    using repD(1) [OF R q] unfolding zs by (subst (asm) chain_append, simp)+
  moreover have "mapped a" "mapped x"
    using repD(3) [OF R q] ring_list_split(1,2) [OF zs] by blast+
  ultimately show ?thesis
    using tkmc_list_add_between_rep [OF R q zs ys n] by (simp add: tkmc_list_add_def link_defs)
qed

lemma tkmc_list_del_split:
  assumes R: "rep h Q" and q: "Q q = Some (us @ n # vs)"
  shows "ok (tkmc_list_del n h) (\<lambda>h'. rep h' (Q(n := None, q := Some (us @ vs))))"
proof -
  obtain ws a where qu: "q # us = ws @ [a]" by (metis append_butlast_last_id list.distinct(1))
  obtain b ts where vq: "vs @ [q] = b # ts" by (cases "vs @ [q]") auto
  have zs: "q # (us @ n # vs) @ [q] = ws @ a # n # b # ts"
    using arg_cong [OF qu, of "\<lambda>l. l @ n # vs @ [q]"] vq by simp
  have ys: "q # (us @ vs) @ [q] = ws @ a # b # ts"
    using arg_cong [OF qu, of "\<lambda>l. l @ vs @ [q]"] vq by simp
  note D = repD [OF R q]
  have links: "nxt h a = n" "prv h n = a" "nxt h n = b"
    using D(1) unfolding zs by (subst (asm) chain_append, simp)+
  have ab: "a \<in> set (q # us @ n # vs)" "b \<in> set (q # us @ n # vs)"
    using arg_cong [OF zs, of set] by auto
  let ?h = "h\<lparr>nxt := (nxt h)(a := b, n := Deadbeef), prv := (prv h)(b := a, n := Deadbeef)\<rparr>"
  have "mapped a" "mapped b" "mapped n" using D(3) ab by auto
  then have "tkmc_list_del n h = Some ?h"
    using links by (simp add: tkmc_list_del_def link_defs)
  moreover have "chain ?h (q # (us @ vs) @ [q])"
    unfolding ys
  proof (rule chain_unsplice [of h _ _ n])
    show "chain h (ws @ a # n # b # ts)" using D(1) unfolding zs .
    have "butlast (ws @ a # n # b # ts) = q # us @ n # vs"
      unfolding zs [symmetric] by (simp add: butlast_append)
    then show "distinct (butlast (ws @ a # n # b # ts))" using D(2) by simp
    have "tl (ws @ a # n # b # ts) = us @ n # vs @ [q]" unfolding zs [symmetric] by simp
    then show "distinct (tl (ws @ a # n # b # ts))" using D(2) by auto
  qed simp_all
  then have "rep ?h (Q(n := None, q := Some (us @ vs)))"
  proof (intro rep_update [where T = "set (q # us @ n # vs)", OF R])
    fix x
    assume "x \<notin> set (q # us @ n # vs)"
    then have "x \<noteq> a" "x \<noteq> b" "x \<noteq> n" using ab by auto
    then show "nxt ?h x = nxt h x \<and> prv ?h x = prv h x" by simp
  qed (use D(2,3) rep_disjoint [OF R _ q] in auto)
  ultimately show ?thesis by simp
qed

lemma tkmc_list_del_rep:
  assumes R: "rep h Q" and n: "in_ring Q q n"
  shows "ok (tkmc_list_del n h) (\<lambda>h'. rep h' (detach n Q))"
proof -
  from n obtain us vs where q: "Q q = Some (us @ n # vs)"
    unfolding in_ring_def by (metis split_list)
  show ?thesis
    using tkmc_list_del_split [OF R q] by (simp add: detach_member [OF R q])
qed

lemma tkmc_list_empty_owner: "rep h Q \<Longrightarrow> Q q = Some xs \<Longrightarrow> tkmc_list_empty q h = Some (xs = [])"
  using repD [of h Q q xs] by (cases xs) (auto simp: tkmc_list_empty_def link_defs)

lemma get_next_head: "rep h Q \<Longrightarrow> Q q = Some xs \<Longrightarrow> get_next q h = Some (hd (xs @ [q]))"
  using repD [of h Q q xs] by (cases xs) (auto simp: link_defs)

lemma get_prev_head: "rep h Q \<Longrightarrow> Q q = Some xs \<Longrightarrow> get_prev q h = Some (last (q # xs))"
proof -
  assume R: "rep h Q" and q: "Q q = Some xs"
  obtain ws a where qu: "q # xs = ws @ [a]" by (metis append_butlast_last_id list.distinct(1))
  have zs: "q # xs @ [q] = ws @ a # q # []" using arg_cong [OF qu, of "\<lambda>l. l @ [q]"] by simp
  have "prv h q = a" using repD(1) [OF R q] unfolding zs by (subst (asm) chain_append) simp
  moreover have "mapped q" using repD(3) [OF R q] by simp
  ultimately show ?thesis unfolding qu by (simp add: link_defs)
qed

lemma get_next_member:
  assumes "rep h Q" and "Q q = Some (us @ n # vs)"
  shows "get_next n h = Some (hd (vs @ [q]))"
proof -
  have "chain h (n # vs @ [q])"
    using repD(1) [OF assms] chain_append [of h "q # us" n "vs @ [q]"] by simp
  then have "nxt h n = hd (vs @ [q])" by (cases vs) auto
  with repD(3) [OF assms, of n] show ?thesis by (simp add: link_defs)
qed

lemma tkmc_list_empty_member:
  assumes R: "rep h Q" and n: "in_ring Q q n"
  shows "tkmc_list_empty n h = Some False"
proof -
  from n obtain us vs where q: "Q q = Some (us @ n # vs)"
    unfolding in_ring_def by (metis split_list)
  have "hd (vs @ [q]) \<noteq> n" using repD(2) [OF R q] by (cases vs) auto
  with get_next_member [OF R q] show ?thesis by (auto simp: tkmc_list_empty_def)
qed

lemma walk_member:
  assumes R: "rep h Q" and "Q q = Some (us @ vs)"
  shows "walk h q (hd (vs @ [q])) = Some vs"
  using assms(2)
proof (induction vs arbitrary: us)
  case Nil
  then show ?case by (simp add: walk.simps)
next
  case (Cons v vs)
  have "q \<noteq> v" using repD(2) [OF R Cons.prems] by auto
  moreover have "get_next v h = Some (hd (vs @ [q]))" by (rule get_next_member [OF R Cons.prems])
  moreover have "walk h q (hd (vs @ [q])) = Some vs"
    using Cons.IH [of "us @ [v]"] Cons.prems by simp
  ultimately show ?case by (subst walk.simps) simp
qed

lemma list_of_rep: "rep h Q \<Longrightarrow> Q q = Some xs \<Longrightarrow> list_of q h = Some xs"
  using walk_member [of h Q q "[]" xs] get_next_head [of h Q q xs] by (simp add: list_of_def)

section \<open>Ring algebra\<close>

named_theorems ring_simps \<open>membership and lookup after ring operations\<close>

lemma in_ring_upd [ring_simps]:
  "in_ring (Q(p := x)) q m \<longleftrightarrow> (if q = p then (\<exists>xs. x = Some xs \<and> m \<in> set xs) else in_ring Q q m)"
  by (auto simp: in_ring_def)

lemma in_ring_detach [ring_simps]:
  "in_ring (detach n Q) q m \<longleftrightarrow> in_ring Q q m \<and> m \<noteq> n \<and> q \<noteq> n"
  by (auto simp: in_ring_def detach_def)

lemma detach_lookup [ring_simps]:
  "detach n Q q = (if q = n then None else map_option (filter (\<lambda>x. x \<noteq> n)) (Q q))"
  by (simp add: detach_def)

lemma push_lookup [ring_simps]:
  "push n q Q p = (if p = q then Some (the (Q q) @ [n]) else if p = n then None else Q p)"
  by (simp add: push_def)

lemma in_ring_push [ring_simps]:
  "Q q \<noteq> None \<Longrightarrow> in_ring (push n q Q) p m \<longleftrightarrow>
     (if p = q then m = n \<or> in_ring Q q m else p \<noteq> n \<and> in_ring Q p m)"
  by (auto simp: in_ring_def push_def)

lemma enlist_lookup [ring_simps]:
  "enlist P n q Q p = (if p = q then Some (insert_before P n (the (Q q)))
     else if p = n then None else Q p)"
  by (simp add: enlist_def)

lemma in_ring_enlist [ring_simps]:
  "Q q \<noteq> None \<Longrightarrow> in_ring (enlist P n q Q) p m \<longleftrightarrow>
     (if p = q then m = n \<or> in_ring Q q m else p \<noteq> n \<and> in_ring Q p m)"
  by (auto simp: in_ring_def enlist_def)

lemma push_enlist: "push n q Q = enlist (\<lambda>_. False) n q Q"
  by (simp add: push_def enlist_def insert_before_tail)

lemma idle_detach [simp]: "idle_node n (detach n Q)"
  by (auto simp: idle_node_def loose_def ring_simps)

lemma looseI: "(\<And>q. \<not> in_ring Q q n) \<Longrightarrow> loose n Q"
  by (simp add: loose_def)

lemma rep_owner_idle: "rep h Q \<Longrightarrow> Q n = Some [] \<Longrightarrow> idle_node n Q"
  using rep_owner_loose by (auto simp: idle_node_def)

lemma detach_owner: "rep h Q \<Longrightarrow> Q n = Some [] \<Longrightarrow> detach n Q = Q(n := None)"
  by (rule detach_idle) (rule rep_owner_idle)

lemma push_detach_idle: "idle_node n Q \<Longrightarrow> q \<noteq> n \<Longrightarrow> push n q (detach n Q) = push n q Q"
  by (auto simp: detach_idle push_def fun_eq_iff)

lemma detach_upd: "w \<noteq> n \<Longrightarrow> detach w (Q(n \<mapsto> [])) = (detach w Q)(n \<mapsto> [])"
  by (auto simp: detach_def)

lemma push_upd: "q \<noteq> n \<Longrightarrow> push n q (Q(n := x)) = push n q Q"
  by (auto simp: push_def)

lemma detach_restore: "rep h Q \<Longrightarrow> Q n = Some [] \<Longrightarrow> (detach n Q)(n \<mapsto> []) = Q"
  by (auto simp: detach_owner)

section \<open>The contract of the intrusive lists\<close>

text \<open>
  What the kernel relies on: each operation, applied where its precondition on the rings holds,
  returns, and the rings change as stated. The moves the kernel makes with them are proved from
  the contract alone.
\<close>

locale intrusive_lists =
  fixes repr :: "'h \<Rightarrow> rings \<Rightarrow> bool"
    and init :: "node \<Rightarrow> 'h \<Rightarrow> 'h option"
    and del :: "node \<Rightarrow> 'h \<Rightarrow> 'h option"
    and add_tail :: "node \<Rightarrow> node \<Rightarrow> 'h \<Rightarrow> 'h option"
    and is_empty :: "node \<Rightarrow> 'h \<Rightarrow> bool option"
    and first :: "node \<Rightarrow> 'h \<Rightarrow> node option"
  assumes init_law: "repr h Q \<Longrightarrow> mapped n \<Longrightarrow> loose n Q \<Longrightarrow> ok (init n h) (\<lambda>h'. repr h' (Q(n \<mapsto> [])))"
    and del_law: "repr h Q \<Longrightarrow> in_ring Q q n \<Longrightarrow> ok (del n h) (\<lambda>h'. repr h' (detach n Q))"
    and add_tail_law: "repr h Q \<Longrightarrow> Q q = Some xs \<Longrightarrow> idle_node n Q \<Longrightarrow> mapped n \<Longrightarrow> n \<noteq> q \<Longrightarrow>
      ok (add_tail n q h) (\<lambda>h'. repr h' (push n q Q))"
    and empty_law: "repr h Q \<Longrightarrow> Q q = Some xs \<Longrightarrow> is_empty q h = Some (xs = [])"
    and empty_member_law: "repr h Q \<Longrightarrow> in_ring Q q n \<Longrightarrow> is_empty n h = Some False"
    and first_law: "repr h Q \<Longrightarrow> Q q = Some xs \<Longrightarrow> first q h = Some (hd (xs @ [q]))"
    and member_mapped: "repr h Q \<Longrightarrow> in_ring Q q n \<Longrightarrow> mapped n"
    and owner_loose: "repr h Q \<Longrightarrow> Q n = Some xs \<Longrightarrow> loose n Q"
begin

text \<open>Off one queue and to the tail of another, or of the same one.\<close>

lemma move_tail:
  assumes "repr h Q" and "in_ring Q p n" and "Q q = Some xs" and "n \<noteq> q"
  shows "ok (del n h) (\<lambda>h1. ok (add_tail n q h1) (\<lambda>h2. repr h2 (push n q (detach n Q))))"
proof (rule ok_mono [OF del_law [OF assms(1,2)]])
  fix h1
  assume R: "repr h1 (detach n Q)"
  have "detach n Q q = Some (filter (\<lambda>x. x \<noteq> n) xs)" using assms(3,4) by (simp add: detach_def)
  then show "ok (add_tail n q h1) (\<lambda>h2. repr h2 (push n q (detach n Q)))"
    using member_mapped [OF assms(1,2)] assms(4) by (intro add_tail_law [OF R]) simp_all
qed

text \<open>Off a queue and linked to itself.\<close>

lemma park:
  assumes "repr h Q" and "in_ring Q p n"
  shows "ok (del n h) (\<lambda>h1. ok (init n h1) (\<lambda>h2. repr h2 ((detach n Q)(n \<mapsto> []))))"
proof (rule ok_mono [OF del_law [OF assms]])
  fix h1
  assume R: "repr h1 (detach n Q)"
  show "ok (init n h1) (\<lambda>h2. repr h2 ((detach n Q)(n \<mapsto> [])))"
    using member_mapped [OF assms] idle_detach [of n Q]
    by (intro init_law [OF R]) (simp_all add: idle_node_def)
qed

text \<open>
  The test for emptiness, asked of a link that is on a queue or linked to itself, tells which.
\<close>

lemma linked_test:
  assumes "repr h Q" and "in_ring Q p n \<or> Q n = Some []"
  shows "is_empty n h = Some (Q n = Some [])"
  using assms empty_member_law [OF assms(1)] empty_law [OF assms(1), of n "[]"] owner_loose [OF assms(1)]
  by (auto simp: loose_def)

text \<open>Off the queue it is on, if it is on one.\<close>

lemma unlink:
  assumes R: "repr h Q" and n: "in_ring Q p n \<or> Q n = Some []"
  shows "ok (is_empty n h) (\<lambda>e. ok (if \<not> e then del n h else Some h)
    (\<lambda>h'. repr h' (detach n Q) \<or> repr h' Q \<and> Q n = Some []))"
  using linked_test [OF R n] n R del_law [OF R] by (auto elim: ok_mono)

lemma unlink_init:
  assumes R: "repr h Q" and n: "in_ring Q p n \<or> Q n = Some []"
  shows "ok (is_empty n h) (\<lambda>e. if \<not> e then ok (del n h) (\<lambda>h1. ok (init n h1)
      (\<lambda>h'. repr h' ((detach n Q)(n \<mapsto> []))))
    else repr h ((detach n Q)(n \<mapsto> [])))"
proof (cases "Q n = Some []")
  case True
  then have "idle_node n Q" using owner_loose [OF R] by (simp add: idle_node_def)
  then have "(detach n Q)(n \<mapsto> []) = Q" using True by (auto simp: detach_idle)
  then show ?thesis using linked_test [OF R n] True R by simp
next
  case False
  then show ?thesis using linked_test [OF R n] n park [OF R] by simp
qed

end

interpretation tk: intrusive_lists rep tkmc_init_list_head tkmc_list_del tkmc_list_add_tail
  tkmc_list_empty get_next
  by unfold_locales
    (blast intro: tkmc_init_list_head_rep tkmc_list_del_rep tkmc_list_add_tail_rep
      tkmc_list_empty_owner tkmc_list_empty_member get_next_head rep_in_ring_mapped
      rep_owner_loose)+

lemma tkmc_list_add_rep:
  assumes R: "rep h Q" and q: "Q q = Some xs" and n: "idle_node n Q" "mapped n" "n \<noteq> q"
  shows "ok (tkmc_list_add n q h) (\<lambda>h'. rep h' (Q(n := None, q := Some (n # xs))))"
proof -
  obtain b vs where b: "xs @ [q] = b # vs" by (cases "xs @ [q]") auto
  then have "get_next q h = Some b" using get_next_head [OF R q] by simp
  then show ?thesis
    using tkmc_list_add_between_rep [OF R q, of "[]" q b vs "n # xs"] b n by (simp add: tkmc_list_add_def)
qed

section \<open>Properties\<close>

text \<open>
  C25: the pointer operations of list.h implement operations on sequences. On a heap that holds the
  rings \<open>Q\<close>, where the head \<open>q\<close> owns \<open>xs\<close>: the walk from \<open>q\<close> ends and meets \<open>xs\<close>; the test for
  emptiness tells whether \<open>xs\<close> is empty; a node on no list is put before the first or behind the
  last member; a member is taken out and the rest keep their order; and in each case every other
  ring is what it was.
\<close>

theorem list_operations_refine:
  assumes "rep h Q" and "Q q = Some xs"
  shows "list_of q h = Some xs \<and> tkmc_list_empty q h = Some (xs = []) \<and>
    (\<forall>n. idle_node n Q \<longrightarrow> mapped n \<longrightarrow> n \<noteq> q \<longrightarrow>
      ok (tkmc_list_add n q h) (\<lambda>h'. rep h' (Q(n := None, q := Some (n # xs)))) \<and>
      ok (tkmc_list_add_tail n q h) (\<lambda>h'. rep h' (Q(n := None, q := Some (xs @ [n]))))) \<and>
    (\<forall>us n vs. xs = us @ n # vs \<longrightarrow> ok (tkmc_list_del n h) (\<lambda>h'. rep h' (Q(n := None, q := Some (us @ vs)))))"
  using assms list_of_rep [OF assms] tkmc_list_empty_owner [OF assms] tkmc_list_add_rep [OF assms]
    tkmc_list_add_tail_rep [OF assms] tkmc_list_del_split [OF assms(1), of q]
  by (auto simp: push_def)

theorem list_operations_refine_witness:
  "ok (tkmc_init_list_head FreeTcb \<lparr>nxt = \<lambda>_. Null, prv = \<lambda>_. Null\<rparr>) (\<lambda>h. list_of FreeTcb h = Some [] \<and>
    ok (tkmc_list_add_tail (TcbHead 3) FreeTcb h) (\<lambda>h'. rep h' [FreeTcb \<mapsto> [TcbHead 3]]))"
proof (rule ok_mono [OF tk.init_law [where Q = Map.empty and n = FreeTcb]])
  fix h assume R: "rep h [FreeTcb \<mapsto> []]"
  have "idle_node (TcbHead 3) [FreeTcb \<mapsto> []]" "mapped (TcbHead 3)"
    by (auto simp: idle_node_def loose_def in_ring_def mapped_def split: if_split_asm)
  moreover have "[FreeTcb \<mapsto> []](TcbHead 3 := None, FreeTcb \<mapsto> [TcbHead 3]) = [FreeTcb \<mapsto> [TcbHead 3]]" by auto
  ultimately show "list_of FreeTcb h = Some [] \<and> ok (tkmc_list_add_tail (TcbHead 3) FreeTcb h) (\<lambda>h'. rep h' [FreeTcb \<mapsto> [TcbHead 3]])"
    using list_operations_refine [OF R, of FreeTcb "[]"] by auto
qed (simp_all add: rep_def mapped_def loose_def in_ring_def)

end
