(* ===== verification/TK_State.thy ===== *)
theory TK_State
  imports TK_List
begin

text \<open>
  The kernel's state and the small operations every call uses: the control blocks of
  \<^verbatim>\<open>kernel/task.h\<close>, \<^verbatim>\<open>kernel/semaphore.h\<close>, \<^verbatim>\<open>kernel/event_flag.h\<close> and
  \<^verbatim>\<open>kernel/mailbox.h\<close>, the interrupt macros of \<^verbatim>\<open>include/sys/interrupt.h\<close>, the
  context checks of \<^verbatim>\<open>kernel/context.h\<close>, \<open>dispatch\<close> of
  \<^verbatim>\<open>kernel/dispatch.h\<close>, and the choice of the next task of \<^verbatim>\<open>kernel/task.c\<close>.

  A pointer to a control block is the index of the block in its table; a null pointer is
  \<^term>\<open>None\<close>. The link members of the blocks live in the link heap \<open>links\<close>.
\<close>

section \<open>Control blocks\<close>

text \<open>
  The union of \<open>WaitInfo\<close>. The code writes all members of one alternative before it
  waits and reads that alternative only; \<open>WZero\<close> is the union cleared by
  \<open>memset\<close>. Reading an alternative that was not written is a failure.
\<close>

datatype wait_info =
    WZero
  | WFlg (waiptn: UINT) (wfmode: UINT) (flgptn_got: UINT)
  | WSem (sem_req: int) (semcb_of: nat)
  | WMbx (mbx_msg: addr)

record TCB =
  tskid :: ID
  itskpri :: PRI
  tskstat :: tskstat
  tskwait :: tskwait
  sp :: addr
  initial_sp :: addr
  task :: addr
  exinf :: addr
  delay_ticks :: UINT
  wupcause :: ER
  wupcnt :: UINT
  winfo :: wait_info

record SEMCB =
  semid :: UW
  sem_exinf :: addr
  sematr :: ATR
  semcnt :: int
  maxsem :: int

record FLGCB =
  flgid :: UW
  flg_exinf :: addr
  flgatr :: ATR
  flgptn :: UINT

record MBXCB =
  mbxid :: UW
  mbx_exinf :: addr
  mbxatr :: ATR

datatype context_api = TKMC_CONTEXT_NONE | TKMC_CONTEXT_EXT_TSK | TKMC_CONTEXT_EXD_TSK

datatype startup_stage =
  TKMC_STARTUP_NONE | TKMC_STARTUP_INITIAL_CREATE | TKMC_STARTUP_INITIAL_START |
  TKMC_STARTUP_IDLE_CREATE | TKMC_STARTUP_IDLE_START

section \<open>The kernel state\<close>

text \<open>
  The global variables of the kernel, and the part of the machine they talk to: the MIE bit of
  \<open>mstatus\<close>, the software interrupt request \<open>msip\<close>, the machine time and the
  compare register. \<open>mtime\<close> gives the time at each of a sequence of instants and \<open>clk\<close>
  is the one at which the next access to the time register finds it. \<open>stack_mem\<close> is the
  memory of the task stacks by word address, \<open>msgpri\<close> the priority field of the
  application's messages, \<open>ext_entry\<close> the address of \<open>tk_ext_tsk\<close>.
\<close>

record kernel =
  links :: lheap
  tcbs :: "nat \<Rightarrow> TCB"
  semcbs :: "nat \<Rightarrow> SEMCB"
  flgcbs :: "nat \<Rightarrow> FLGCB"
  mbxcbs :: "nat \<Rightarrow> MBXCB"
  current :: "nat option"
  next_tsk :: "nat option"
  isr_depth :: UINT
  s_mtimecmp :: UD
  last_context_failure :: "context_api \<times> ER"
  last_startup_failure :: "startup_stage \<times> ER"
  mstatus :: UW
  msip :: bool
  mtimecmp_reg :: UD
  mtime :: "nat \<Rightarrow> UD"
  clk :: nat
  stack_mem :: "addr \<Rightarrow> UW"
  msgpri :: "addr \<Rightarrow> PRI"
  ext_entry :: addr

text \<open>
  What a call does for its caller: it returns a value, it leaves the caller blocked (the rest
  of the call runs when the task is resumed), or it stops the system.
\<close>

datatype 'a outcome = Return 'a | Block | Halt

definition upd_tcb :: "nat \<Rightarrow> (TCB \<Rightarrow> TCB) \<Rightarrow> kernel \<Rightarrow> kernel" where
  "upd_tcb i f s = s\<lparr>tcbs := (tcbs s)(i := f (tcbs s i))\<rparr>"

definition upd_sem :: "nat \<Rightarrow> (SEMCB \<Rightarrow> SEMCB) \<Rightarrow> kernel \<Rightarrow> kernel" where
  "upd_sem j f s = s\<lparr>semcbs := (semcbs s)(j := f (semcbs s j))\<rparr>"

definition upd_flg :: "nat \<Rightarrow> (FLGCB \<Rightarrow> FLGCB) \<Rightarrow> kernel \<Rightarrow> kernel" where
  "upd_flg j f s = s\<lparr>flgcbs := (flgcbs s)(j := f (flgcbs s j))\<rparr>"

definition upd_mbx :: "nat \<Rightarrow> (MBXCB \<Rightarrow> MBXCB) \<Rightarrow> kernel \<Rightarrow> kernel" where
  "upd_mbx j f s = s\<lparr>mbxcbs := (mbxcbs s)(j := f (mbxcbs s j))\<rparr>"

definition on_links :: "(lheap \<Rightarrow> lheap option) \<Rightarrow> kernel \<Rightarrow> kernel option" where
  "on_links f s = do { h \<leftarrow> f (links s); Some (s\<lparr>links := h\<rparr>) }"

section \<open>Interrupt state and context\<close>

definition MSTATUS_MIE :: UINT where "MSTATUS_MIE = 8"

definition DI :: "kernel \<Rightarrow> UINT \<times> kernel" where
  "DI s = (mstatus s OR NOT MSTATUS_MIE, s\<lparr>mstatus := mstatus s AND NOT MSTATUS_MIE\<rparr>)"

definition EI :: "UINT \<Rightarrow> kernel \<Rightarrow> kernel" where
  "EI intsts s = (if intsts = 0 then s\<lparr>mstatus := mstatus s OR MSTATUS_MIE\<rparr>
     else s\<lparr>mstatus := mstatus s OR (intsts AND MSTATUS_MIE)\<rparr>)"

definition isDI :: "UINT \<Rightarrow> bool" where
  "isDI intsts \<longleftrightarrow> intsts AND MSTATUS_MIE = 0"

definition tkmc_in_isr :: "kernel \<Rightarrow> bool" where
  "tkmc_in_isr s \<longleftrightarrow> isr_depth s \<noteq> 0"

definition tkmc_can_block :: "UINT \<Rightarrow> kernel \<Rightarrow> bool" where
  "tkmc_can_block intsts s \<longleftrightarrow> \<not> isDI intsts \<and> current s \<noteq> None \<and> \<not> tkmc_in_isr s"

section \<open>The condition of a flag waiter\<close>

text \<open>\<open>check_ptn\<close> of \<^verbatim>\<open>kernel/event_flag.c\<close>; what the waiters of a flag wait for.\<close>

definition check_ptn :: "UINT \<Rightarrow> UINT \<Rightarrow> UINT \<Rightarrow> bool" where
  "check_ptn ptn wptn mode =
     (if mode AND TWF_ORW \<noteq> 0 then ptn AND wptn \<noteq> 0 else ptn AND wptn = wptn)"

section \<open>Choosing the next task\<close>

definition dispatch :: "kernel \<Rightarrow> kernel" where
  "dispatch s = s\<lparr>msip := True\<rparr>"

fun highest_from :: "nat \<Rightarrow> nat \<Rightarrow> lheap \<Rightarrow> nat option option" where
  "highest_from i 0 h = Some None"
| "highest_from i (Suc k) h = do {
     e \<leftarrow> tkmc_list_empty (ReadyQ i) h;
     if \<not> e then do {
       n \<leftarrow> get_next (ReadyQ i) h;
       t \<leftarrow> tcb_of_head n;
       Some (Some t) }
     else highest_from (Suc i) k h }"

definition tkmc_get_highest_priority_task :: "kernel \<Rightarrow> nat option option" where
  "tkmc_get_highest_priority_task s = highest_from 0 CFN_MAX_PRI (links s)"

text \<open>
  The two ways a call ends that changed the ready queues: it asks for a switch if the next task
  is another one, or it asks for one in any case because the current task left the ready queue.
\<close>

definition reschedule :: "kernel \<Rightarrow> kernel option" where
  "reschedule s = do {
     n \<leftarrow> tkmc_get_highest_priority_task s;
     let s = s\<lparr>next_tsk := n\<rparr>;
     Some (if next_tsk s \<noteq> current s then dispatch s else s) }"

definition switch_away :: "kernel \<Rightarrow> kernel option" where
  "switch_away s = do {
     n \<leftarrow> tkmc_get_highest_priority_task s;
     Some (dispatch (s\<lparr>next_tsk := n\<rparr>)) }"

text \<open>\<open>&tkmc_ready_queue[itskpri - 1]\<close>: an index outside the array is a failure.\<close>

definition ready_queue :: "PRI \<Rightarrow> node option" where
  "ready_queue p = (if 1 \<le> p \<and> p \<le> int CFN_MAX_PRI then Some (ReadyQ (nat (p - 1))) else None)"

section \<open>Lemmas\<close>

lemma ok_on_links [simp]: "ok (on_links f s) P = ok (f (links s)) (\<lambda>h. P (s\<lparr>links := h\<rparr>))"
  by (simp add: on_links_def)

lemma links_self [simp]: "s\<lparr>links := links s\<rparr> = s"
  by simp

text \<open>
  The steps on the link heap, in the form in which a call is run: what is left to show is the
  continuation, for any heap that represents the new rings.
\<close>

lemma ok_init:
  "rep (links s) Q \<Longrightarrow> mapped n \<Longrightarrow> loose n Q \<Longrightarrow>
    (\<And>h. rep h (Q(n \<mapsto> [])) \<Longrightarrow> P (s\<lparr>links := h\<rparr>)) \<Longrightarrow> ok (on_links (tkmc_init_list_head n) s) P"
  by (auto intro: ok_mono [OF tk.init_law])

lemma ok_zero:
  "rep (links s) Q \<Longrightarrow> mapped n \<Longrightarrow> loose n Q \<Longrightarrow>
    (\<And>h. rep h (Q(n := None)) \<Longrightarrow> P (s\<lparr>links := h\<rparr>)) \<Longrightarrow> ok (on_links (zero_link n) s) P"
  by (auto intro: ok_mono [OF zero_link_rep])

lemma ok_del:
  "rep (links s) Q \<Longrightarrow> in_ring Q q n \<Longrightarrow>
    (\<And>h. rep h (detach n Q) \<Longrightarrow> P (s\<lparr>links := h\<rparr>)) \<Longrightarrow> ok (on_links (tkmc_list_del n) s) P"
  by (auto intro: ok_mono [OF tk.del_law])

text \<open>Off the queue it is on, and linked to itself.\<close>

lemma ok_park:
  assumes "rep (links s) Q" and "in_ring Q q n"
    and "\<And>h. rep h ((detach n Q)(n \<mapsto> [])) \<Longrightarrow> P (s\<lparr>links := h\<rparr>)"
  shows "ok (on_links (tkmc_list_del n) s) (\<lambda>s. ok (on_links (tkmc_init_list_head n) s) P)"
  using tk.park [OF assms(1,2)] assms(3) by (auto elim!: ok_mono)

lemma ok_add_tail:
  assumes "rep (links s) Q" and "Q q \<noteq> None" and "idle_node n Q" and "mapped n" and "n \<noteq> q"
    and "\<And>h. rep h (push n q Q) \<Longrightarrow> P (s\<lparr>links := h\<rparr>)"
  shows "ok (on_links (tkmc_list_add_tail n q) s) P"
proof -
  from assms(2) obtain xs where "Q q = Some xs" by blast
  from ok_mono [OF tk.add_tail_law [OF assms(1) this assms(3-5)], of "\<lambda>h. P (s\<lparr>links := h\<rparr>)"]
  show ?thesis using assms(6) by simp
qed

lemma ok_unlink:
  assumes "rep (links s) Q" and "in_ring Q q n \<or> Q n = Some []"
    and "\<And>h. rep h (detach n Q) \<or> rep h Q \<and> Q n = Some [] \<Longrightarrow> P (s\<lparr>links := h\<rparr>)"
  shows "ok (tkmc_list_empty n (links s))
    (\<lambda>e. ok (if \<not> e then on_links (tkmc_list_del n) s else Some s) P)"
  using tk.linked_test [OF assms(1,2)] assms(1,2) assms(3) [of "links s"]
    ok_mono [OF tk.del_law [OF assms(1)], of q n "\<lambda>h. P (s\<lparr>links := h\<rparr>)"] assms(3) by auto

lemma ok_unlink_init:
  assumes "rep (links s) Q" and "in_ring Q q n \<or> Q n = Some []"
    and "\<And>h. rep h ((detach n Q)(n \<mapsto> [])) \<Longrightarrow> P (s\<lparr>links := h\<rparr>)"
  shows "ok (tkmc_list_empty n (links s))
    (\<lambda>e. ok (if \<not> e then do {
         s \<leftarrow> on_links (tkmc_list_del n) s;
         on_links (tkmc_init_list_head n) s }
       else Some s) P)"
  using tk.unlink_init [OF assms(1,2)] assms(3) assms(3) [of "links s"]
  by (auto elim!: ok_mono split: if_splits)

lemma upd_apply [simp]:
  "tcbs (upd_tcb i f s) = (tcbs s)(i := f (tcbs s i))"
  "semcbs (upd_sem i g s) = (semcbs s)(i := g (semcbs s i))"
  "flgcbs (upd_flg i k s) = (flgcbs s)(i := k (flgcbs s i))"
  "mbxcbs (upd_mbx i m s) = (mbxcbs s)(i := m (mbxcbs s i))"
  by (simp_all add: upd_tcb_def upd_sem_def upd_flg_def upd_mbx_def)

lemma upd_tcb_frame [simp]:
  "links (upd_tcb i f s) = links s"
  "semcbs (upd_tcb i f s) = semcbs s"
  "flgcbs (upd_tcb i f s) = flgcbs s"
  "mbxcbs (upd_tcb i f s) = mbxcbs s"
  "current (upd_tcb i f s) = current s"
  "next_tsk (upd_tcb i f s) = next_tsk s"
  "isr_depth (upd_tcb i f s) = isr_depth s"
  "s_mtimecmp (upd_tcb i f s) = s_mtimecmp s"
  "last_context_failure (upd_tcb i f s) = last_context_failure s"
  "last_startup_failure (upd_tcb i f s) = last_startup_failure s"
  "mstatus (upd_tcb i f s) = mstatus s"
  "msip (upd_tcb i f s) = msip s"
  "mtimecmp_reg (upd_tcb i f s) = mtimecmp_reg s"
  "mtime (upd_tcb i f s) = mtime s"
  "clk (upd_tcb i f s) = clk s"
  "stack_mem (upd_tcb i f s) = stack_mem s"
  "msgpri (upd_tcb i f s) = msgpri s"
  "ext_entry (upd_tcb i f s) = ext_entry s"
  by (simp_all add: upd_tcb_def)

lemma upd_sem_frame [simp]:
  "links (upd_sem i f s) = links s"
  "tcbs (upd_sem i f s) = tcbs s"
  "flgcbs (upd_sem i f s) = flgcbs s"
  "mbxcbs (upd_sem i f s) = mbxcbs s"
  "current (upd_sem i f s) = current s"
  "next_tsk (upd_sem i f s) = next_tsk s"
  "isr_depth (upd_sem i f s) = isr_depth s"
  "s_mtimecmp (upd_sem i f s) = s_mtimecmp s"
  "last_context_failure (upd_sem i f s) = last_context_failure s"
  "last_startup_failure (upd_sem i f s) = last_startup_failure s"
  "mstatus (upd_sem i f s) = mstatus s"
  "msip (upd_sem i f s) = msip s"
  "mtimecmp_reg (upd_sem i f s) = mtimecmp_reg s"
  "mtime (upd_sem i f s) = mtime s"
  "clk (upd_sem i f s) = clk s"
  "stack_mem (upd_sem i f s) = stack_mem s"
  "msgpri (upd_sem i f s) = msgpri s"
  "ext_entry (upd_sem i f s) = ext_entry s"
  by (simp_all add: upd_sem_def)

lemma upd_flg_frame [simp]:
  "links (upd_flg i f s) = links s"
  "tcbs (upd_flg i f s) = tcbs s"
  "semcbs (upd_flg i f s) = semcbs s"
  "mbxcbs (upd_flg i f s) = mbxcbs s"
  "current (upd_flg i f s) = current s"
  "next_tsk (upd_flg i f s) = next_tsk s"
  "isr_depth (upd_flg i f s) = isr_depth s"
  "s_mtimecmp (upd_flg i f s) = s_mtimecmp s"
  "last_context_failure (upd_flg i f s) = last_context_failure s"
  "last_startup_failure (upd_flg i f s) = last_startup_failure s"
  "mstatus (upd_flg i f s) = mstatus s"
  "msip (upd_flg i f s) = msip s"
  "mtimecmp_reg (upd_flg i f s) = mtimecmp_reg s"
  "mtime (upd_flg i f s) = mtime s"
  "clk (upd_flg i f s) = clk s"
  "stack_mem (upd_flg i f s) = stack_mem s"
  "msgpri (upd_flg i f s) = msgpri s"
  "ext_entry (upd_flg i f s) = ext_entry s"
  by (simp_all add: upd_flg_def)

lemma upd_mbx_frame [simp]:
  "links (upd_mbx i f s) = links s"
  "tcbs (upd_mbx i f s) = tcbs s"
  "semcbs (upd_mbx i f s) = semcbs s"
  "flgcbs (upd_mbx i f s) = flgcbs s"
  "current (upd_mbx i f s) = current s"
  "next_tsk (upd_mbx i f s) = next_tsk s"
  "isr_depth (upd_mbx i f s) = isr_depth s"
  "s_mtimecmp (upd_mbx i f s) = s_mtimecmp s"
  "last_context_failure (upd_mbx i f s) = last_context_failure s"
  "last_startup_failure (upd_mbx i f s) = last_startup_failure s"
  "mstatus (upd_mbx i f s) = mstatus s"
  "msip (upd_mbx i f s) = msip s"
  "mtimecmp_reg (upd_mbx i f s) = mtimecmp_reg s"
  "mtime (upd_mbx i f s) = mtime s"
  "clk (upd_mbx i f s) = clk s"
  "stack_mem (upd_mbx i f s) = stack_mem s"
  "msgpri (upd_mbx i f s) = msgpri s"
  "ext_entry (upd_mbx i f s) = ext_entry s"
  by (simp_all add: upd_mbx_def)

lemma upd_tcb_twice [simp]: "upd_tcb i f (upd_tcb i g s) = upd_tcb i (\<lambda>t. f (g t)) s"
  by (simp add: upd_tcb_def)

lemma upd_links [simp]:
  "upd_tcb i f (s\<lparr>links := h\<rparr>) = (upd_tcb i f s)\<lparr>links := h\<rparr>"
  "upd_sem j g (s\<lparr>links := h\<rparr>) = (upd_sem j g s)\<lparr>links := h\<rparr>"
  "upd_flg j k (s\<lparr>links := h\<rparr>) = (upd_flg j k s)\<lparr>links := h\<rparr>"
  "upd_mbx j m (s\<lparr>links := h\<rparr>) = (upd_mbx j m s)\<lparr>links := h\<rparr>"
  by (simp_all add: upd_tcb_def upd_sem_def upd_flg_def upd_mbx_def)

lemma upd_tcb_other [simp]:
  "upd_tcb i f (s\<lparr>stack_mem := g\<rparr>) = (upd_tcb i f s)\<lparr>stack_mem := g\<rparr>"
  "upd_tcb i f (s\<lparr>clk := k\<rparr>) = (upd_tcb i f s)\<lparr>clk := k\<rparr>"
  "upd_tcb i f (s\<lparr>mstatus := m\<rparr>) = (upd_tcb i f s)\<lparr>mstatus := m\<rparr>"
  by (simp_all add: upd_tcb_def)

lemma DI_mask_nonzero: "m OR NOT MSTATUS_MIE \<noteq> (0 :: UINT)"
proof
  assume "m OR NOT MSTATUS_MIE = (0 :: UINT)"
  then have "bit (m OR NOT MSTATUS_MIE) 0 = bit (0 :: UINT) 0" by simp
  then show False by (simp add: MSTATUS_MIE_def bit_simps)
qed

lemma mask_restore: "(m AND NOT b) OR ((m OR NOT b) AND b) = (m :: UINT)"
  by (rule bit_eqI) (auto simp: bit_simps)

lemma fst_DI [simp]: "fst (DI s) = mstatus s OR NOT MSTATUS_MIE"
  by (simp add: DI_def)

lemma snd_DI [simp]: "snd (DI s) = s\<lparr>mstatus := mstatus s AND NOT MSTATUS_MIE\<rparr>"
  by (simp add: DI_def)

text \<open>Closing a critical section restores the interrupt state found at its start.\<close>

lemma EI_restores:
  "mstatus s' = m AND NOT MSTATUS_MIE \<Longrightarrow> EI (m OR NOT MSTATUS_MIE) s' = s'\<lparr>mstatus := m\<rparr>"
  by (simp add: EI_def DI_mask_nonzero mask_restore)

lemma isDI_DI [simp]: "isDI (m OR NOT MSTATUS_MIE) \<longleftrightarrow> m AND MSTATUS_MIE = 0"
proof -
  have "(m OR NOT MSTATUS_MIE) AND MSTATUS_MIE = m AND MSTATUS_MIE"
    by (rule bit_eqI) (auto simp: bit_simps)
  then show ?thesis by (simp add: isDI_def)
qed

section \<open>Properties\<close>

text \<open>\<^verbatim>\<open>DI\<close> followed by \<^verbatim>\<open>EI\<close> with the value it saved puts back the interrupt state of the caller, whatever it was.\<close>

lemma EI_undoes_DI: "(case DI s of (intsts, s') \<Rightarrow> EI intsts s') = s \<and> isDI (fst (DI s)) = (mstatus s AND MSTATUS_MIE = 0)"
  by (simp add: DI_def EI_restores)

end
