(* ===== verification/TK_Inv.thy ===== *)
theory TK_Inv
  imports TK_State
begin

text \<open>
  The kernel invariant, stated over the control blocks and the rings: which queue the links of
  a task are on for each task state, what the control blocks of the objects hold, which task is
  running. It says nothing of pointers; \<open>rep\<close> connects the rings to the link heap.

  The end of a wait, which several calls share, is given here as a function on a control block
  and one on rings (\<open>wake_tcb\<close>, \<open>wake_rings\<close>), with the proof that it keeps the invariant.
\<close>

section \<open>Which links may be on which queue\<close>

primrec fits :: "node \<Rightarrow> node \<Rightarrow> bool" where
  "fits FreeTcb n \<longleftrightarrow> (case n of TcbHead i \<Rightarrow> i < CFN_MAX_TSKID | _ \<Rightarrow> False)"
| "fits (ReadyQ p) n \<longleftrightarrow>
     (case n of TcbHead i \<Rightarrow> p < CFN_MAX_PRI \<and> i < CFN_MAX_TSKID | _ \<Rightarrow> False)"
| "fits TimerQ n \<longleftrightarrow> (case n of TcbHead i \<Rightarrow> i < CFN_MAX_TSKID | _ \<Rightarrow> False)"
| "fits (SemQ j) n \<longleftrightarrow>
     (case n of TcbWait i \<Rightarrow> j < CFN_MAX_SEMID \<and> i < CFN_MAX_TSKID | _ \<Rightarrow> False)"
| "fits (FlgQ j) n \<longleftrightarrow>
     (case n of TcbWait i \<Rightarrow> j < CFN_MAX_FLGID \<and> i < CFN_MAX_TSKID | _ \<Rightarrow> False)"
| "fits (MbxWaitQ j) n \<longleftrightarrow>
     (case n of TcbWait i \<Rightarrow> j < CFN_MAX_MBXID \<and> i < CFN_MAX_TSKID | _ \<Rightarrow> False)"
| "fits FreeSem n \<longleftrightarrow> (case n of SemQ j \<Rightarrow> j < CFN_MAX_SEMID | _ \<Rightarrow> False)"
| "fits FreeFlg n \<longleftrightarrow> (case n of FlgQ j \<Rightarrow> j < CFN_MAX_FLGID | _ \<Rightarrow> False)"
| "fits FreeMbx n \<longleftrightarrow> (case n of MbxWaitQ j \<Rightarrow> j < CFN_MAX_MBXID | _ \<Rightarrow> False)"
| "fits (MbxMsgQ j) n \<longleftrightarrow> (case n of MsgLink m \<Rightarrow> j < CFN_MAX_MBXID \<and> m \<noteq> NULL | _ \<Rightarrow> False)"
| "fits (TcbHead i) n \<longleftrightarrow> False"
| "fits (TcbWait i) n \<longleftrightarrow> False"
| "fits (MsgLink m) n \<longleftrightarrow> False"
| "fits Null n \<longleftrightarrow> False"
| "fits Deadbeef n \<longleftrightarrow> False"

definition typed :: "rings \<Rightarrow> bool" where
  "typed Q \<longleftrightarrow> (\<forall>q n. in_ring Q q n \<longrightarrow> fits q n)"

definition static :: "rings \<Rightarrow> bool" where
  "static Q \<longleftrightarrow> Q FreeTcb \<noteq> None \<and> Q TimerQ \<noteq> None \<and> Q FreeSem \<noteq> None \<and>
     Q FreeFlg \<noteq> None \<and> Q FreeMbx \<noteq> None \<and> (\<forall>p < CFN_MAX_PRI. Q (ReadyQ p) \<noteq> None) \<and>
     (\<forall>j < CFN_MAX_MBXID. Q (MbxMsgQ j) \<noteq> None)"

section \<open>Tasks\<close>

abbreviation ready_node :: "PRI \<Rightarrow> node" where
  "ready_node p \<equiv> ReadyQ (nat (p - 1))"

definition head_ok :: "TCB \<Rightarrow> rings \<Rightarrow> nat \<Rightarrow> bool" where
  "head_ok t Q i \<longleftrightarrow> (case tskstat t of
       TTS_NOEXS \<Rightarrow> in_ring Q FreeTcb (TcbHead i)
     | TTS_RUN \<Rightarrow> in_ring Q (ready_node (itskpri t)) (TcbHead i)
     | TTS_RDY \<Rightarrow> in_ring Q (ready_node (itskpri t)) (TcbHead i)
     | TTS_WAI \<Rightarrow> in_ring Q TimerQ (TcbHead i) \<or> Q (TcbHead i) = Some [] \<and> delay_ticks t = 0
     | TTS_DMT \<Rightarrow> idle_node (TcbHead i) Q
     | _ \<Rightarrow> False)"

definition wait_ok :: "TCB \<Rightarrow> rings \<Rightarrow> nat \<Rightarrow> bool" where
  "wait_ok t Q i \<longleftrightarrow> (if tskstat t = TTS_WAI then
       (case tskwait t of
          TTW_SLP \<Rightarrow> Q (TcbWait i) = Some []
        | TTW_DLY \<Rightarrow> Q (TcbWait i) = Some [] \<and> in_ring Q TimerQ (TcbHead i)
        | TTW_SEM \<Rightarrow> (\<exists>c j. winfo t = WSem c j \<and> in_ring Q (SemQ j) (TcbWait i))
        | TTW_FLG \<Rightarrow> (\<exists>w m g j. winfo t = WFlg w m g \<and> in_ring Q (FlgQ j) (TcbWait i))
        | TTW_MBX \<Rightarrow> (\<exists>m j. winfo t = WMbx m \<and> in_ring Q (MbxWaitQ j) (TcbWait i))
        | TTW_NONE \<Rightarrow> False)
     else Q (TcbWait i) = Some [])"

definition task_ok :: "TCB \<Rightarrow> rings \<Rightarrow> nat \<Rightarrow> bool" where
  "task_ok t Q i \<longleftrightarrow> tskid t = int i + 1 \<and> wupcnt t \<le> TK_WAKEUP_MAXCNT \<and>
     (tskstat t \<noteq> TTS_NOEXS \<longrightarrow> 1 \<le> itskpri t \<and> itskpri t \<le> int CFN_MAX_PRI) \<and>
     head_ok t Q i \<and> wait_ok t Q i"

definition cur_ok :: "kernel \<Rightarrow> bool" where
  "cur_ok s \<longleftrightarrow> (\<forall>c. current s = Some c \<longrightarrow> c < CFN_MAX_TSKID) \<and>
     (\<forall>i < CFN_MAX_TSKID. current s \<noteq> Some i \<longrightarrow> tskstat (tcbs s i) \<noteq> TTS_RUN)"

section \<open>Objects\<close>

definition NOEXS_MASK :: UW where "NOEXS_MASK = 0x80000000"

definition exists_id :: "UW \<Rightarrow> bool" where
  "exists_id w \<longleftrightarrow> w AND NOEXS_MASK = 0"

fun wait_pri :: "kernel \<Rightarrow> node \<Rightarrow> PRI" where
  "wait_pri s (TcbWait i) = itskpri (tcbs s i)"
| "wait_pri s _ = 0"

definition pri_sorted :: "kernel \<Rightarrow> node list \<Rightarrow> bool" where
  "pri_sorted s ws \<longleftrightarrow> sorted_wrt (\<lambda>x y. wait_pri s x \<le> wait_pri s y) ws"

fun wait_req :: "kernel \<Rightarrow> node \<Rightarrow> int" where
  "wait_req s (TcbWait i) = (case winfo (tcbs s i) of WSem c _ \<Rightarrow> c | _ \<Rightarrow> 0)"
| "wait_req s _ = 0"

text \<open>What the wait queue of an object must satisfy.\<close>

definition sem_queue_ok :: "kernel \<Rightarrow> nat \<Rightarrow> node list \<Rightarrow> bool" where
  "sem_queue_ok s j ws \<longleftrightarrow>
     (sematr (semcbs s j) AND TA_TPRI \<noteq> 0 \<longrightarrow> pri_sorted s ws) \<and>
     (\<forall>w \<in> set ws. 0 < wait_req s w \<and> wait_req s w \<le> maxsem (semcbs s j))"

definition flg_queue_ok :: "kernel \<Rightarrow> nat \<Rightarrow> node list \<Rightarrow> bool" where
  "flg_queue_ok s j ws \<longleftrightarrow>
     (flgatr (flgcbs s j) AND TA_TPRI \<noteq> 0 \<longrightarrow> pri_sorted s ws) \<and>
     (flgatr (flgcbs s j) AND TA_WMUL = 0 \<longrightarrow> length ws \<le> 1)"

fun msg_pri :: "(addr \<Rightarrow> PRI) \<Rightarrow> node \<Rightarrow> PRI" where
  "msg_pri f (MsgLink m) = f m"
| "msg_pri f _ = 0"

definition msgs_sorted :: "(addr \<Rightarrow> PRI) \<Rightarrow> node list \<Rightarrow> bool" where
  "msgs_sorted f ms \<longleftrightarrow> sorted_wrt (\<lambda>x y. msg_pri f x \<le> msg_pri f y) ms"

definition mbx_queue_ok :: "kernel \<Rightarrow> rings \<Rightarrow> nat \<Rightarrow> node list \<Rightarrow> bool" where
  "mbx_queue_ok s Q j ws \<longleftrightarrow>
     (mbxatr (mbxcbs s j) AND TA_TPRI \<noteq> 0 \<longrightarrow> pri_sorted s ws) \<and>
     (mbxatr (mbxcbs s j) AND TA_MPRI \<noteq> 0 \<longrightarrow> msgs_sorted (msgpri s) (the (Q (MbxMsgQ j)))) \<and>
     (ws \<noteq> [] \<longrightarrow> Q (MbxMsgQ j) = Some [])"

definition sem_ok :: "kernel \<Rightarrow> rings \<Rightarrow> nat \<Rightarrow> bool" where
  "sem_ok s Q j \<longleftrightarrow> (let c = semcbs s j in
     semid c AND NOT NOEXS_MASK = of_nat (Suc j) \<and>
     (if exists_id (semid c) then
        1 \<le> maxsem c \<and> maxsem c \<le> TK_SEMAPHORE_MAXCNT \<and> 0 \<le> semcnt c \<and> semcnt c \<le> maxsem c \<and>
        (\<exists>ws. Q (SemQ j) = Some ws \<and> sem_queue_ok s j ws)
      else in_ring Q FreeSem (SemQ j)))"

definition flg_ok :: "kernel \<Rightarrow> rings \<Rightarrow> nat \<Rightarrow> bool" where
  "flg_ok s Q j \<longleftrightarrow> (let c = flgcbs s j in
     flgid c AND NOT NOEXS_MASK = of_nat (Suc j) \<and>
     (if exists_id (flgid c) then
        (\<exists>ws. Q (FlgQ j) = Some ws \<and> flg_queue_ok s j ws)
      else in_ring Q FreeFlg (FlgQ j)))"

definition mbx_ok :: "kernel \<Rightarrow> rings \<Rightarrow> nat \<Rightarrow> bool" where
  "mbx_ok s Q j \<longleftrightarrow> (let c = mbxcbs s j in
     mbxid c AND NOT NOEXS_MASK = of_nat (Suc j) \<and>
     (if exists_id (mbxid c) then
        (\<exists>ws. Q (MbxWaitQ j) = Some ws \<and> mbx_queue_ok s Q j ws)
      else in_ring Q FreeMbx (MbxWaitQ j) \<and> Q (MbxMsgQ j) = Some []))"

section \<open>The invariant\<close>

definition kinv :: "kernel \<Rightarrow> rings \<Rightarrow> bool" where
  "kinv s Q \<longleftrightarrow> typed Q \<and> static Q \<and> cur_ok s \<and>
     (\<forall>i < CFN_MAX_TSKID. task_ok (tcbs s i) Q i) \<and>
     (\<forall>j < CFN_MAX_SEMID. sem_ok s Q j) \<and>
     (\<forall>j < CFN_MAX_FLGID. flg_ok s Q j) \<and>
     (\<forall>j < CFN_MAX_MBXID. mbx_ok s Q j)"

text \<open>
  The invariant of a concrete state: its link heap represents some rings for which the rest
  holds.
\<close>

definition kernel_inv :: "kernel \<Rightarrow> bool" where
  "kernel_inv s \<longleftrightarrow> (\<exists>Q. rep (links s) Q \<and> kinv s Q)"

section \<open>Waking a task\<close>

definition wake_tcb :: "ER \<Rightarrow> TCB \<Rightarrow> TCB" where
  "wake_tcb cause t =
     t\<lparr>delay_ticks := 0, tskwait := TTW_NONE, wupcause := cause, tskstat := TTS_RDY\<rparr>"

definition wake_rings :: "nat \<Rightarrow> PRI \<Rightarrow> rings \<Rightarrow> rings" where
  "wake_rings i p Q =
     push (TcbHead i) (ready_node p)
       ((detach (TcbWait i) (detach (TcbHead i) Q))(TcbWait i \<mapsto> []))"

section \<open>Moving the links of one task\<close>

text \<open>
  Every call that changes a task state moves the two links of that task between queues and
  leaves the order of all other links alone. \<open>moved\<close> says this of two rings; the
  invariant then has to be re-established for that task only.
\<close>

definition keep :: "nat \<Rightarrow> node \<Rightarrow> bool" where
  "keep i n \<longleftrightarrow> n \<noteq> TcbHead i \<and> n \<noteq> TcbWait i"

definition moved :: "nat \<Rightarrow> rings \<Rightarrow> rings \<Rightarrow> bool" where
  "moved i Q Q' \<longleftrightarrow> (\<forall>q. keep i q \<longrightarrow>
     map_option (filter (keep i)) (Q' q) = map_option (filter (keep i)) (Q q))"

lemma moved_refl [simp]: "moved i Q Q"
  by (simp add: moved_def)

lemma moved_trans: "moved i Q R \<Longrightarrow> moved i R S \<Longrightarrow> moved i Q S"
  by (simp add: moved_def)

lemma moved_upd_own: "\<not> keep i n \<Longrightarrow> moved i Q R \<Longrightarrow> moved i Q (R(n := x))"
  by (auto simp: moved_def)

lemma moved_detach:
  assumes "\<not> keep i n" and "moved i Q R"
  shows "moved i Q (detach n R)"
proof -
  have "filter (keep i) (filter (\<lambda>x. x \<noteq> n) xs) = filter (keep i) xs" for xs
    using assms(1) by (auto intro: filter_cong)
  then show ?thesis
    using assms by (auto simp: moved_def detach_def option.map_comp o_def)
qed

lemma moved_enlist:
  assumes "\<not> keep i n" and "moved i Q R" and "R q \<noteq> None"
  shows "moved i Q (enlist P n q R)"
  using assms by (auto simp: moved_def enlist_def filter_insert_before)

lemma moved_push: "\<not> keep i n \<Longrightarrow> moved i Q R \<Longrightarrow> R q \<noteq> None \<Longrightarrow> moved i Q (push n q R)"
  by (simp add: push_enlist moved_enlist)

lemma not_keep [simp]: "\<not> keep i (TcbHead i)" "\<not> keep i (TcbWait i)"
  by (simp_all add: keep_def)

lemma keep_other [simp]:
  "keep i (TcbHead k) \<longleftrightarrow> k \<noteq> i" "keep i (TcbWait k) \<longleftrightarrow> k \<noteq> i" "keep i FreeTcb" "keep i (ReadyQ p)"
  "keep i TimerQ" "keep i (SemQ j)" "keep i FreeSem" "keep i (FlgQ j)" "keep i FreeFlg"
  "keep i (MbxWaitQ j)" "keep i (MbxMsgQ j)" "keep i FreeMbx" "keep i (MsgLink m)"
  by (auto simp: keep_def)

lemma moved_None: "moved i Q Q' \<Longrightarrow> keep i q \<Longrightarrow> Q' q = None \<longleftrightarrow> Q q = None"
  unfolding moved_def by (metis map_option_is_None)

lemma moved_Some:
  "moved i Q Q' \<Longrightarrow> keep i q \<Longrightarrow> Q q = Some xs \<Longrightarrow>
    \<exists>ys. Q' q = Some ys \<and> filter (keep i) ys = filter (keep i) xs"
  unfolding moved_def by (cases "Q' q") (fastforce dest: spec [of _ q])+

lemma in_ring_keep:
  "keep i n \<Longrightarrow> in_ring Q q n \<longleftrightarrow> (\<exists>ys. map_option (filter (keep i)) (Q q) = Some ys \<and> n \<in> set ys)"
  by (auto simp: in_ring_def)

lemma moved_in_ring: "moved i Q Q' \<Longrightarrow> keep i q \<Longrightarrow> keep i n \<Longrightarrow> in_ring Q' q n = in_ring Q q n"
  by (simp add: in_ring_keep moved_def)

lemma typed_in_ring: "typed Q \<Longrightarrow> in_ring Q q n \<Longrightarrow> fits q n"
  by (simp add: typed_def)

lemma typed_keep: "typed Q \<Longrightarrow> in_ring Q q n \<Longrightarrow> keep i q"
  using typed_in_ring [of Q q n] by (cases q) (auto simp: keep_def)

lemma typed_own: "typed Q \<Longrightarrow> (Q (TcbHead k) = Some []) = (Q (TcbHead k) \<noteq> None)"
  "typed Q \<Longrightarrow> (Q (TcbWait k) = Some []) = (Q (TcbWait k) \<noteq> None)"
proof -
  have "xs = []" if "typed Q" "Q n = Some xs" "\<And>m. \<not> fits n m" for xs n
    using that typed_in_ring [of Q n "hd xs"] by (cases xs) (auto simp: in_ring_def)
  then show "typed Q \<Longrightarrow> (Q (TcbHead k) = Some []) = (Q (TcbHead k) \<noteq> None)"
    "typed Q \<Longrightarrow> (Q (TcbWait k) = Some []) = (Q (TcbWait k) \<noteq> None)" by fastforce+
qed

lemma moved_in_ring_typed:
  "typed Q \<Longrightarrow> typed Q' \<Longrightarrow> moved i Q Q' \<Longrightarrow> keep i n \<Longrightarrow> in_ring Q' q n = in_ring Q q n"
  by (metis moved_in_ring typed_keep)

lemma task_ok_moved:
  assumes T: "typed Q" "typed Q'" and M: "moved i Q Q'" and k: "k \<noteq> i"
  shows "task_ok t Q' k = task_ok t Q k"
proof -
  have h: "in_ring Q' q (TcbHead k) = in_ring Q q (TcbHead k)"
    and w: "in_ring Q' q (TcbWait k) = in_ring Q q (TcbWait k)" for q
    using moved_in_ring_typed [OF T M] k by simp_all
  have "(Q' (TcbHead k) = Some []) = (Q (TcbHead k) = Some [])"
    "(Q' (TcbWait k) = Some []) = (Q (TcbWait k) = Some [])"
    "(Q' (TcbHead k) = None) = (Q (TcbHead k) = None)"
    using moved_None [OF M] k by (simp_all add: typed_own T)
  then show ?thesis
    by (simp add: task_ok_def head_ok_def wait_ok_def idle_node_def loose_def h w
        cong: tskstat.case_cong tskwait.case_cong)
qed

lemma static_moved: "static Q \<Longrightarrow> moved i Q Q' \<Longrightarrow> static Q'"
  unfolding static_def using moved_None [of i Q Q'] by simp

lemma moved_queue:
  assumes T: "typed Q'" and M: "moved i Q Q'" and q: "keep i q" "\<not> fits q (TcbHead i)" "Q q = Some xs"
    and w: "\<not> in_ring Q' q (TcbWait i)"
  shows "Q' q = Some (filter (keep i) xs)"
proof -
  obtain ys where ys: "Q' q = Some ys" "filter (keep i) ys = filter (keep i) xs"
    using moved_Some [OF M q(1,3)] by blast
  have "keep i n" if "n \<in> set ys" for n
    using that ys(1) typed_in_ring [OF T, of q n] q w by (auto simp: keep_def in_ring_def)
  then have "filter (keep i) ys = ys" by simp
  with ys show ?thesis by simp
qed

lemma wait_pri_upd: "n \<noteq> TcbWait i \<Longrightarrow> wait_pri (upd_tcb i f s) n = wait_pri s n"
  by (cases n) (auto simp: upd_tcb_def)

lemma wait_req_upd: "n \<noteq> TcbWait i \<Longrightarrow> wait_req (upd_tcb i f s) n = wait_req s n"
  by (cases n) (auto simp: upd_tcb_def)

lemma pri_sorted_cong:
  "(\<And>x. x \<in> set ws \<Longrightarrow> wait_pri s x = wait_pri s' x) \<Longrightarrow> pri_sorted s ws = pri_sorted s' ws"
  unfolding pri_sorted_def by (induction ws) auto

lemma pri_sorted_upd:
  "TcbWait i \<notin> set ws \<Longrightarrow> pri_sorted (upd_tcb i f s) ws = pri_sorted s ws"
  by (rule pri_sorted_cong) (auto intro: wait_pri_upd)

lemma pri_sorted_filter: "pri_sorted s ws \<Longrightarrow> pri_sorted s (filter P ws)"
  by (simp add: pri_sorted_def sorted_wrt_filterI)

lemma pri_sorted_removed: "pri_sorted s ws \<Longrightarrow> pri_sorted (upd_tcb i f s) (filter (keep i) ws)"
  by (subst pri_sorted_upd) (auto intro: pri_sorted_filter)

lemma sem_queue_ok_removed:
  "sem_queue_ok s j ws \<Longrightarrow> sem_queue_ok (upd_tcb i f s) j (filter (keep i) ws)"
  unfolding sem_queue_ok_def
  by (auto simp: wait_req_upd keep_def [of i] intro!: pri_sorted_removed)

lemma flg_queue_ok_removed:
  "flg_queue_ok s j ws \<Longrightarrow> flg_queue_ok (upd_tcb i f s) j (filter (keep i) ws)"
  unfolding flg_queue_ok_def
  by (auto intro: pri_sorted_removed le_trans [OF length_filter_le])

lemma mbx_queue_ok_removed:
  "mbx_queue_ok s Q j ws \<Longrightarrow> Q' (MbxMsgQ j) = Q (MbxMsgQ j) \<Longrightarrow>
    mbx_queue_ok (upd_tcb i f s) Q' j (filter (keep i) ws)"
  unfolding mbx_queue_ok_def using pri_sorted_removed [of s ws i f] by (cases "ws = []") auto

lemma moved_msgs:
  assumes "typed Q" "typed Q'" "moved i Q Q'"
  shows "Q' (MbxMsgQ j) = Q (MbxMsgQ j)"
proof (cases "Q (MbxMsgQ j)")
  case None
  then show ?thesis using moved_None [OF assms(3), of "MbxMsgQ j"] by simp
next
  case (Some xs)
  have "\<not> in_ring Q' (MbxMsgQ j) (TcbWait i)" using typed_in_ring [OF assms(2)] by force
  then have "Q' (MbxMsgQ j) = Some (filter (keep i) xs)"
    by (intro moved_queue [OF assms(2,3)]) (simp_all add: Some)
  moreover have "keep i n" if "n \<in> set xs" for n
    using that Some typed_in_ring [OF assms(1), of "MbxMsgQ j" n]
    by (auto simp: in_ring_def keep_def)
  then have "filter (keep i) xs = xs" by simp
  ultimately show ?thesis using Some by simp
qed

lemma sem_ok_moved:
  assumes "sem_ok s Q j" and T: "typed Q'" and M: "moved i Q Q'"
    and new: "\<And>ws. in_ring Q' (SemQ j) (TcbWait i) \<Longrightarrow> Q' (SemQ j) = Some ws \<Longrightarrow>
      sem_queue_ok (upd_tcb i f s) j ws"
  shows "sem_ok (upd_tcb i f s) Q' j"
proof (cases "exists_id (semid (semcbs s j))")
  case True
  with assms(1) obtain ws where ws: "Q (SemQ j) = Some ws" "sem_queue_ok s j ws"
    by (auto simp: sem_ok_def Let_def)
  have "\<exists>ys. Q' (SemQ j) = Some ys \<and> sem_queue_ok (upd_tcb i f s) j ys"
  proof (cases "in_ring Q' (SemQ j) (TcbWait i)")
    case True
    then show ?thesis using new by (auto simp: in_ring_def)
  next
    case False
    then have "Q' (SemQ j) = Some (filter (keep i) ws)"
      using ws by (intro moved_queue [OF T M]) simp_all
    then show ?thesis using sem_queue_ok_removed [OF ws(2)] by simp
  qed
  with True assms(1) show ?thesis by (simp add: sem_ok_def Let_def)
next
  case False
  with assms(1) moved_in_ring [OF M, of FreeSem "SemQ j"] show ?thesis
    by (simp add: sem_ok_def Let_def)
qed

lemma flg_ok_moved:
  assumes "flg_ok s Q j" and T: "typed Q'" and M: "moved i Q Q'"
    and new: "\<And>ws. in_ring Q' (FlgQ j) (TcbWait i) \<Longrightarrow> Q' (FlgQ j) = Some ws \<Longrightarrow>
      flg_queue_ok (upd_tcb i f s) j ws"
  shows "flg_ok (upd_tcb i f s) Q' j"
proof (cases "exists_id (flgid (flgcbs s j))")
  case True
  with assms(1) obtain ws where ws: "Q (FlgQ j) = Some ws" "flg_queue_ok s j ws"
    by (auto simp: flg_ok_def Let_def)
  have "\<exists>ys. Q' (FlgQ j) = Some ys \<and> flg_queue_ok (upd_tcb i f s) j ys"
  proof (cases "in_ring Q' (FlgQ j) (TcbWait i)")
    case True
    then show ?thesis using new by (auto simp: in_ring_def)
  next
    case False
    then have "Q' (FlgQ j) = Some (filter (keep i) ws)"
      using ws by (intro moved_queue [OF T M]) simp_all
    then show ?thesis using flg_queue_ok_removed [OF ws(2)] by simp
  qed
  with True assms(1) show ?thesis by (simp add: flg_ok_def Let_def)
next
  case False
  with assms(1) moved_in_ring [OF M, of FreeFlg "FlgQ j"] show ?thesis
    by (simp add: flg_ok_def Let_def)
qed

lemma mbx_ok_moved:
  assumes "mbx_ok s Q j" and T0: "typed Q" and T: "typed Q'" and M: "moved i Q Q'"
    and new: "\<And>ws. in_ring Q' (MbxWaitQ j) (TcbWait i) \<Longrightarrow> Q' (MbxWaitQ j) = Some ws \<Longrightarrow>
      mbx_queue_ok (upd_tcb i f s) Q' j ws"
  shows "mbx_ok (upd_tcb i f s) Q' j"
proof (cases "exists_id (mbxid (mbxcbs s j))")
  case True
  with assms(1) obtain ws where ws: "Q (MbxWaitQ j) = Some ws" "mbx_queue_ok s Q j ws"
    by (auto simp: mbx_ok_def Let_def)
  have "\<exists>ys. Q' (MbxWaitQ j) = Some ys \<and> mbx_queue_ok (upd_tcb i f s) Q' j ys"
  proof (cases "in_ring Q' (MbxWaitQ j) (TcbWait i)")
    case True
    then show ?thesis using new by (auto simp: in_ring_def)
  next
    case False
    then have "Q' (MbxWaitQ j) = Some (filter (keep i) ws)"
      using ws by (intro moved_queue [OF T M]) simp_all
    then show ?thesis using mbx_queue_ok_removed [OF ws(2)] moved_msgs [OF T0 T M] by simp
  qed
  with True assms(1) show ?thesis by (simp add: mbx_ok_def Let_def)
next
  case False
  with assms(1) moved_in_ring [OF M, of FreeMbx "MbxWaitQ j"] moved_msgs [OF T0 T M] show ?thesis
    by (simp add: mbx_ok_def Let_def)
qed

text \<open>
  The main rule: moving the links of task \<open>i\<close> and changing its control block keeps the
  invariant if that task is again in order, and so is the wait queue it may be on.
\<close>

lemma kinv_moved:
  assumes K: "kinv s Q" and T: "typed Q'" and M: "moved i Q Q'"
    and t: "task_ok (f (tcbs s i)) Q' i" and c: "cur_ok (upd_tcb i f s)"
    and sem: "\<And>j ws. in_ring Q' (SemQ j) (TcbWait i) \<Longrightarrow> Q' (SemQ j) = Some ws \<Longrightarrow>
      sem_queue_ok (upd_tcb i f s) j ws"
    and flg: "\<And>j ws. in_ring Q' (FlgQ j) (TcbWait i) \<Longrightarrow> Q' (FlgQ j) = Some ws \<Longrightarrow>
      flg_queue_ok (upd_tcb i f s) j ws"
    and mbx: "\<And>j ws. in_ring Q' (MbxWaitQ j) (TcbWait i) \<Longrightarrow> Q' (MbxWaitQ j) = Some ws \<Longrightarrow>
      mbx_queue_ok (upd_tcb i f s) Q' j ws"
  shows "kinv (upd_tcb i f s) Q'"
proof -
  have T0: "typed Q" using K by (simp add: kinv_def)
  have "task_ok (tcbs (upd_tcb i f s) k) Q' k" if "k < CFN_MAX_TSKID" for k
    using that t K task_ok_moved [OF T0 T M, of k] by (cases "k = i") (auto simp: kinv_def)
  moreover have "sem_ok (upd_tcb i f s) Q' j" if "j < CFN_MAX_SEMID" for j
    using that K sem by (intro sem_ok_moved [OF _ T M]) (auto simp: kinv_def)
  moreover have "flg_ok (upd_tcb i f s) Q' j" if "j < CFN_MAX_FLGID" for j
    using that K flg by (intro flg_ok_moved [OF _ T M]) (auto simp: kinv_def)
  moreover have "mbx_ok (upd_tcb i f s) Q' j" if "j < CFN_MAX_MBXID" for j
    using that K mbx by (intro mbx_ok_moved [OF _ T0 T M]) (auto simp: kinv_def)
  moreover have "static Q'" using K M by (auto simp: kinv_def intro: static_moved)
  ultimately show ?thesis using T c by (simp add: kinv_def)
qed

lemma typed_detach: "typed Q \<Longrightarrow> typed (detach n Q)"
  by (simp add: typed_def ring_simps)

lemma typed_upd_Nil: "typed Q \<Longrightarrow> typed (Q(n \<mapsto> []))"
  by (simp add: typed_def ring_simps)

lemma typed_upd_None: "typed Q \<Longrightarrow> typed (Q(n := None))"
  by (simp add: typed_def ring_simps)

lemma typed_enlist: "typed Q \<Longrightarrow> Q q \<noteq> None \<Longrightarrow> fits q n \<Longrightarrow> typed (enlist P n q Q)"
  by (simp add: typed_def ring_simps)

lemma typed_push: "typed Q \<Longrightarrow> Q q \<noteq> None \<Longrightarrow> fits q n \<Longrightarrow> typed (push n q Q)"
  by (simp add: push_enlist typed_enlist)

lemmas typed_intros = typed_detach typed_upd_Nil typed_upd_None typed_push typed_enlist
lemmas moved_intros = moved_detach moved_upd_own moved_push moved_enlist moved_refl not_keep

lemma kinvD:
  assumes "kinv s Q"
  shows "typed Q" and "static Q" and "cur_ok s" and "\<And>i. i < CFN_MAX_TSKID \<Longrightarrow> task_ok (tcbs s i) Q i"
    and "\<And>j. j < CFN_MAX_SEMID \<Longrightarrow> sem_ok s Q j" and "\<And>j. j < CFN_MAX_FLGID \<Longrightarrow> flg_ok s Q j"
    and "\<And>j. j < CFN_MAX_MBXID \<Longrightarrow> mbx_ok s Q j"
  using assms by (auto simp: kinv_def)

lemma static_ready: "static Q \<Longrightarrow> 1 \<le> p \<Longrightarrow> p \<le> int CFN_MAX_PRI \<Longrightarrow> Q (ready_node p) \<noteq> None"
  by (simp add: static_def nat_less_iff)

lemma task_pri:
  "kinv s Q \<Longrightarrow> i < CFN_MAX_TSKID \<Longrightarrow> tskstat (tcbs s i) \<noteq> TTS_NOEXS \<Longrightarrow>
    1 \<le> itskpri (tcbs s i) \<and> itskpri (tcbs s i) \<le> int CFN_MAX_PRI"
  using kinvD(4) by (auto simp: task_ok_def)

lemma kinv_ready:
  "kinv s Q \<Longrightarrow> i < CFN_MAX_TSKID \<Longrightarrow> tskstat (tcbs s i) \<noteq> TTS_NOEXS \<Longrightarrow>
    Q (ready_node (itskpri (tcbs s i))) \<noteq> None"
  using task_pri static_ready kinvD(2) by blast

lemma cur_ok_upd: "cur_ok s \<Longrightarrow> tskstat (f (tcbs s i)) \<noteq> TTS_RUN \<Longrightarrow> cur_ok (upd_tcb i f s)"
  by (simp add: cur_ok_def)

lemma kinv_wake:
  assumes K: "kinv s Q" and i: "i < CFN_MAX_TSKID" and w: "tskstat (tcbs s i) = TTS_WAI"
  shows "kinv (upd_tcb i (wake_tcb cause) s) (wake_rings i (itskpri (tcbs s i)) Q)"
proof -
  let ?p = "itskpri (tcbs s i)" and ?Q = "wake_rings i (itskpri (tcbs s i)) Q"
  note t = kinvD(4) [OF K i]
  have p: "1 \<le> ?p" "?p \<le> int CFN_MAX_PRI" using task_pri [OF K i] w by auto
  have r: "Q (ready_node ?p) \<noteq> None" using kinv_ready [OF K i] w by simp
  have nowait: "\<not> in_ring ?Q q (TcbWait i)" for q
    using r by (simp add: wake_rings_def ring_simps)
  have T: "typed ?Q"
    unfolding wake_rings_def using r p i kinvD(1) [OF K]
    by (intro typed_intros) (auto simp: ring_simps)
  have M: "moved i Q ?Q"
    unfolding wake_rings_def using r by (intro moved_intros) (auto simp: ring_simps)
  have "task_ok (wake_tcb cause (tcbs s i)) ?Q i"
    using t p r by (auto simp: task_ok_def head_ok_def wait_ok_def wake_tcb_def wake_rings_def ring_simps)
  moreover have "cur_ok (upd_tcb i (wake_tcb cause) s)"
    using kinvD(3) [OF K] by (rule cur_ok_upd) (simp add: wake_tcb_def)
  ultimately show ?thesis
    using nowait by (intro kinv_moved [OF K T M]) auto
qed

section \<open>What the invariant does not depend on\<close>

lemma wait_pri_cong: "tcbs s' = tcbs s \<Longrightarrow> wait_pri s' n = wait_pri s n"
  by (cases n) auto

lemma wait_req_cong: "tcbs s' = tcbs s \<Longrightarrow> wait_req s' n = wait_req s n"
  by (cases n) auto

lemma kinv_cong:
  assumes "tcbs s' = tcbs s" "semcbs s' = semcbs s" "flgcbs s' = flgcbs s" "mbxcbs s' = mbxcbs s"
    "current s' = current s" "msgpri s' = msgpri s"
  shows "kinv s' Q = kinv s Q"
proof -
  have "pri_sorted s' = pri_sorted s" "wait_req s' = wait_req s"
    using assms(1) by (auto intro!: pri_sorted_cong simp: fun_eq_iff wait_pri_cong wait_req_cong)
  then show ?thesis
    using assms by (simp add: kinv_def sem_ok_def flg_ok_def mbx_ok_def sem_queue_ok_def
        flg_queue_ok_def mbx_queue_ok_def cur_ok_def)
qed

lemma kinv_frame [simp]:
  "kinv (s\<lparr>links := h\<rparr>) Q = kinv s Q"
  "kinv (s\<lparr>next_tsk := x\<rparr>) Q = kinv s Q"
  "kinv (s\<lparr>msip := b\<rparr>) Q = kinv s Q"
  "kinv (s\<lparr>mstatus := m\<rparr>) Q = kinv s Q"
  "kinv (s\<lparr>isr_depth := d\<rparr>) Q = kinv s Q"
  "kinv (s\<lparr>clk := k\<rparr>) Q = kinv s Q"
  "kinv (s\<lparr>s_mtimecmp := t\<rparr>) Q = kinv s Q"
  "kinv (s\<lparr>mtimecmp_reg := t\<rparr>) Q = kinv s Q"
  "kinv (s\<lparr>stack_mem := g\<rparr>) Q = kinv s Q"
  by (rule kinv_cong; simp)+

section \<open>Who waits on the queue of an object\<close>

lemma waiter_state:
  assumes R: "rep h Q" and K: "kinv s Q" and w: "in_ring Q q (TcbWait i)"
  shows "i < CFN_MAX_TSKID" and "tskstat (tcbs s i) = TTS_WAI"
    and "(\<exists>c j. q = SemQ j \<and> tskwait (tcbs s i) = TTW_SEM \<and> winfo (tcbs s i) = WSem c j) \<or>
      (\<exists>a b c j. q = FlgQ j \<and> tskwait (tcbs s i) = TTW_FLG \<and> winfo (tcbs s i) = WFlg a b c) \<or>
      (\<exists>m j. q = MbxWaitQ j \<and> tskwait (tcbs s i) = TTW_MBX \<and> winfo (tcbs s i) = WMbx m)"
proof -
  show i: "i < CFN_MAX_TSKID"
    using typed_in_ring [OF kinvD(1) [OF K] w] by (cases q) auto
  have "Q (TcbWait i) = None" by (rule rep_member_not_owner [OF R w])
  with kinvD(4) [OF K i] have "tskstat (tcbs s i) = TTS_WAI \<and> tskwait (tcbs s i) \<noteq> TTW_SLP \<and>
      tskwait (tcbs s i) \<noteq> TTW_DLY"
    by (auto simp: task_ok_def wait_ok_def split: if_splits)
  moreover have "p = q" if "in_ring Q p (TcbWait i)" for p
    by (rule rep_in_ring_unique [OF R that w])
  ultimately show "tskstat (tcbs s i) = TTS_WAI" and "(\<exists>c j. q = SemQ j \<and> tskwait (tcbs s i) = TTW_SEM \<and> winfo (tcbs s i) = WSem c j) \<or>
      (\<exists>a b c j. q = FlgQ j \<and> tskwait (tcbs s i) = TTW_FLG \<and> winfo (tcbs s i) = WFlg a b c) \<or>
      (\<exists>m j. q = MbxWaitQ j \<and> tskwait (tcbs s i) = TTW_MBX \<and> winfo (tcbs s i) = WMbx m)"
    using kinvD(4) [OF K i]
    by (auto simp: task_ok_def wait_ok_def split: if_splits tskwait.splits)
qed

lemma sem_waiter:
  "rep h Q \<Longrightarrow> kinv s Q \<Longrightarrow> in_ring Q (SemQ j) (TcbWait i) \<Longrightarrow>
    tskwait (tcbs s i) = TTW_SEM \<and> (\<exists>c. winfo (tcbs s i) = WSem c j)"
  using waiter_state(3) [of h Q s "SemQ j" i] by auto

lemma flg_waiter:
  "rep h Q \<Longrightarrow> kinv s Q \<Longrightarrow> in_ring Q (FlgQ j) (TcbWait i) \<Longrightarrow>
    tskwait (tcbs s i) = TTW_FLG \<and> (\<exists>a b c. winfo (tcbs s i) = WFlg a b c)"
  using waiter_state(3) [of h Q s "FlgQ j" i] by auto

lemma mbx_waiter:
  "rep h Q \<Longrightarrow> kinv s Q \<Longrightarrow> in_ring Q (MbxWaitQ j) (TcbWait i) \<Longrightarrow>
    tskwait (tcbs s i) = TTW_MBX \<and> (\<exists>m. winfo (tcbs s i) = WMbx m)"
  using waiter_state(3) [of h Q s "MbxWaitQ j" i] by auto

lemma waiter_links:
  assumes K: "kinv s Q" and i: "i < CFN_MAX_TSKID" and w: "tskstat (tcbs s i) = TTS_WAI"
  shows "in_ring Q TimerQ (TcbHead i) \<or> Q (TcbHead i) = Some []"
    and "\<exists>v. v \<noteq> TcbHead i \<and> (in_ring Q v (TcbWait i) \<or> Q (TcbWait i) = Some [])"
  using kinvD(4) [OF K i] w
  by (auto simp: task_ok_def head_ok_def wait_ok_def split: tskwait.splits)

text \<open>The members of a wait queue, as task indices.\<close>

lemma wait_queue_tasks:
  assumes "typed Q" and "Q q = Some ws" and "\<And>n. fits q n \<Longrightarrow> \<exists>i. n = TcbWait i"
  shows "\<exists>is. ws = map TcbWait is"
proof -
  have "\<forall>n \<in> set ws. \<exists>i. n = TcbWait i"
    using assms typed_in_ring by (auto simp: in_ring_def)
  then show ?thesis by (induction ws) (auto intro: exI [of _ "_ # _"] simp: Cons_eq_map_conv)
qed

lemma fits_wait:
  "fits (SemQ j) n \<Longrightarrow> \<exists>i. n = TcbWait i" "fits (FlgQ j) n \<Longrightarrow> \<exists>i. n = TcbWait i"
  "fits (MbxWaitQ j) n \<Longrightarrow> \<exists>i. n = TcbWait i"
  by (auto split: node.splits)

lemma queue_ok_cong:
  assumes "tcbs s' = tcbs s" "msgpri s' = msgpri s"
  shows "sematr (semcbs s' j) = sematr (semcbs s j) \<Longrightarrow> maxsem (semcbs s' j) = maxsem (semcbs s j) \<Longrightarrow>
      sem_queue_ok s' j ws = sem_queue_ok s j ws"
    and "flgatr (flgcbs s' j) = flgatr (flgcbs s j) \<Longrightarrow> flg_queue_ok s' j ws = flg_queue_ok s j ws"
    and "mbxatr (mbxcbs s' j) = mbxatr (mbxcbs s j) \<Longrightarrow> mbx_queue_ok s' Q j ws = mbx_queue_ok s Q j ws"
proof -
  have "pri_sorted s' = pri_sorted s" "wait_req s' = wait_req s"
    using assms by (auto intro!: pri_sorted_cong simp: fun_eq_iff wait_pri_cong wait_req_cong)
  then show "sematr (semcbs s' j) = sematr (semcbs s j) \<Longrightarrow>
      maxsem (semcbs s' j) = maxsem (semcbs s j) \<Longrightarrow> sem_queue_ok s' j ws = sem_queue_ok s j ws"
    and "flgatr (flgcbs s' j) = flgatr (flgcbs s j) \<Longrightarrow> flg_queue_ok s' j ws = flg_queue_ok s j ws"
    and "mbxatr (mbxcbs s' j) = mbxatr (mbxcbs s j) \<Longrightarrow> mbx_queue_ok s' Q j ws = mbx_queue_ok s Q j ws"
    by (simp_all add: sem_queue_ok_def flg_queue_ok_def mbx_queue_ok_def assms(2))
qed

text \<open>
  A change of one control block of an object leaves the rest of the invariant alone.
\<close>

lemma kinv_upd_sem:
  assumes K: "kinv s Q" and j: "j < CFN_MAX_SEMID \<Longrightarrow> sem_ok (upd_sem j f s) Q j"
  shows "kinv (upd_sem j f s) Q"
proof -
  have "sem_ok (upd_sem j f s) Q k" if "k < CFN_MAX_SEMID" for k
    using that j kinvD(5) [OF K that] queue_ok_cong(1) [of "upd_sem j f s" s k]
    by (cases "k = j") (auto simp: sem_ok_def Let_def)
  then show ?thesis
    using K by (simp add: kinv_def Let_def flg_ok_def mbx_ok_def cur_ok_def
        queue_ok_cong(2,3) [of "upd_sem j f s" s])
qed

lemma kinv_upd_flg:
  assumes K: "kinv s Q" and j: "j < CFN_MAX_FLGID \<Longrightarrow> flg_ok (upd_flg j f s) Q j"
  shows "kinv (upd_flg j f s) Q"
proof -
  have "flg_ok (upd_flg j f s) Q k" if "k < CFN_MAX_FLGID" for k
    using that j kinvD(6) [OF K that] queue_ok_cong(2) [of "upd_flg j f s" s k]
    by (cases "k = j") (auto simp: flg_ok_def Let_def)
  then show ?thesis
    using K by (simp add: kinv_def Let_def sem_ok_def mbx_ok_def cur_ok_def
        queue_ok_cong(1,3) [of "upd_flg j f s" s])
qed

lemma kinv_upd_mbx:
  assumes K: "kinv s Q" and j: "j < CFN_MAX_MBXID \<Longrightarrow> mbx_ok (upd_mbx j f s) Q j"
  shows "kinv (upd_mbx j f s) Q"
proof -
  have "mbx_ok (upd_mbx j f s) Q k" if "k < CFN_MAX_MBXID" for k
    using that j kinvD(7) [OF K that] queue_ok_cong(3) [of "upd_mbx j f s" s k]
    by (cases "k = j") (auto simp: mbx_ok_def Let_def)
  then show ?thesis
    using K by (simp add: kinv_def Let_def sem_ok_def flg_ok_def cur_ok_def
        queue_ok_cong(1,2) [of "upd_mbx j f s" s])
qed

lemma kinv_upd_semcnt:
  assumes K: "kinv s Q" and "exists_id (semid (semcbs s j)) \<Longrightarrow> 0 \<le> c \<and> c \<le> maxsem (semcbs s j)"
  shows "kinv (upd_sem j (\<lambda>cb. cb\<lparr>semcnt := c\<rparr>) s) Q"
proof (rule kinv_upd_sem [OF K])
  assume "j < CFN_MAX_SEMID"
  from kinvD(5) [OF K this] assms(2) show "sem_ok (upd_sem j (\<lambda>cb. cb\<lparr>semcnt := c\<rparr>) s) Q j"
    by (simp add: sem_ok_def Let_def queue_ok_cong(1) [of "upd_sem j (\<lambda>cb. cb\<lparr>semcnt := c\<rparr>) s" s])
qed

lemma kinv_upd_flgptn:
  assumes K: "kinv s Q"
  shows "kinv (upd_flg j (\<lambda>cb. cb\<lparr>flgptn := f cb\<rparr>) s) Q"
proof (rule kinv_upd_flg [OF K])
  assume "j < CFN_MAX_FLGID"
  from kinvD(6) [OF K this] show "flg_ok (upd_flg j (\<lambda>cb. cb\<lparr>flgptn := f cb\<rparr>) s) Q j"
    by (simp add: flg_ok_def Let_def queue_ok_cong(2) [of "upd_flg j (\<lambda>cb. cb\<lparr>flgptn := f cb\<rparr>) s" s])
qed

end
