(* ===== verification/TK_Wait.thy ===== *)
theory TK_Wait
  imports TK_Inv
begin

text \<open>
  The end of a wait: \<open>tkmc_complete_wait\<close> of \<^verbatim>\<open>kernel/task.c\<close> and
  \<open>tkmc_sem_serve_waiters\<close> of \<^verbatim>\<open>kernel/semaphore.c\<close>, which call each other. A
  semaphore waiter that leaves without its units serves the waiters behind it, and serving a
  waiter completes its wait with \<open>E_OK\<close>, which serves nobody further. The model ties the
  knot in this order, with the other function as an argument, and shows that the results satisfy
  the two mutually recursive equations of the code.
\<close>

section \<open>The two functions\<close>

text \<open>The part of \<open>tkmc_complete_wait\<close> before the test for a semaphore waiter.\<close>

definition end_wait :: "nat \<Rightarrow> ER \<Rightarrow> kernel \<Rightarrow> kernel option" where
  "end_wait i cause s = do {
     e \<leftarrow> tkmc_list_empty (TcbHead i) (links s);
     s \<leftarrow> (if \<not> e then on_links (tkmc_list_del (TcbHead i)) s else Some s);
     e \<leftarrow> tkmc_list_empty (TcbWait i) (links s);
     s \<leftarrow> (if \<not> e then do {
             s \<leftarrow> on_links (tkmc_list_del (TcbWait i)) s;
             on_links (tkmc_init_list_head (TcbWait i)) s }
           else Some s);
     let s = upd_tcb i (\<lambda>t. t\<lparr>delay_ticks := 0\<rparr>) s;
     let s = upd_tcb i (\<lambda>t. t\<lparr>tskwait := TTW_NONE\<rparr>) s;
     let s = upd_tcb i (\<lambda>t. t\<lparr>wupcause := cause\<rparr>) s;
     let s = upd_tcb i (\<lambda>t. t\<lparr>tskstat := TTS_RDY\<rparr>) s;
     q \<leftarrow> ready_queue (itskpri (tcbs s i));
     on_links (tkmc_list_add_tail (TcbHead i) q) s }"

definition complete_wait_with ::
  "(nat \<Rightarrow> kernel \<Rightarrow> kernel option) \<Rightarrow> nat \<Rightarrow> ER \<Rightarrow> kernel \<Rightarrow> kernel option" where
  "complete_wait_with serve i cause s = do {
     let tskwait0 = tskwait (tcbs s i);
     s \<leftarrow> end_wait i cause s;
     if tskwait0 = TTW_SEM \<and> (cause = E_TMOUT \<or> cause = E_RLWAI) then
       (case winfo (tcbs s i) of WSem c j \<Rightarrow> serve j s | _ \<Rightarrow> None)
     else Some s }"

partial_function (option) serve_loop ::
  "(nat \<Rightarrow> ER \<Rightarrow> kernel \<Rightarrow> kernel option) \<Rightarrow> nat \<Rightarrow> node \<Rightarrow> node \<Rightarrow> kernel \<Rightarrow> kernel option" where
  "serve_loop complete j pos n s =
     (if pos = SemQ j then Some s
      else do {
        i \<leftarrow> tcb_of_wait pos;
        req \<leftarrow> (case winfo (tcbs s i) of WSem c _ \<Rightarrow> Some c | _ \<Rightarrow> None);
        if semcnt (semcbs s j) < req then
          (if sematr (semcbs s j) AND TA_CNT = 0 then Some s
           else do { n' \<leftarrow> get_next n (links s); serve_loop complete j n n' s })
        else do {
          s \<leftarrow> complete i E_OK s;
          let s = upd_sem j (\<lambda>c. c\<lparr>semcnt := semcnt c - req\<rparr>) s;
          if semcnt (semcbs s j) \<le> 0 then Some s
          else do { n' \<leftarrow> get_next n (links s); serve_loop complete j n n' s } } })"

definition serve_waiters_with ::
  "(nat \<Rightarrow> ER \<Rightarrow> kernel \<Rightarrow> kernel option) \<Rightarrow> nat \<Rightarrow> kernel \<Rightarrow> kernel option" where
  "serve_waiters_with complete j s = do {
     pos \<leftarrow> get_next (SemQ j) (links s);
     n \<leftarrow> get_next pos (links s);
     serve_loop complete j pos n s }"

definition tkmc_sem_serve_waiters :: "nat \<Rightarrow> kernel \<Rightarrow> kernel option" where
  "tkmc_sem_serve_waiters = serve_waiters_with end_wait"

definition tkmc_complete_wait :: "nat \<Rightarrow> ER \<Rightarrow> kernel \<Rightarrow> kernel option" where
  "tkmc_complete_wait = complete_wait_with tkmc_sem_serve_waiters"

section \<open>The recursive equations of the code\<close>

lemma complete_wait_E_OK: "complete_wait_with serve i E_OK s = end_wait i E_OK s"
  by (cases "end_wait i E_OK s") (simp_all add: complete_wait_with_def Let_def)

lemma tkmc_complete_wait_rec: "tkmc_complete_wait = complete_wait_with tkmc_sem_serve_waiters"
  by (simp add: tkmc_complete_wait_def)

lemma serve_loop_mono:
  assumes eq: "\<And>i s. f i E_OK s = g i E_OK s" and ret: "serve_loop f j pos n s = Some r"
  shows "serve_loop g j pos n s = Some r"
proof -
  have "f = f \<longrightarrow> serve_loop g j pos n s = Some r"
  proof (rule serve_loop.raw_induct
      [where P = "\<lambda>c j pos n s r. c = f \<longrightarrow> serve_loop g j pos n s = Some r", OF _ ret])
    fix loop complete j pos n s r
    assume IH: "\<And>c j pos n s r. loop c j pos n s = Some r \<Longrightarrow>
        c = f \<longrightarrow> serve_loop g j pos n s = Some r"
      and eqn: "(if pos = SemQ j then Some s
      else do {
        i \<leftarrow> tcb_of_wait pos;
        req \<leftarrow> (case winfo (tcbs s i) of WSem c _ \<Rightarrow> Some c | _ \<Rightarrow> None);
        if semcnt (semcbs s j) < req then
          (if sematr (semcbs s j) AND TA_CNT = 0 then Some s
           else do { n' \<leftarrow> get_next n (links s); loop complete j n n' s })
        else do {
          s \<leftarrow> complete i E_OK s;
          let s = upd_sem j (\<lambda>c. c\<lparr>semcnt := semcnt c - req\<rparr>) s;
          if semcnt (semcbs s j) \<le> 0 then Some s
          else do { n' \<leftarrow> get_next n (links s); loop complete j n n' s } } }) = Some r"
    show "complete = f \<longrightarrow> serve_loop g j pos n s = Some r"
      using eqn IH
      by (subst serve_loop.simps)
        (auto simp: eq Let_def split: if_split_asm Option.bind_split_asm wait_info.split_asm)
  qed
  then show ?thesis by simp
qed

lemma serve_loop_cong:
  assumes "\<And>i s. f i E_OK s = g i E_OK s"
  shows "serve_loop f = serve_loop g"
proof (intro ext)
  fix j pos n s
  show "serve_loop f j pos n s = serve_loop g j pos n s"
    using serve_loop_mono [of f g j pos n s] serve_loop_mono [of g f j pos n s] assms
    by (cases "serve_loop f j pos n s"; cases "serve_loop g j pos n s") auto
qed

lemma tkmc_sem_serve_waiters_rec:
  "tkmc_sem_serve_waiters = serve_waiters_with tkmc_complete_wait"
proof -
  have "serve_loop end_wait = serve_loop tkmc_complete_wait"
    by (rule serve_loop_cong) (simp add: tkmc_complete_wait_def complete_wait_E_OK)
  then show ?thesis
    by (simp add: tkmc_sem_serve_waiters_def serve_waiters_with_def fun_eq_iff)
qed

section \<open>Ending a wait\<close>

lemma wake_rings_cases:
  assumes "Q1 = detach (TcbHead i) Q \<or> Q1 = Q \<and> Q (TcbHead i) = Some []" and "rep h Q"
  shows "push (TcbHead i) (ready_node p) ((detach (TcbWait i) Q1)(TcbWait i \<mapsto> [])) = wake_rings i p Q"
proof -
  have "Q1 = detach (TcbHead i) Q \<or> Q1 = (detach (TcbHead i) Q)(TcbHead i \<mapsto> [])"
    using assms detach_restore [OF assms(2)] by metis
  then show ?thesis
    by (auto simp: wake_rings_def detach_upd push_upd fun_upd_twist [of "TcbHead i" "TcbWait i"])
qed

lemma end_wait_ok:
  assumes R: "rep (links s) Q"
    and h: "in_ring Q q (TcbHead i) \<or> Q (TcbHead i) = Some []"
    and w: "in_ring Q v (TcbWait i) \<or> Q (TcbWait i) = Some []"
    and v: "v \<noteq> TcbHead i"
    and p: "1 \<le> itskpri (tcbs s i)" "itskpri (tcbs s i) \<le> int CFN_MAX_PRI"
    and r: "Q (ready_node (itskpri (tcbs s i))) \<noteq> None"
  shows "ok (end_wait i cause s) (\<lambda>s'. \<exists>h. rep h (wake_rings i (itskpri (tcbs s i)) Q) \<and>
    s' = (upd_tcb i (wake_tcb cause) s)\<lparr>links := h\<rparr>)"
proof -
  let ?p = "itskpri (tcbs s i)" and ?n = "TcbHead i" and ?w = "TcbWait i"
  have final: "ok (tkmc_list_add_tail ?n (ready_node ?p) h2) (\<lambda>h3. rep h3 (wake_rings i ?p Q))"
    if Q1: "Q1 = detach ?n Q \<or> Q1 = Q \<and> Q ?n = Some []" and R2: "rep h2 ((detach ?w Q1)(?w \<mapsto> []))"
    for Q1 h2
  proof -
    have "idle_node ?n Q1" using Q1 rep_owner_idle [OF R] by auto
    then have "idle_node ?n ((detach ?w Q1)(?w \<mapsto> []))"
      by (auto simp: idle_node_def loose_def ring_simps)
    moreover have "((detach ?w Q1)(?w \<mapsto> [])) (ready_node ?p) \<noteq> None"
      using Q1 r by (auto simp: ring_simps)
    ultimately have "ok (tkmc_list_add_tail ?n (ready_node ?p) h2)
        (\<lambda>h3. rep h3 (push ?n (ready_node ?p) ((detach ?w Q1)(?w \<mapsto> []))))"
      by (auto intro!: tkmc_list_add_tail_rep [OF R2] simp: mapped_def)
    then show ?thesis by (simp add: wake_rings_cases [OF Q1 R])
  qed
  have second: "in_ring Q1 v ?w \<or> Q1 ?w = Some []"
    if "Q1 = detach ?n Q \<or> Q1 = Q \<and> Q ?n = Some []" for Q1
    using that w v by (auto simp: ring_simps)
  show ?thesis
    unfolding end_wait_def ok_bind
  proof (rule ok_unlink [OF R h], goal_cases)
    case (1 h1)
    then obtain Q1 where R1: "rep (links (s\<lparr>links := h1\<rparr>)) Q1"
      and Q1: "Q1 = detach ?n Q \<or> Q1 = Q \<and> Q ?n = Some []" by auto
    show ?case
    proof (rule ok_unlink_init [OF R1 second [OF Q1]], goal_cases)
      case (1 h2)
      from 1 have "rep h2 ((detach ?w Q1)(?w \<mapsto> []))" by simp
      note add = ok_mono [OF final [OF Q1 this]]
      show ?case
        using p by (simp add: ready_queue_def wake_tcb_def [abs_def]) (rule add, blast)
    qed
  qed
qed

lemma end_wait_kinv:
  assumes R: "rep (links s) Q" and K: "kinv s Q" and i: "i < CFN_MAX_TSKID"
    and w: "tskstat (tcbs s i) = TTS_WAI"
  shows "ok (end_wait i cause s) (\<lambda>s'. \<exists>h. rep h (wake_rings i (itskpri (tcbs s i)) Q) \<and>
    s' = (upd_tcb i (wake_tcb cause) s)\<lparr>links := h\<rparr>)"
proof -
  note L = waiter_links [OF K i w]
  obtain v where v: "v \<noteq> TcbHead i" "in_ring Q v (TcbWait i) \<or> Q (TcbWait i) = Some []"
    using L(2) by blast
  have "1 \<le> itskpri (tcbs s i)" "itskpri (tcbs s i) \<le> int CFN_MAX_PRI"
    "Q (ready_node (itskpri (tcbs s i))) \<noteq> None"
    using task_pri [OF K i] kinv_ready [OF K i] w by simp_all
  then show ?thesis by (rule end_wait_ok [OF R L(1) v(2,1)])
qed

section \<open>Several waits ended one after the other\<close>

abbreviation pris :: "kernel \<Rightarrow> nat \<Rightarrow> PRI" where
  "pris s \<equiv> (\<lambda>i. itskpri (tcbs s i))"

definition wakes :: "ER \<Rightarrow> nat list \<Rightarrow> kernel \<Rightarrow> kernel" where
  "wakes cause = fold (\<lambda>i. upd_tcb i (wake_tcb cause))"

definition wake_qs :: "(nat \<Rightarrow> PRI) \<Rightarrow> nat list \<Rightarrow> rings \<Rightarrow> rings" where
  "wake_qs p = fold (\<lambda>i. wake_rings i (p i))"

lemma wakes_simps [simp]:
  "wakes cause [] s = s"
  "wakes cause (i # is) s = wakes cause is (upd_tcb i (wake_tcb cause) s)"
  by (simp_all add: wakes_def)

lemma wake_qs_simps [simp]:
  "wake_qs p [] Q = Q"
  "wake_qs p (i # is) Q = wake_qs p is (wake_rings i (p i) Q)"
  by (simp_all add: wake_qs_def)

lemma wake_qs_append: "wake_qs p (is @ js) Q = wake_qs p js (wake_qs p is Q)"
  by (simp add: wake_qs_def)

lemma wake_tcb_simps [simp]:
  "itskpri (wake_tcb c t) = itskpri t"
  "tskstat (wake_tcb c t) = TTS_RDY"
  "tskwait (wake_tcb c t) = TTW_NONE"
  "wupcause (wake_tcb c t) = c"
  "delay_ticks (wake_tcb c t) = 0"
  "winfo (wake_tcb c t) = winfo t"
  "tskid (wake_tcb c t) = tskid t"
  "wupcnt (wake_tcb c t) = wupcnt t"
  "wake_tcb c (wake_tcb d t) = wake_tcb c t"
  by (simp_all add: wake_tcb_def)

lemma pris_wake [simp]: "pris (upd_tcb i (wake_tcb c) s) = pris s"
  by auto

lemma pris_upd_sem [simp]: "pris (upd_sem j f s) = pris s"
  by simp

lemma tcbs_wakes: "tcbs (wakes c is s) k = (if k \<in> set is then wake_tcb c (tcbs s k) else tcbs s k)"
  by (induction "is" arbitrary: s) auto

lemma wakes_frame [simp]:
  "semcbs (wakes c is s) = semcbs s"
  "flgcbs (wakes c is s) = flgcbs s"
  "mbxcbs (wakes c is s) = mbxcbs s"
  "current (wakes c is s) = current s"
  "next_tsk (wakes c is s) = next_tsk s"
  "links (wakes c is s) = links s"
  "msip (wakes c is s) = msip s"
  "mstatus (wakes c is s) = mstatus s"
  "isr_depth (wakes c is s) = isr_depth s"
  by (induction "is" arbitrary: s) simp_all

lemma pris_wakes [simp]: "pris (wakes c is s) = pris s"
  by (auto simp: tcbs_wakes)

lemma upd_tcb_commute:
  "i \<noteq> k \<Longrightarrow> upd_tcb i f (upd_tcb k g s) = upd_tcb k g (upd_tcb i f s)"
  by (simp add: upd_tcb_def fun_upd_twist)

lemma upd_sem_upd_tcb: "upd_sem j f (upd_tcb i g s) = upd_tcb i g (upd_sem j f s)"
  by (simp add: upd_sem_def upd_tcb_def)

lemma wakes_upd_sem: "wakes c is (upd_sem j f s) = upd_sem j f (wakes c is s)"
  by (induction "is" arbitrary: s) (simp_all add: upd_sem_upd_tcb [symmetric])

lemma wakes_links [simp]: "wakes c is (s\<lparr>links := h\<rparr>) = (wakes c is s)\<lparr>links := h\<rparr>"
  by (induction "is" arbitrary: s) simp_all

lemma wake_rings_lookup:
  "q \<noteq> TcbHead i \<Longrightarrow> q \<noteq> TcbWait i \<Longrightarrow> \<forall>p. q \<noteq> ReadyQ p \<Longrightarrow>
    wake_rings i p Q q = map_option (filter (keep i)) (Q q)"
  by (auto simp: wake_rings_def ring_simps option.map_comp o_def keep_def [abs_def])

lemma wake_rings_wait_queue:
  assumes "Q q = Some (us @ TcbWait i # vs)" and "\<forall>p. q \<noteq> ReadyQ p" and "typed Q" and "rep h Q"
  shows "wake_rings i p Q q = Some (us @ vs)"
proof -
  note D = repD(2) [OF assms(4,1)]
  have m: "in_ring Q q n" if "n \<in> set (us @ TcbWait i # vs)" for n
    using that assms(1) by (auto simp: in_ring_def)
  have q: "keep i q" using typed_keep [OF assms(3) m [of "TcbWait i"]] by simp
  have "fits q (TcbWait i)" using typed_in_ring [OF assms(3) m] by simp
  then have "\<not> fits q (TcbHead i)" by (cases q) auto
  then have "TcbHead i \<notin> set (us @ vs)" using typed_in_ring [OF assms(3) m] by auto
  moreover have "TcbWait i \<notin> set (us @ vs)" using D by auto
  ultimately have "\<forall>n \<in> set (us @ vs). keep i n" unfolding keep_def by blast
  then have "filter (keep i) us = us" "filter (keep i) vs = vs" by (auto intro: filter_True)
  then show ?thesis using wake_rings_lookup [of q i p Q] q assms(1,2) by (simp add: keep_def)
qed

section \<open>Handing out the units of a semaphore\<close>

text \<open>
  The specification: who of the waiters gets units, in the order of the queue. With
  \<open>first\<close> (\<open>TA_FIRST\<close>) a request that is too big holds back those behind it, without
  it (\<open>TA_CNT\<close>) it is passed over. The result is the tasks served, the units left and the
  waiters left.
\<close>

fun grant :: "bool \<Rightarrow> int \<Rightarrow> (nat \<times> int) list \<Rightarrow> nat list \<times> int \<times> (nat \<times> int) list" where
  "grant first c [] = ([], c, [])"
| "grant first c ((i, r) # ws) =
     (if c < r then
        (if first then ([], c, (i, r) # ws)
         else (case grant first c ws of (g, c', ws') \<Rightarrow> (g, c', (i, r) # ws')))
      else if c - r \<le> 0 then ([i], c - r, ws)
      else (case grant first (c - r) ws of (g, c', ws') \<Rightarrow> (i # g, c', ws')))"

definition held_back :: "bool \<Rightarrow> int \<Rightarrow> int list \<Rightarrow> bool" where
  "held_back first c rs \<longleftrightarrow> (if first then rs \<noteq> [] \<longrightarrow> c < hd rs else \<forall>r \<in> set rs. c < r)"

lemma held_back_none: "\<forall>r \<in> set rs. 0 < r \<Longrightarrow> c \<le> 0 \<Longrightarrow> held_back first c rs"
  by (auto simp: held_back_def intro: le_less_trans)

lemma grant_served:
  "grant first c ws = (g, c', ws') \<Longrightarrow> \<forall>r \<in> snd ` set ws. 0 < r \<Longrightarrow> 0 \<le> c \<Longrightarrow>
    0 \<le> c' \<and> c' \<le> c \<and> held_back first c' (map snd ws')"
proof (induction first c ws arbitrary: g c' ws' rule: grant.induct)
  case (2 first c i r ws)
  obtain g1 c1 w1 g2 c2 w2 where G: "grant first c ws = (g1, c1, w1)" "grant first (c - r) ws = (g2, c2, w2)"
    by (metis prod_cases3)
  consider (hold) "c < r" first | (pass) "c < r" "\<not> first" | (last) "\<not> c < r" "c - r \<le> 0"
    | (more) "\<not> c < r" "\<not> c - r \<le> 0" by blast
  then show ?case
  proof cases
    case hold
    then show ?thesis using "2.prems" by (auto simp: held_back_def)
  next
    case pass
    then show ?thesis using "2.IH"(1) [OF pass G(1)] "2.prems" G by (auto simp: held_back_def)
  next
    case last
    then have "g = [i]" "c' = c - r" "ws' = ws" using "2.prems"(1) by simp_all
    then show ?thesis using last "2.prems" held_back_none [of "map snd ws" "c - r" first] by simp
  next
    case more
    then show ?thesis using "2.IH"(2) [OF more G(2)] "2.prems" G by auto
  qed
qed (auto simp: held_back_def)

lemma grant_conserves:
  "grant first c ws = (g, c', ws') \<Longrightarrow> distinct (map fst ws) \<Longrightarrow>
    c' + sum_list (map snd (filter (\<lambda>w. fst w \<in> set g) ws)) = c \<and> set g \<subseteq> fst ` set ws \<and> distinct g \<and>
    ws' = filter (\<lambda>w. fst w \<notin> set g) ws"
proof (induction first c ws arbitrary: g c' ws' rule: grant.induct)
  case (2 first c i r ws)
  have *: "i \<notin> fst ` set ws" using "2.prems"(2) by auto
  then have "filter (\<lambda>w. fst w \<noteq> i) ws = ws" "filter (\<lambda>w. fst w = i) ws = []"
    by (auto simp: filter_id_conv filter_empty_conv)
  moreover have "filter (\<lambda>w. fst w = i \<or> fst w \<in> G) ws = filter (\<lambda>w. fst w \<in> G) ws"
    "filter (\<lambda>w. fst w \<noteq> i \<and> fst w \<notin> G) ws = filter (\<lambda>w. fst w \<notin> G) ws" for G
    using * by (auto intro!: filter_cong)
  ultimately show ?case
    using 2 * by (auto split: if_splits prod.splits)
qed auto

section \<open>Serving the waiters of a semaphore\<close>

definition set_semcnt :: "nat \<Rightarrow> int \<Rightarrow> kernel \<Rightarrow> kernel" where
  "set_semcnt j c = upd_sem j (\<lambda>cb. cb\<lparr>semcnt := c\<rparr>)"

definition reqs :: "kernel \<Rightarrow> nat list \<Rightarrow> (nat \<times> int) list" where
  "reqs s is = map (\<lambda>i. (i, wait_req s (TcbWait i))) is"

abbreviation takes_first :: "kernel \<Rightarrow> nat \<Rightarrow> bool" where
  "takes_first s j \<equiv> sematr (semcbs s j) AND TA_CNT = 0"

lemma set_semcnt_id: "semcnt (semcbs s j) = c \<Longrightarrow> set_semcnt j c s = s"
  by (auto simp: set_semcnt_def upd_sem_def)

lemma upd_semcnt_set:
  "upd_sem j (\<lambda>cb. cb\<lparr>semcnt := semcnt cb - r\<rparr>) s = set_semcnt j (semcnt (semcbs s j) - r) s"
  by (simp add: set_semcnt_def upd_sem_def)

lemma set_semcnt_twice: "set_semcnt j c (set_semcnt j d s) = set_semcnt j c s"
  by (simp add: set_semcnt_def upd_sem_def)

lemma wakes_set_semcnt: "wakes c is (set_semcnt j d s) = set_semcnt j d (wakes c is s)"
  by (simp add: set_semcnt_def wakes_upd_sem)

lemma set_semcnt_frame [simp]:
  "tcbs (set_semcnt j c s) = tcbs s" "links (set_semcnt j c s) = links s"
  "current (set_semcnt j c s) = current s" "next_tsk (set_semcnt j c s) = next_tsk s"
  "msip (set_semcnt j c s) = msip s" "mstatus (set_semcnt j c s) = mstatus s"
  "flgcbs (set_semcnt j c s) = flgcbs s" "mbxcbs (set_semcnt j c s) = mbxcbs s"
  "isr_depth (set_semcnt j c s) = isr_depth s"
  "set_semcnt j c (s\<lparr>links := h\<rparr>) = (set_semcnt j c s)\<lparr>links := h\<rparr>"
  "sematr (semcbs (set_semcnt j c s) k) = sematr (semcbs s k)"
  "semid (semcbs (set_semcnt j c s) k) = semid (semcbs s k)"
  "maxsem (semcbs (set_semcnt j c s) k) = maxsem (semcbs s k)"
  "semcnt (semcbs (set_semcnt j c s) k) = (if k = j then c else semcnt (semcbs s k))"
  by (simp_all add: set_semcnt_def)

lemma kinv_set_semcnt:
  "kinv s Q \<Longrightarrow> 0 \<le> c \<Longrightarrow> c \<le> maxsem (semcbs s j) \<Longrightarrow> kinv (set_semcnt j c s) Q"
  by (simp add: set_semcnt_def kinv_upd_semcnt)

lemma reqs_simps [simp]:
  "reqs s [] = []" "reqs s (i # is) = (i, wait_req s (TcbWait i)) # reqs s is"
  "map fst (reqs s is) = is"
  by (simp_all add: reqs_def o_def)

lemma reqs_wake:
  "reqs ((set_semcnt j c (upd_tcb i (wake_tcb e) s))\<lparr>links := h\<rparr>) is = reqs s is"
  by (auto simp: reqs_def)

lemma sem_exists:
  assumes R: "rep h Q" and K: "kinv s Q" and w: "in_ring Q (SemQ j) n"
  shows "j < CFN_MAX_SEMID" and "exists_id (semid (semcbs s j))"
proof -
  show j: "j < CFN_MAX_SEMID"
    using typed_in_ring [OF kinvD(1) [OF K] w] by (auto split: node.splits)
  have "\<not> in_ring Q FreeSem (SemQ j)"
    using w rep_member_not_owner [OF R, of FreeSem "SemQ j"] by (auto simp: in_ring_def)
  then show "exists_id (semid (semcbs s j))"
    using kinvD(5) [OF K j] by (auto simp: sem_ok_def Let_def split: if_splits)
qed

lemma sem_okD:
  assumes K: "kinv s Q" and j: "j < CFN_MAX_SEMID" and e: "exists_id (semid (semcbs s j))"
  shows "1 \<le> maxsem (semcbs s j)" "maxsem (semcbs s j) \<le> TK_SEMAPHORE_MAXCNT"
    "0 \<le> semcnt (semcbs s j)" "semcnt (semcbs s j) \<le> maxsem (semcbs s j)"
    "\<exists>ws. Q (SemQ j) = Some ws \<and> sem_queue_ok s j ws"
  using kinvD(5) [OF K j] e by (auto simp: sem_ok_def Let_def)

lemma serve_step:
  assumes R: "rep (links s) Q" and K: "kinv s Q" and q: "Q (SemQ j) = Some (us @ map TcbWait (i # is))"
    and c: "wait_req s (TcbWait i) \<le> semcnt (semcbs s j)"
  defines "c' \<equiv> semcnt (semcbs s j) - wait_req s (TcbWait i)"
  shows "ok (end_wait i E_OK s) (\<lambda>s'. \<exists>h. let s1 = set_semcnt j c' (upd_tcb i (wake_tcb E_OK) s);
      Q1 = wake_rings i (pris s i) Q in
      upd_sem j (\<lambda>cb. cb\<lparr>semcnt := semcnt cb - wait_req s (TcbWait i)\<rparr>) s' = s1\<lparr>links := h\<rparr> \<and>
      rep h Q1 \<and> kinv s1 Q1 \<and> Q1 (SemQ j) = Some (us @ map TcbWait is))"
proof -
  have w: "in_ring Q (SemQ j) (TcbWait i)" using q by (auto simp: in_ring_def)
  note W = waiter_state [OF R K w] and E = sem_exists [OF R K w]
  have r: "0 < wait_req s (TcbWait i)"
    using sem_okD(5) [OF K E] q by (auto simp: sem_queue_ok_def)
  have "kinv (set_semcnt j c' (upd_tcb i (wake_tcb E_OK) s)) (wake_rings i (pris s i) Q)"
    using kinv_wake [OF K W(1,2)] sem_okD [OF K E] c r unfolding c'_def
    by (intro kinv_set_semcnt) auto
  moreover have "wake_rings i (pris s i) Q (SemQ j) = Some (us @ map TcbWait is)"
    using q kinvD(1) [OF K] R by (intro wake_rings_wait_queue) auto
  ultimately show ?thesis
    by (intro ok_mono [OF end_wait_kinv [OF R K W(1,2)]])
      (auto simp: Let_def c'_def upd_semcnt_set)
qed

definition handed_out :: "kernel \<Rightarrow> rings \<Rightarrow> nat \<Rightarrow> nat list \<Rightarrow> int \<Rightarrow> kernel \<Rightarrow> bool" where
  "handed_out s Q j g c s' \<longleftrightarrow> (\<exists>h. s' = (set_semcnt j c (wakes E_OK g s))\<lparr>links := h\<rparr> \<and>
     rep h (wake_qs (pris s) g Q) \<and> kinv s' (wake_qs (pris s) g Q))"

lemma handed_out_none:
  "rep (links s) Q \<Longrightarrow> kinv s Q \<Longrightarrow> handed_out s Q j [] (semcnt (semcbs s j)) s"
  by (auto simp: handed_out_def set_semcnt_id intro: exI [of _ "links s"])

lemma handed_out_more:
  assumes "handed_out ((set_semcnt j d (upd_tcb i (wake_tcb E_OK) s))\<lparr>links := h\<rparr>)
    (wake_rings i (pris s i) Q) j g c s'"
  shows "handed_out s Q j (i # g) c s'"
proof -
  have "pris ((set_semcnt j d (upd_tcb i (wake_tcb E_OK) s))\<lparr>links := h\<rparr>) = pris s" by auto
  with assms show ?thesis
    unfolding handed_out_def by (simp add: wakes_set_semcnt set_semcnt_twice)
qed

text \<open>One turn of the loop, with the node it looks at and the one that was fetched ahead.\<close>

lemma serve_loop_turn:
  assumes "winfo (tcbs s i) = WSem r j'"
    and "takes_first s j \<Longrightarrow> semcnt (semcbs s j) < r \<Longrightarrow> P s"
    and "\<not> takes_first s j \<Longrightarrow> semcnt (semcbs s j) < r \<Longrightarrow>
      ok (get_next n (links s)) (\<lambda>n'. ok (serve_loop f j n n' s) P)"
    and "r \<le> semcnt (semcbs s j) \<Longrightarrow> ok (f i E_OK s) (\<lambda>s'.
      let s1 = upd_sem j (\<lambda>cb. cb\<lparr>semcnt := semcnt cb - r\<rparr>) s' in
      if semcnt (semcbs s1 j) \<le> 0 then P s1
      else ok (get_next n (links s1)) (\<lambda>n'. ok (serve_loop f j n n' s1) P))"
  shows "ok (serve_loop f j (TcbWait i) n s) P"
  using assms by (subst serve_loop.simps) (auto simp: Let_def elim!: ok_mono)

lemma get_next_ahead:
  assumes "rep h Q" and "Q q = Some (us @ map TcbWait is)" and "n = hd (map TcbWait is @ [q])"
  shows "ok (get_next n h) (\<lambda>n'. is \<noteq> [] \<longrightarrow> n' = hd (map TcbWait (tl is) @ [q]))"
  using assms get_next_head [OF assms(1,2)] get_next_member [of h Q q us] by (cases "is") auto

lemma serve_loop_ok:
  assumes "rep (links s) Q" and "kinv s Q" and "Q (SemQ j) = Some (us @ map TcbWait is)"
    and "is \<noteq> [] \<longrightarrow> n = hd (map TcbWait (tl is) @ [SemQ j])"
    and "grant (takes_first s j) (semcnt (semcbs s j)) (reqs s is) = (g, c, ws)"
  shows "ok (serve_loop end_wait j (hd (map TcbWait is @ [SemQ j])) n s) (handed_out s Q j g c)"
  using assms
proof (induction "is" arbitrary: s Q us n g c ws)
  case Nil
  then show ?case by (subst serve_loop.simps) (auto intro: handed_out_none)
next
  case (Cons i "is")
  note R = Cons.prems(1) and K = Cons.prems(2) and q = Cons.prems(3) and G = Cons.prems(5)
  have w: "in_ring Q (SemQ j) (TcbWait i)" using q by (auto simp: in_ring_def)
  obtain r j' where r: "winfo (tcbs s i) = WSem r j'" "wait_req s (TcbWait i) = r"
    using sem_waiter [OF R K w] by auto
  have n: "n = hd (map TcbWait is @ [SemQ j])" using Cons.prems(4) by simp
  have "ok (serve_loop end_wait j (TcbWait i) n s) (handed_out s Q j g c)"
  proof (rule serve_loop_turn [OF r(1)], goal_cases)
    case 1
    with G r show ?case using handed_out_none [OF R K, of j] by simp
  next
    case 2
    have q': "Q (SemQ j) = Some ((us @ [TcbWait i]) @ map TcbWait is)" using q by simp
    obtain ws' where "grant (takes_first s j) (semcnt (semcbs s j)) (reqs s is) = (g, c, ws')"
      using G 2 r by (auto split: prod.splits)
    note IH = Cons.IH [OF R K q' _ this]
    show ?case by (rule ok_mono [OF get_next_ahead [OF R q' n]]) (unfold n, rule IH)
  next
    case 3
    have "wait_req s (TcbWait i) \<le> semcnt (semcbs s j)" using 3 r by simp
    note step = serve_step [OF R K q this, unfolded r(2) Let_def]
    show ?case
    proof (rule ok_mono [OF step], elim exE conjE, goal_cases)
      case (1 s' h)
      let ?s = "(set_semcnt j (semcnt (semcbs s j) - r) (upd_tcb i (wake_tcb E_OK) s))\<lparr>links := h\<rparr>"
      note s' = 1(1) and R1 = 1(2) and K1 = 1(3) and q1 = 1(4)
      have K2: "kinv ?s (wake_rings i (pris s i) Q)" using K1 by simp
      show ?case
      proof (cases "semcnt (semcbs s j) - r \<le> 0")
        case True
        then have "g = [i]" "c = semcnt (semcbs s j) - r" using G 3 r by auto
        then show ?thesis using True R1 K1 by (auto simp: s' handed_out_def)
      next
        case False
        obtain g' where g: "g = i # g'"
            "grant (takes_first s j) (semcnt (semcbs s j) - r) (reqs s is) = (g', c, ws)"
          using G 3 False r by (auto split: prod.splits)
        have "grant (takes_first ?s j) (semcnt (semcbs ?s j)) (reqs ?s is) = (g', c, ws)"
          using g(2) by (simp add: reqs_wake)
        note IH = Cons.IH [of ?s, OF _ K2 q1 _ this]
        have "ok (get_next n h) (\<lambda>n'. ok (serve_loop end_wait j n n' ?s) (handed_out s Q j g c))"
          using R1 by (intro ok_mono [OF get_next_ahead [OF R1 q1 n]])
            (unfold n g, rule ok_mono [OF IH handed_out_more], simp_all)
        then show ?thesis using False by (simp add: s')
      qed
    qed
  qed
  then show ?case by simp
qed

lemma tkmc_sem_serve_waiters_ok:
  assumes R: "rep (links s) Q" and K: "kinv s Q" and q: "Q (SemQ j) = Some (map TcbWait is)"
    and G: "grant (takes_first s j) (semcnt (semcbs s j)) (reqs s is) = (g, c, ws)"
  shows "ok (tkmc_sem_serve_waiters j s) (handed_out s Q j g c)"
proof -
  have q': "Q (SemQ j) = Some ([] @ map TcbWait is)" using q by simp
  have "ok (get_next (hd (map TcbWait is @ [SemQ j])) (links s))
      (\<lambda>n. is \<noteq> [] \<longrightarrow> n = hd (map TcbWait (tl is) @ [SemQ j]))"
    by (rule get_next_ahead [OF R q' refl])
  then show ?thesis
    unfolding tkmc_sem_serve_waiters_def serve_waiters_with_def
    using get_next_head [OF R q] serve_loop_ok [OF R K q' _ G]
    by (auto elim!: ok_mono)
qed

section \<open>What any end of a wait leaves behind\<close>

text \<open>
  The part that the callers need: waiting tasks became ready, each with some cause, and left
  their queues; nothing else changed but unit counts.
\<close>

definition plain :: "node \<Rightarrow> bool" where
  "plain q \<longleftrightarrow> (\<forall>p. q \<noteq> ReadyQ p) \<and> (\<forall>i. keep i q)"

definition same_rest :: "kernel \<Rightarrow> kernel \<Rightarrow> bool" where
  "same_rest s s' \<longleftrightarrow> s'\<lparr>links := links s, tcbs := tcbs s, semcbs := semcbs s\<rparr> = s"

definition woken :: "kernel \<Rightarrow> rings \<Rightarrow> kernel \<Rightarrow> rings \<Rightarrow> bool" where
  "woken s Q s' Q' \<longleftrightarrow> rep (links s') Q' \<and> kinv s' Q' \<and>
     same_rest s s' \<and>
     (\<forall>k. tcbs s' k = tcbs s k \<or>
        (tskstat (tcbs s k) = TTS_WAI \<and> (\<exists>c. tcbs s' k = wake_tcb c (tcbs s k)))) \<and>
     (\<forall>q. plain q \<longrightarrow> (\<exists>P. Q' q = map_option (filter P) (Q q)))"

lemma plain_simps [simp]:
  "plain TimerQ" "plain (SemQ j)" "plain (FlgQ j)" "plain (MbxWaitQ j)" "plain (MbxMsgQ j)"
  "plain FreeTcb" "plain FreeSem" "plain FreeFlg" "plain FreeMbx"
  by (simp_all add: plain_def)

lemma wake_qs_lookup:
  "plain q \<Longrightarrow> wake_qs p g Q q = map_option (filter (\<lambda>n. \<forall>i \<in> set g. keep i n)) (Q q)"
proof (induction g arbitrary: Q)
  case Nil
  then show ?case by (simp add: option.map_ident_strong)
next
  case (Cons i g)
  then have "q \<noteq> TcbHead i" "q \<noteq> TcbWait i" by (auto simp: plain_def keep_def)
  with Cons show ?case
    by (simp add: wake_rings_lookup plain_def option.map_comp o_def conj_commute)
qed

lemma same_rest_refl [simp]: "same_rest s s"
  by (simp add: same_rest_def)

lemma same_rest_trans: "same_rest s s1 \<Longrightarrow> same_rest s1 s2 \<Longrightarrow> same_rest s s2"
proof -
  assume a: "same_rest s s1" and b: "same_rest s1 s2"
  have "s = (s2\<lparr>links := links s1, tcbs := tcbs s1, semcbs := semcbs s1\<rparr>)
      \<lparr>links := links s, tcbs := tcbs s, semcbs := semcbs s\<rparr>"
    using a b by (simp add: same_rest_def)
  then show ?thesis by (simp add: same_rest_def)
qed

lemma same_rest_upd [simp]:
  "same_rest s (s'\<lparr>links := h\<rparr>) = same_rest s s'"
  "same_rest s (upd_tcb i f s') = same_rest s s'"
  "same_rest s (set_semcnt j c s') = same_rest s s'"
  by (simp_all add: same_rest_def upd_tcb_def set_semcnt_def upd_sem_def)

lemma same_rest_wakes [simp]: "same_rest s (wakes c is s') = same_rest s s'"
  by (induction "is" arbitrary: s') simp_all

lemma same_restD:
  assumes "same_rest s s'"
  shows "current s' = current s" "next_tsk s' = next_tsk s" "flgcbs s' = flgcbs s"
    "mbxcbs s' = mbxcbs s" "msip s' = msip s" "mstatus s' = mstatus s" "isr_depth s' = isr_depth s"
    "clk s' = clk s" "mtime s' = mtime s" "s_mtimecmp s' = s_mtimecmp s" "msgpri s' = msgpri s"
    "stack_mem s' = stack_mem s" "mtimecmp_reg s' = mtimecmp_reg s" "ext_entry s' = ext_entry s"
  using arg_cong [OF assms [unfolded same_rest_def], of current]
    arg_cong [OF assms [unfolded same_rest_def], of next_tsk]
    arg_cong [OF assms [unfolded same_rest_def], of flgcbs]
    arg_cong [OF assms [unfolded same_rest_def], of mbxcbs]
    arg_cong [OF assms [unfolded same_rest_def], of msip]
    arg_cong [OF assms [unfolded same_rest_def], of mstatus]
    arg_cong [OF assms [unfolded same_rest_def], of isr_depth]
    arg_cong [OF assms [unfolded same_rest_def], of clk]
    arg_cong [OF assms [unfolded same_rest_def], of mtime]
    arg_cong [OF assms [unfolded same_rest_def], of s_mtimecmp]
    arg_cong [OF assms [unfolded same_rest_def], of msgpri]
    arg_cong [OF assms [unfolded same_rest_def], of stack_mem]
    arg_cong [OF assms [unfolded same_rest_def], of mtimecmp_reg]
    arg_cong [OF assms [unfolded same_rest_def], of ext_entry]
  by simp_all

lemma woken_refl: "rep (links s) Q \<Longrightarrow> kinv s Q \<Longrightarrow> woken s Q s Q"
  unfolding woken_def by (auto intro!: exI [of _ "\<lambda>_. True"] simp: option.map_ident_strong)

lemma woken_trans:
  assumes "woken s Q s1 Q1" and "woken s1 Q1 s2 Q2"
  shows "woken s Q s2 Q2"
proof -
  have "tcbs s2 k = tcbs s k \<or> (tskstat (tcbs s k) = TTS_WAI \<and> (\<exists>c. tcbs s2 k = wake_tcb c (tcbs s k)))" for k
  proof -
    from assms have "tcbs s1 k = tcbs s k \<or>
        (tskstat (tcbs s k) = TTS_WAI \<and> (\<exists>c. tcbs s1 k = wake_tcb c (tcbs s k)))"
      and "tcbs s2 k = tcbs s1 k \<or>
        (tskstat (tcbs s1 k) = TTS_WAI \<and> (\<exists>c. tcbs s2 k = wake_tcb c (tcbs s1 k)))"
      by (simp_all add: woken_def)
    then show ?thesis by auto
  qed
  moreover have "\<exists>P. Q2 q = map_option (filter P) (Q q)" if q: "plain q" for q
  proof -
    from assms q obtain P R where "Q1 q = map_option (filter P) (Q q)" "Q2 q = map_option (filter R) (Q1 q)"
      unfolding woken_def by blast
    then have "Q2 q = map_option (filter (\<lambda>x. P x \<and> R x)) (Q q)"
      by (simp add: option.map_comp o_def conj_commute)
    then show ?thesis by blast
  qed
  moreover have "same_rest s s2" using assms same_rest_trans by (auto simp: woken_def)
  ultimately show ?thesis using assms(2) unfolding woken_def by blast
qed


lemma woken_wake:
  assumes "rep h (wake_rings i (itskpri (tcbs s i)) Q)" and "kinv s Q" and "i < CFN_MAX_TSKID"
    and "tskstat (tcbs s i) = TTS_WAI"
  shows "woken s Q ((upd_tcb i (wake_tcb c) s)\<lparr>links := h\<rparr>) (wake_rings i (itskpri (tcbs s i)) Q)"
  using assms kinv_wake [OF assms(2-4), of c] wake_rings_lookup [of _ i _ Q]
  unfolding woken_def by (auto simp: plain_def keep_def)

lemma woken_handed_out:
  assumes "handed_out s Q j g c s'" and "\<And>k. k \<in> set g \<Longrightarrow> tskstat (tcbs s k) = TTS_WAI"
  shows "woken s Q s' (wake_qs (pris s) g Q)"
proof -
  obtain h where h: "s' = (set_semcnt j c (wakes E_OK g s))\<lparr>links := h\<rparr>"
      "rep h (wake_qs (pris s) g Q)" "kinv s' (wake_qs (pris s) g Q)"
    using assms(1) by (auto simp: handed_out_def)
  moreover have "\<exists>P. wake_qs (pris s) g Q q = map_option (filter P) (Q q)" if "plain q" for q
    using wake_qs_lookup [OF that] by blast
  moreover have "tcbs s' k = tcbs s k \<or>
      (tskstat (tcbs s k) = TTS_WAI \<and> (\<exists>c. tcbs s' k = wake_tcb c (tcbs s k)))" for k
    using assms(2) by (auto simp: h(1) tcbs_wakes)
  ultimately show ?thesis unfolding woken_def by auto
qed

section \<open>No waiter that could go on is left waiting\<close>

definition sem_served :: "kernel \<Rightarrow> rings \<Rightarrow> bool" where
  "sem_served s Q \<longleftrightarrow> (\<forall>j ws. Q (SemQ j) = Some ws \<longrightarrow>
     held_back (takes_first s j) (semcnt (semcbs s j)) (map (wait_req s) ws))"

definition flg_served :: "kernel \<Rightarrow> rings \<Rightarrow> bool" where
  "flg_served s Q \<longleftrightarrow> (\<forall>j i. in_ring Q (FlgQ j) (TcbWait i) \<longrightarrow>
     \<not> check_ptn (flgptn (flgcbs s j)) (waiptn (winfo (tcbs s i))) (wfmode (winfo (tcbs s i))))"

lemma flg_served_woken:
  assumes "woken s Q s' Q'" and "flg_served s Q"
  shows "flg_served s' Q'"
proof -
  have "in_ring Q (FlgQ j) n" if "in_ring Q' (FlgQ j) n" for j n
  proof -
    obtain P where "Q' (FlgQ j) = map_option (filter P) (Q (FlgQ j))"
      using assms(1) unfolding woken_def by (meson plain_simps(3))
    with that show ?thesis by (auto simp: in_ring_def)
  qed
  moreover have "winfo (tcbs s' i) = winfo (tcbs s i)" for i
    using assms(1) unfolding woken_def by (metis wake_tcb_simps(6))
  moreover have "flgcbs s' = flgcbs s" using assms(1) by (simp add: woken_def same_restD)
  ultimately show ?thesis using assms(2) by (simp add: flg_served_def)
qed

lemma sem_served_wake:
  assumes R: "rep (links s) Q" and K: "kinv s Q" and w: "tskwait (tcbs s i) \<noteq> TTW_SEM"
    and S: "sem_served s Q"
  shows "sem_served ((upd_tcb i (wake_tcb c) s)\<lparr>links := h\<rparr>) (wake_rings i p Q)"
proof -
  have "wake_rings i p Q (SemQ j) = Q (SemQ j)" for j
  proof (cases "Q (SemQ j)")
    case (Some ws)
    have "keep i n" if "n \<in> set ws" for n
      using that Some w sem_waiter [OF R K, of j i] typed_in_ring [OF kinvD(1) [OF K], of "SemQ j" n]
      by (auto simp: keep_def in_ring_def)
    then have "filter (keep i) ws = ws" by simp
    then show ?thesis using Some by (simp add: wake_rings_lookup)
  qed (simp add: wake_rings_lookup)
  moreover have "wait_req ((upd_tcb i (wake_tcb c) s)\<lparr>links := h\<rparr>) = wait_req s"
  proof
    show "wait_req ((upd_tcb i (wake_tcb c) s)\<lparr>links := h\<rparr>) n = wait_req s n" for n
      by (cases n) auto
  qed
  ultimately show ?thesis using S by (simp add: sem_served_def)
qed

lemma wait_req_handed_out: "handed_out s Q j g c s' \<Longrightarrow> wait_req s' n = wait_req s n"
  by (cases n) (auto simp: handed_out_def tcbs_wakes)

lemma grant_waiting:
  assumes R: "rep (links s) Q" and K: "kinv s Q" and q: "Q (SemQ j) = Some (map TcbWait is)"
    and G: "grant (takes_first s j) c (reqs s is) = (g, c', ws)"
  shows "set g \<subseteq> set is" and "\<And>k. k \<in> set g \<Longrightarrow> k < CFN_MAX_TSKID \<and> tskstat (tcbs s k) = TTS_WAI"
    and "ws = reqs s (filter (\<lambda>i. i \<notin> set g) is)"
proof -
  have "distinct is" using repD(2) [OF R q] by (simp add: distinct_map)
  then have D: "distinct (map fst (reqs s is))" by simp
  have "fst ` set (reqs s is) = set is" by (metis reqs_simps(3) set_map)
  with grant_conserves [OF G D] show g: "set g \<subseteq> set is" by simp
  show "ws = reqs s (filter (\<lambda>i. i \<notin> set g) is)"
    using grant_conserves [OF G D] by (simp add: reqs_def filter_map o_def)
  show "k < CFN_MAX_TSKID \<and> tskstat (tcbs s k) = TTS_WAI" if "k \<in> set g" for k
    using that g q waiter_state(1,2) [OF R K, of "SemQ j" k] by (auto simp: in_ring_def)
qed

lemma sem_served_handed_out:
  assumes R: "rep (links s) Q" and K: "kinv s Q" and q: "Q (SemQ j) = Some (map TcbWait is)"
    and G: "grant (takes_first s j) (semcnt (semcbs s j)) (reqs s is) = (g, c, ws)"
    and H: "handed_out s Q j g c s'"
    and others: "\<And>k ks. k \<noteq> j \<Longrightarrow> Q (SemQ k) = Some ks \<Longrightarrow>
      held_back (takes_first s k) (semcnt (semcbs s k)) (map (wait_req s) ks)"
    and e: "j < CFN_MAX_SEMID" "exists_id (semid (semcbs s j))"
  shows "sem_served s' (wake_qs (pris s) g Q)"
  unfolding sem_served_def
proof (intro allI impI)
  fix k ks
  note gw = grant_waiting [OF R K q G]
  have sem: "semcnt (semcbs s' k) = (if k = j then c else semcnt (semcbs s k))"
    "sematr (semcbs s' k) = sematr (semcbs s k)" using H by (auto simp: handed_out_def)
  have req: "wait_req s' = wait_req s" using wait_req_handed_out [OF H] by auto
  assume ks: "wake_qs (pris s) g Q (SemQ k) = Some ks"
  then obtain os where os: "Q (SemQ k) = Some os" "ks = filter (\<lambda>n. \<forall>i \<in> set g. keep i n) os"
    by (auto simp: wake_qs_lookup)
  show "held_back (takes_first s' k) (semcnt (semcbs s' k)) (map (wait_req s') ks)"
  proof (cases "k = j")
    case True
    moreover have "(\<forall>i \<in> set g. x \<noteq> i) = (x \<notin> set g)" for x by auto
    moreover have "os = map TcbWait is" using os q \<open>k = j\<close> by simp
    ultimately have "ks = map TcbWait (filter (\<lambda>i. i \<notin> set g) is)"
      by (simp add: os(2) filter_map o_def)
    then have "map (wait_req s') ks = map snd ws"
      by (simp add: req gw(3) reqs_def del: wait_req.simps)
    moreover have "\<forall>r \<in> snd ` set (reqs s is). 0 < r" "0 \<le> semcnt (semcbs s j)"
      using sem_okD(3,5) [OF K e] q by (auto simp: sem_queue_ok_def reqs_def)
    ultimately show ?thesis using grant_served [OF G] sem True by simp
  next
    case False
    have "\<not> in_ring Q (SemQ k) (TcbWait i)" if "i \<in> set g" for i
      using that gw(1) q False rep_in_ring_unique [OF R, of "SemQ j" "TcbWait i" "SemQ k"]
      by (auto simp: in_ring_def)
    moreover have "\<not> in_ring Q (SemQ k) (TcbHead i)" for i
      using typed_in_ring [OF kinvD(1) [OF K], of "SemQ k" "TcbHead i"] by auto
    ultimately have "\<forall>n \<in> set os. \<forall>i \<in> set g. keep i n" using os(1) by (auto simp: keep_def in_ring_def)
    then have "ks = os" unfolding os(2) by (rule filter_True)
    then show ?thesis using others [OF False os(1)] False sem req by simp
  qed
qed

section \<open>Completing a wait\<close>

text \<open>
  A semaphore waiter that leaves without its units: those behind it are served. Every other
  wait ends alone.
\<close>

definition hands_on :: "kernel \<Rightarrow> nat \<Rightarrow> ER \<Rightarrow> bool" where
  "hands_on s i cause \<longleftrightarrow> tskwait (tcbs s i) = TTW_SEM \<and> (cause = E_TMOUT \<or> cause = E_RLWAI)"

lemma complete_wait_alone:
  assumes R: "rep (links s) Q" and K: "kinv s Q" and i: "i < CFN_MAX_TSKID"
    and w: "tskstat (tcbs s i) = TTS_WAI" and c: "\<not> hands_on s i cause"
  shows "ok (tkmc_complete_wait i cause s) (\<lambda>s'. \<exists>h. rep h (wake_rings i (itskpri (tcbs s i)) Q) \<and>
    s' = (upd_tcb i (wake_tcb cause) s)\<lparr>links := h\<rparr>)"
proof -
  have "tkmc_complete_wait i cause s = end_wait i cause s"
    using c by (cases "end_wait i cause s")
      (auto simp: tkmc_complete_wait_def complete_wait_with_def hands_on_def)
  then show ?thesis using end_wait_kinv [OF R K i w, of cause] by simp
qed

lemma queue_tasks:
  assumes "kinv s Q"
  shows "Q (SemQ j) = Some ws \<Longrightarrow> \<exists>is. ws = map TcbWait is"
    and "Q (FlgQ j) = Some ws \<Longrightarrow> \<exists>is. ws = map TcbWait is"
    and "Q (MbxWaitQ j) = Some ws \<Longrightarrow> \<exists>is. ws = map TcbWait is"
  using wait_queue_tasks [OF kinvD(1) [OF assms]] fits_wait by metis+

lemma complete_wait_hands_on:
  assumes R: "rep (links s) Q" and K: "kinv s Q" and i: "i < CFN_MAX_TSKID"
    and w: "tskstat (tcbs s i) = TTS_WAI" and c: "hands_on s i cause"
  shows "\<exists>j is us vs r. winfo (tcbs s i) = WSem r j \<and> j < CFN_MAX_SEMID \<and> exists_id (semid (semcbs s j)) \<and>
    Q (SemQ j) = Some (map TcbWait (us @ i # vs)) \<and> is = us @ vs \<and>
    (\<forall>g c ws. grant (takes_first s j) (semcnt (semcbs s j)) (reqs s is) = (g, c, ws) \<longrightarrow>
      ok (tkmc_complete_wait i cause s) (\<lambda>s'. \<exists>h. rep h (wake_rings i (pris s i) Q) \<and>
        handed_out ((upd_tcb i (wake_tcb cause) s)\<lparr>links := h\<rparr>) (wake_rings i (pris s i) Q) j g c s'))"
proof -
  obtain r j where j: "winfo (tcbs s i) = WSem r j" "in_ring Q (SemQ j) (TcbWait i)"
    using kinvD(4) [OF K i] w c by (auto simp: task_ok_def wait_ok_def hands_on_def)
  note E = sem_exists [OF R K j(2)]
  obtain ks where "Q (SemQ j) = Some (map TcbWait ks)"
    using queue_tasks(1) [OF K] j(2) by (auto simp: in_ring_def)
  moreover from this j(2) have "i \<in> set ks" by (auto simp: in_ring_def)
  then obtain us vs where "ks = us @ i # vs" by (meson split_list)
  ultimately have q: "Q (SemQ j) = Some (map TcbWait us @ TcbWait i # map TcbWait vs)" by simp
  then have q1: "wake_rings i (pris s i) Q (SemQ j) = Some (map TcbWait (us @ vs))"
    using wake_rings_wait_queue [OF q _ kinvD(1) [OF K] R] by simp
  have "ok (tkmc_complete_wait i cause s) (\<lambda>s'. \<exists>h. rep h (wake_rings i (pris s i) Q) \<and>
        handed_out ((upd_tcb i (wake_tcb cause) s)\<lparr>links := h\<rparr>) (wake_rings i (pris s i) Q) j g d s')"
    if G: "grant (takes_first s j) (semcnt (semcbs s j)) (reqs s (us @ vs)) = (g, d, ws)" for g d ws
  proof -
    have serve: "ok (tkmc_sem_serve_waiters j ((upd_tcb i (wake_tcb cause) s)\<lparr>links := h\<rparr>))
        (handed_out ((upd_tcb i (wake_tcb cause) s)\<lparr>links := h\<rparr>) (wake_rings i (pris s i) Q) j g d)"
      if h: "rep h (wake_rings i (pris s i) Q)" for h
    proof -
      have "reqs ((upd_tcb i (wake_tcb cause) s)\<lparr>links := h\<rparr>) (us @ vs) = reqs s (us @ vs)"
        by (auto simp: reqs_def)
      with G h kinv_wake [OF K i w] show ?thesis
        by (intro tkmc_sem_serve_waiters_ok [of _ _ j "us @ vs"]) (auto simp: q1)
    qed
    have "tkmc_complete_wait i cause s = do { s \<leftarrow> end_wait i cause s;
        (case winfo (tcbs s i) of WSem c j \<Rightarrow> tkmc_sem_serve_waiters j s | _ \<Rightarrow> None) }"
      using c by (auto simp: tkmc_complete_wait_def complete_wait_with_def hands_on_def)
    moreover have "ok \<dots> (\<lambda>s'. \<exists>h. rep h (wake_rings i (pris s i) Q) \<and>
        handed_out ((upd_tcb i (wake_tcb cause) s)\<lparr>links := h\<rparr>) (wake_rings i (pris s i) Q) j g d s')"
      unfolding ok_bind
    proof (rule ok_mono [OF end_wait_kinv [OF R K i w, of cause]], elim exE conjE, goal_cases)
      case (1 s1 h)
      then show ?case using serve [OF 1(1)] j(1) by (auto elim!: ok_mono)
    qed
    ultimately show ?thesis by simp
  qed
  with j(1) E q show ?thesis by fastforce
qed

text \<open>
  The contract of \<open>tkmc_complete_wait\<close> that its callers use.
\<close>

lemma sem_queue_other:
  assumes R: "rep h Q" and K: "kinv s Q" and w: "in_ring Q (SemQ j) (TcbWait i)" and k: "k \<noteq> j"
  shows "wake_rings i p Q (SemQ k) = Q (SemQ k)"
proof (cases "Q (SemQ k)")
  case (Some ws)
  have "keep i n" if "n \<in> set ws" for n
    using that Some k w rep_in_ring_unique [OF R w, of "SemQ k"]
      typed_in_ring [OF kinvD(1) [OF K], of "SemQ k" n]
    by (auto simp: keep_def in_ring_def)
  then have "filter (keep i) ws = ws" by simp
  then show ?thesis using Some by (simp add: wake_rings_lookup)
qed (simp add: wake_rings_lookup)

definition completed :: "kernel \<Rightarrow> rings \<Rightarrow> nat \<Rightarrow> ER \<Rightarrow> kernel \<Rightarrow> rings \<Rightarrow> bool" where
  "completed s Q i cause s' Q' \<longleftrightarrow> woken s Q s' Q' \<and> tcbs s' i = wake_tcb cause (tcbs s i) \<and>
     (\<not> hands_on s i cause \<longrightarrow> Q' = wake_rings i (pris s i) Q \<and>
        s' = (upd_tcb i (wake_tcb cause) s)\<lparr>links := links s'\<rparr>) \<and>
     (\<forall>k. k \<noteq> i \<longrightarrow> tcbs s' k = tcbs s k \<or> (tskstat (tcbs s k) = TTS_WAI \<and>
        tskwait (tcbs s k) = TTW_SEM \<and> tcbs s' k = wake_tcb E_OK (tcbs s k))) \<and>
     (\<forall>k. in_ring Q TimerQ (TcbHead k) \<and> tskstat (tcbs s' k) = TTS_WAI \<longrightarrow> in_ring Q' TimerQ (TcbHead k)) \<and>
     (sem_served s Q \<and> (tskwait (tcbs s i) = TTW_SEM \<longrightarrow> hands_on s i cause) \<longrightarrow> sem_served s' Q')"

lemma completed_alone:
  assumes "completed s Q i cause s' Q'" and "\<not> hands_on s i cause"
  shows "Q' = wake_rings i (pris s i) Q" and "semcbs s' = semcbs s"
    and "tcbs s' = (tcbs s)(i := wake_tcb cause (tcbs s i))"
proof -
  have e: "s' = (upd_tcb i (wake_tcb cause) s)\<lparr>links := links s'\<rparr>" and "Q' = wake_rings i (pris s i) Q"
    using assms by (simp_all add: completed_def)
  then show "Q' = wake_rings i (pris s i) Q" by simp
  show "semcbs s' = semcbs s" using arg_cong [OF e, of semcbs] by simp
  show "tcbs s' = (tcbs s)(i := wake_tcb cause (tcbs s i))" using arg_cong [OF e, of tcbs] by simp
qed

lemma completed_handed_out:
  assumes R: "rep (links s) Q" and K: "kinv s Q" and i: "i < CFN_MAX_TSKID" and w: "tskstat (tcbs s i) = TTS_WAI"
    and c: "hands_on s i cause" and j: "j < CFN_MAX_SEMID" "Q (SemQ j) = Some (map TcbWait (us @ i # vs))" "exists_id (semid (semcbs s j))"
    and G: "grant (takes_first s j) (semcnt (semcbs s j)) (reqs s (us @ vs)) = (g, n, ws)"
    and h: "rep h (wake_rings i (pris s i) Q)"
    and H: "handed_out ((upd_tcb i (wake_tcb cause) s)\<lparr>links := h\<rparr>) (wake_rings i (pris s i) Q) j g n s'"
  shows "\<exists>Q'. completed s Q i cause s' Q'"
proof -
  let ?Q = "wake_rings i (pris s i) Q" and ?s = "(upd_tcb i (wake_tcb cause) s)\<lparr>links := h\<rparr>"
  have wi: "in_ring Q (SemQ j) (TcbWait i)" using j(2) by (auto simp: in_ring_def)
  have W: "woken s Q ?s ?Q" using h K i w by (rule woken_wake)
  have q: "?Q (SemQ j) = Some (map TcbWait (us @ vs))"
    using wake_rings_wait_queue [of Q "SemQ j" "map TcbWait us" i "map TcbWait vs"] j(2) kinvD(1) [OF K] R
    by simp
  have R1: "rep (links ?s) ?Q" and K1: "kinv ?s ?Q" using W by (simp_all add: woken_def)
  have req: "wait_req ?s n = wait_req s n" for n by (cases n) auto
  have "reqs ?s (us @ vs) = reqs s (us @ vs)" by (auto simp: reqs_def)
  then have G1: "grant (takes_first ?s j) (semcnt (semcbs ?s j)) (reqs ?s (us @ vs)) = (g, n, ws)"
    using G by simp
  note gw = grant_waiting [OF R1 K1 q G1]
  have "i \<notin> set g" using gw(1) repD(2) [OF R j(2)] by (auto simp: distinct_map)
  moreover have "woken s Q s' (wake_qs (pris ?s) g ?Q)"
    using gw(2) by (intro woken_trans [OF W] woken_handed_out [OF H]) auto
  moreover have "tcbs s' i = wake_tcb cause (tcbs s i)" if "i \<notin> set g"
    using H that by (auto simp: handed_out_def tcbs_wakes)
  moreover have "sem_served s' (wake_qs (pris ?s) g ?Q)" if "sem_served s Q"
    using that j sem_queue_other [OF R K wi]
    by (intro sem_served_handed_out [OF R1 K1 q G1 H]) (auto simp: sem_served_def req cong: map_cong)
  moreover have "tcbs s' k = tcbs s k \<or> (tskstat (tcbs s k) = TTS_WAI \<and>
      tskwait (tcbs s k) = TTW_SEM \<and> tcbs s' k = wake_tcb E_OK (tcbs s k))" if "k \<noteq> i" for k
  proof (cases "k \<in> set g")
    case True
    then have "in_ring Q (SemQ j) (TcbWait k)" using gw(1) j(2) by (auto simp: in_ring_def)
    from sem_waiter [OF R K this] waiter_state(2) [OF R K this] show ?thesis
      using H True that by (auto simp: handed_out_def tcbs_wakes)
  next
    case False
    then show ?thesis using H that by (auto simp: handed_out_def tcbs_wakes)
  qed
  moreover have "in_ring (wake_qs (pris ?s) g ?Q) TimerQ (TcbHead k)"
    if "in_ring Q TimerQ (TcbHead k)" "tskstat (tcbs s' k) = TTS_WAI" for k
  proof -
    have "k \<notin> set g" "k \<noteq> i" using that(2) H by (auto simp: handed_out_def tcbs_wakes split: if_splits)
    with that(1) show ?thesis by (auto simp: in_ring_def wake_rings_lookup wake_qs_lookup)
  qed
  ultimately show ?thesis using c unfolding completed_def by blast
qed

lemma tkmc_complete_wait_ok:
  assumes R: "rep (links s) Q" and K: "kinv s Q" and i: "i < CFN_MAX_TSKID"
    and w: "tskstat (tcbs s i) = TTS_WAI"
  shows "ok (tkmc_complete_wait i cause s) (\<lambda>s'. \<exists>Q'. completed s Q i cause s' Q')"
proof (cases "hands_on s i cause")
  case False
  then show ?thesis
    unfolding completed_def using woken_wake [OF _ K i w, of _ cause] sem_served_wake [OF R K]
    by (intro ok_mono [OF complete_wait_alone [OF R K i w False]])
      (fastforce simp: in_ring_def wake_rings_lookup)
next
  case True
  obtain j us vs r where j: "winfo (tcbs s i) = WSem r j" "j < CFN_MAX_SEMID"
      "exists_id (semid (semcbs s j))" "Q (SemQ j) = Some (map TcbWait (us @ i # vs))"
    and call: "\<And>g c ws. grant (takes_first s j) (semcnt (semcbs s j)) (reqs s (us @ vs)) = (g, c, ws) \<Longrightarrow>
      ok (tkmc_complete_wait i cause s) (\<lambda>s'. \<exists>h. rep h (wake_rings i (pris s i) Q) \<and>
        handed_out ((upd_tcb i (wake_tcb cause) s)\<lparr>links := h\<rparr>) (wake_rings i (pris s i) Q) j g c s')"
    using complete_wait_hands_on [OF R K i w True] by blast
  obtain g c ws where G: "grant (takes_first s j) (semcnt (semcbs s j)) (reqs s (us @ vs)) = (g, c, ws)"
    by (metis prod_cases3)
  show ?thesis
    by (rule ok_mono [OF call [OF G]]) (use completed_handed_out [OF R K i w True j(2,4,3) G] in blast)
qed

end
