(* ===== verification/TK_Sched.thy ===== *)
theory TK_Sched
  imports TK_Wait
begin

text \<open>
  Scheduling: which task \<open>tkmc_get_highest_priority_task\<close> chooses, what a pending
  dispatch request promises, and the invariant of the whole kernel state between two calls. The
  critical section that every call runs in (\<open>DI\<close> ... \<open>EI\<close>) is here too.
\<close>

section \<open>The first task of the best non-empty ready queue\<close>

fun top_from :: "nat \<Rightarrow> nat \<Rightarrow> rings \<Rightarrow> nat option" where
  "top_from i 0 Q = None"
| "top_from i (Suc k) Q =
     (case Q (ReadyQ i) of Some (n # ns) \<Rightarrow> tcb_of_head n | _ \<Rightarrow> top_from (Suc i) k Q)"

definition top_ready :: "rings \<Rightarrow> nat option" where
  "top_ready Q = top_from 0 CFN_MAX_PRI Q"

lemma ready_hd: "typed Q \<Longrightarrow> Q (ReadyQ p) = Some (n # ns) \<Longrightarrow> \<exists>t. n = TcbHead t"
  using typed_in_ring [of Q "ReadyQ p" n] by (auto simp: in_ring_def split: node.splits)

lemma highest_from_rep:
  assumes R: "rep h Q" and T: "typed Q" and S: "static Q" and "i + k \<le> CFN_MAX_PRI"
  shows "highest_from i k h = Some (top_from i k Q)"
  using assms(4)
proof (induction k arbitrary: i)
  case (Suc k)
  have "i < CFN_MAX_PRI" using Suc.prems by simp
  then obtain xs where q: "Q (ReadyQ i) = Some xs" using S by (auto simp: static_def)
  note E = tkmc_list_empty_owner [OF R q] get_next_head [OF R q]
  show ?case
  proof (cases xs)
    case Nil
    then show ?thesis using E Suc q by simp
  next
    case (Cons n ns)
    then show ?thesis using E q ready_hd [OF T, of i n ns] by auto
  qed
qed simp

lemma tkmc_get_highest_priority_task_rep:
  "rep (links s) Q \<Longrightarrow> kinv s Q \<Longrightarrow> tkmc_get_highest_priority_task s = Some (top_ready Q)"
  by (simp add: tkmc_get_highest_priority_task_def top_ready_def highest_from_rep kinvD)

lemma top_from_Some:
  "top_from i k Q = Some t \<Longrightarrow> typed Q \<Longrightarrow>
    \<exists>p ns. i \<le> p \<and> p < i + k \<and> Q (ReadyQ p) = Some (TcbHead t # ns) \<and>
      (\<forall>p' \<ge> i. p' < p \<longrightarrow> (\<forall>n. \<not> in_ring Q (ReadyQ p') n))"
proof (induction k arbitrary: i)
  case (Suc k)
  show ?case
  proof (cases "\<exists>n ns. Q (ReadyQ i) = Some (n # ns)")
    case True
    then obtain n ns where n: "Q (ReadyQ i) = Some (n # ns)" by blast
    then show ?thesis
      using ready_hd [OF Suc.prems(2) n] Suc.prems(1) by (intro exI [of _ i] exI [of _ ns]) auto
  next
    case False
    then have e: "\<forall>n. \<not> in_ring Q (ReadyQ i) n" by (auto simp: in_ring_def neq_Nil_conv) (metis list.set_cases)
    have "top_from (Suc i) k Q = Some t"
      using Suc.prems(1) False by (auto split: option.splits list.splits)
    from Suc.IH [OF this Suc.prems(2)] e show ?thesis
      by (metis add_Suc_right add_Suc_shift le_less_Suc_eq Suc_le_lessD less_imp_le not_less_eq_eq order_le_less)
  qed
qed simp

lemma top_from_None: "top_from i k Q = None \<Longrightarrow> typed Q \<Longrightarrow> i \<le> p \<Longrightarrow> p < i + k \<Longrightarrow> \<not> in_ring Q (ReadyQ p) n"
proof (induction k arbitrary: i)
  case (Suc k)
  have "\<not> in_ring Q (ReadyQ i) m" for m
  proof
    assume "in_ring Q (ReadyQ i) m"
    then obtain n ns where n: "Q (ReadyQ i) = Some (n # ns)" by (auto simp: in_ring_def) (metis list.set_cases)
    then show False using ready_hd [OF Suc.prems(2) n] Suc.prems(1) by auto
  qed
  moreover from this have "top_from (Suc i) k Q = None"
    using Suc.prems(1) by (auto simp: in_ring_def split: option.splits list.splits)
  ultimately show ?case
    using Suc.IH [of "Suc i"] Suc.prems by (cases "p = i") auto
qed simp

section \<open>What it means for a task to be on a ready queue\<close>

abbreviation runnable :: "TCB \<Rightarrow> bool" where
  "runnable t \<equiv> tskstat t = TTS_RUN \<or> tskstat t = TTS_RDY"

lemma ready_member:
  assumes R: "rep h Q" and K: "kinv s Q" and q: "in_ring Q (ReadyQ p) (TcbHead i)"
  shows "i < CFN_MAX_TSKID" and "runnable (tcbs s i)" and "int p = itskpri (tcbs s i) - 1"
proof -
  show i: "i < CFN_MAX_TSKID" using typed_in_ring [OF kinvD(1) [OF K] q] by simp
  have u: "v = ReadyQ p" if "in_ring Q v (TcbHead i)" for v by (rule rep_in_ring_unique [OF R that q])
  have "Q (TcbHead i) = None" by (rule rep_member_not_owner [OF R q])
  then show r: "runnable (tcbs s i)"
    using kinvD(4) [OF K i] u q
    by (auto simp: task_ok_def head_ok_def idle_node_def loose_def split: tskstat.splits dest!: u)
  then have "in_ring Q (ready_node (itskpri (tcbs s i))) (TcbHead i)"
    using kinvD(4) [OF K i] by (elim disjE) (simp_all add: task_ok_def head_ok_def)
  from u [OF this] show "int p = itskpri (tcbs s i) - 1"
    using task_pri [OF K i] r by auto
qed

lemma runnable_member:
  "kinv s Q \<Longrightarrow> i < CFN_MAX_TSKID \<Longrightarrow> runnable (tcbs s i) \<Longrightarrow>
    in_ring Q (ready_node (itskpri (tcbs s i))) (TcbHead i)"
  using kinvD(4) [of s Q i] by (elim disjE) (simp_all add: task_ok_def head_ok_def)

lemma top_ready_best:
  assumes R: "rep h Q" and K: "kinv s Q" and t: "top_ready Q = Some t"
  shows "t < CFN_MAX_TSKID" and "runnable (tcbs s t)"
    and "\<And>i. i < CFN_MAX_TSKID \<Longrightarrow> runnable (tcbs s i) \<Longrightarrow> itskpri (tcbs s t) \<le> itskpri (tcbs s i)"
proof -
  obtain p ns where p: "Q (ReadyQ p) = Some (TcbHead t # ns)"
    and better: "\<And>p' n. p' < p \<Longrightarrow> \<not> in_ring Q (ReadyQ p') n"
    using top_from_Some [OF t [unfolded top_ready_def] kinvD(1) [OF K]] by auto
  have "in_ring Q (ReadyQ p) (TcbHead t)" using p by (simp add: in_ring_def)
  note T = ready_member [OF R K this]
  show "t < CFN_MAX_TSKID" "runnable (tcbs s t)" by (rule T)+
  show "itskpri (tcbs s t) \<le> itskpri (tcbs s i)" if "i < CFN_MAX_TSKID" "runnable (tcbs s i)" for i
  proof -
    have "in_ring Q (ready_node (itskpri (tcbs s i))) (TcbHead i)" using that by (rule runnable_member [OF K])
    then have "\<not> nat (itskpri (tcbs s i) - 1) < p" using better by blast
    then show ?thesis using T(3) task_pri [OF K that(1)] that(2) by auto
  qed
qed

lemma top_ready_exists:
  assumes K: "kinv s Q" and i: "i < CFN_MAX_TSKID" "runnable (tcbs s i)"
  shows "top_ready Q \<noteq> None"
proof
  assume "top_ready Q = None"
  moreover have "nat (itskpri (tcbs s i) - 1) < 0 + CFN_MAX_PRI" using task_pri [OF K i(1)] i(2) by auto
  ultimately have "\<not> in_ring Q (ready_node (itskpri (tcbs s i))) (TcbHead i)"
    unfolding top_ready_def by (rule top_from_None [OF _ kinvD(1) [OF K] le0])
  then show False using runnable_member [OF K i] by simp
qed

section \<open>The invariant between two calls\<close>

text \<open>
  With a dispatch pending, \<open>next\<close> is the task to switch to; with none pending, the current
  task is running and is itself the first choice.
\<close>

definition sched_ok :: "kernel \<Rightarrow> rings \<Rightarrow> bool" where
  "sched_ok s Q \<longleftrightarrow> (\<forall>c. current s = Some c \<longrightarrow>
     (if msip s then next_tsk s = top_ready Q
      else top_ready Q = Some c \<and> tskstat (tcbs s c) = TTS_RUN))"

definition ginv :: "kernel \<Rightarrow> rings \<Rightarrow> bool" where
  "ginv s Q \<longleftrightarrow> kinv s Q \<and> sem_served s Q \<and> flg_served s Q \<and> sched_ok s Q"

definition sys_inv :: "kernel \<Rightarrow> bool" where
  "sys_inv s \<longleftrightarrow> (\<exists>Q. rep (links s) Q \<and> ginv s Q)"

lemma reschedule_ok:
  assumes R: "rep (links s) Q" and K: "kinv s Q"
    and run: "\<And>c. current s = Some c \<Longrightarrow> \<not> msip s \<Longrightarrow> tskstat (tcbs s c) = TTS_RUN"
  shows "ok (reschedule s) (\<lambda>s'. sched_ok s' Q \<and>
    s' = s\<lparr>next_tsk := top_ready Q, msip := msip s \<or> top_ready Q \<noteq> current s\<rparr>)"
  using run
  by (auto simp: reschedule_def tkmc_get_highest_priority_task_rep [OF R K] dispatch_def sched_ok_def Let_def)

lemma switch_away_ok:
  assumes R: "rep (links s) Q" and K: "kinv s Q"
  shows "ok (switch_away s) (\<lambda>s'. sched_ok s' Q \<and> s' = s\<lparr>next_tsk := top_ready Q, msip := True\<rparr>)"
  by (auto simp: switch_away_def tkmc_get_highest_priority_task_rep [OF R K] dispatch_def sched_ok_def)

lemma sem_served_cong:
  "tcbs s' = tcbs s \<Longrightarrow> semcbs s' = semcbs s \<Longrightarrow> sem_served s' Q = sem_served s Q"
proof -
  assume *: "tcbs s' = tcbs s" "semcbs s' = semcbs s"
  then have "wait_req s' = wait_req s" by (auto intro!: wait_req_cong)
  with * show ?thesis by (simp add: sem_served_def)
qed

lemma sem_served_frame [simp]:
  "sem_served (s\<lparr>links := h\<rparr>) Q = sem_served s Q"
  "sem_served (s\<lparr>next_tsk := x\<rparr>) Q = sem_served s Q"
  "sem_served (s\<lparr>msip := b\<rparr>) Q = sem_served s Q"
  "sem_served (s\<lparr>mstatus := m\<rparr>) Q = sem_served s Q"
  "sem_served (s\<lparr>clk := k\<rparr>) Q = sem_served s Q"
  "sem_served (s\<lparr>isr_depth := d\<rparr>) Q = sem_served s Q"
  "sem_served (s\<lparr>s_mtimecmp := t\<rparr>) Q = sem_served s Q"
  "sem_served (s\<lparr>mtimecmp_reg := t\<rparr>) Q = sem_served s Q"
  "sem_served (s\<lparr>stack_mem := g\<rparr>) Q = sem_served s Q"
  by (rule sem_served_cong; simp)+

lemma flg_served_frame [simp]:
  "flg_served (s\<lparr>links := h\<rparr>) Q = flg_served s Q"
  "flg_served (s\<lparr>next_tsk := x\<rparr>) Q = flg_served s Q"
  "flg_served (s\<lparr>msip := b\<rparr>) Q = flg_served s Q"
  "flg_served (s\<lparr>mstatus := m\<rparr>) Q = flg_served s Q"
  "flg_served (s\<lparr>clk := k\<rparr>) Q = flg_served s Q"
  "flg_served (s\<lparr>isr_depth := d\<rparr>) Q = flg_served s Q"
  "flg_served (s\<lparr>s_mtimecmp := t\<rparr>) Q = flg_served s Q"
  "flg_served (s\<lparr>mtimecmp_reg := t\<rparr>) Q = flg_served s Q"
  "flg_served (s\<lparr>stack_mem := g\<rparr>) Q = flg_served s Q"
  by (simp_all add: flg_served_def)

lemma sched_frame [simp]:
  "sched_ok (s\<lparr>links := h\<rparr>) Q = sched_ok s Q"
  "sched_ok (s\<lparr>mstatus := m\<rparr>) Q = sched_ok s Q"
  "sched_ok (s\<lparr>clk := k\<rparr>) Q = sched_ok s Q"
  "sched_ok (s\<lparr>isr_depth := d\<rparr>) Q = sched_ok s Q"
  "sched_ok (s\<lparr>s_mtimecmp := t\<rparr>) Q = sched_ok s Q"
  "sched_ok (s\<lparr>mtimecmp_reg := t\<rparr>) Q = sched_ok s Q"
  "sched_ok (s\<lparr>stack_mem := g\<rparr>) Q = sched_ok s Q"
  by (simp_all add: sched_ok_def)

lemma ginv_frame [simp]:
  "ginv (s\<lparr>links := h\<rparr>) Q = ginv s Q"
  "ginv (s\<lparr>mstatus := m\<rparr>) Q = ginv s Q"
  "ginv (s\<lparr>clk := k\<rparr>) Q = ginv s Q"
  "ginv (s\<lparr>isr_depth := d\<rparr>) Q = ginv s Q"
  "ginv (s\<lparr>s_mtimecmp := t\<rparr>) Q = ginv s Q"
  "ginv (s\<lparr>mtimecmp_reg := t\<rparr>) Q = ginv s Q"
  "ginv (s\<lparr>stack_mem := g\<rparr>) Q = ginv s Q"
  by (simp_all add: ginv_def)

text \<open>After waits were ended, a call that looks for the next task restores the whole invariant.\<close>

lemma woken_reschedule:
  assumes W: "woken s Q s' Q'" and G: "flg_served s Q" "sched_ok s Q" and S: "sem_served s' Q'"
  shows "ok (reschedule s') (\<lambda>s''. rep (links s'') Q' \<and> ginv s'' Q' \<and> mstatus s'' = mstatus s \<and>
    s'' = s'\<lparr>next_tsk := top_ready Q', msip := msip s' \<or> top_ready Q' \<noteq> current s'\<rparr>)"
proof -
  have R: "rep (links s') Q'" and K: "kinv s' Q'" and F: "same_rest s s'" using W by (simp_all add: woken_def)
  have "tskstat (tcbs s' c) = TTS_RUN" if "current s' = Some c" "\<not> msip s'" for c
  proof -
    have "tskstat (tcbs s c) = TTS_RUN" using G that same_restD [OF F] by (auto simp: sched_ok_def)
    then show ?thesis using W unfolding woken_def by (metis tskstat.distinct)
  qed
  then have "ok (reschedule s') (\<lambda>s''. sched_ok s'' Q' \<and>
      s'' = s'\<lparr>next_tsk := top_ready Q', msip := msip s' \<or> top_ready Q' \<noteq> current s'\<rparr>)"
    by (rule reschedule_ok [OF R K])
  then show ?thesis
    by (rule ok_mono) (use R K S flg_served_woken [OF W G(1)] same_restD [OF F] in \<open>auto simp: ginv_def\<close>)
qed

section \<open>Critical sections\<close>

text \<open>
  The shape of every call: \<open>DI(intsts)\<close>, a body, \<open>EI(intsts)\<close> on each way out. A result
  \<open>Halt\<close> means that the body does not come back to the \<open>EI\<close>.
\<close>

definition crit :: "(UINT \<Rightarrow> kernel \<Rightarrow> ('a outcome \<times> kernel) option) \<Rightarrow> kernel \<Rightarrow>
    ('a outcome \<times> kernel) option" where
  "crit body s = (case DI s of (intsts, s) \<Rightarrow> do {
     (r, s) \<leftarrow> body intsts s;
     Some (r, case r of Halt \<Rightarrow> s | _ \<Rightarrow> EI intsts s) })"

lemma ok_crit:
  assumes "ok (body (mstatus s OR NOT MSTATUS_MIE) (s\<lparr>mstatus := mstatus s AND NOT MSTATUS_MIE\<rparr>))
    (\<lambda>(r, s'). mstatus s' = mstatus s AND NOT MSTATUS_MIE \<and>
       P (r, case r of Halt \<Rightarrow> s' | _ \<Rightarrow> s'\<lparr>mstatus := mstatus s\<rparr>))"
  shows "ok (crit body s) P"
  using assms EI_restores [of _ "mstatus s"]
  by (auto simp: crit_def DI_def elim!: ok_mono split: outcome.splits)

lemma ok_crit_ex:
  assumes "\<And>s0. s0 = s\<lparr>mstatus := mstatus s AND NOT MSTATUS_MIE\<rparr> \<Longrightarrow>
    ok (body (mstatus s OR NOT MSTATUS_MIE) s0)
      (\<lambda>(r, s'). r \<noteq> Halt \<and> mstatus s' = mstatus s0 \<and> P (r, s'\<lparr>mstatus := mstatus s\<rparr>))"
  shows "ok (crit body s) P"
  by (rule ok_crit, rule ok_mono [OF assms [OF refl]]) (auto split: outcome.splits)

text \<open>A body that refuses at once leaves the state exactly as it was.\<close>

lemma crit_refuse:
  assumes "body (mstatus s OR NOT MSTATUS_MIE) (s\<lparr>mstatus := mstatus s AND NOT MSTATUS_MIE\<rparr>) =
    Some (Return v, s\<lparr>mstatus := mstatus s AND NOT MSTATUS_MIE\<rparr>)"
  shows "crit body s = Some (Return v, s)"
  using assms EI_restores [of "s\<lparr>mstatus := mstatus s AND NOT MSTATUS_MIE\<rparr>" "mstatus s"]
  by (simp add: crit_def DI_def)

text \<open>
  What every call promises: it returns, the invariant holds again, and the interrupt state is
  the one it was called with.
\<close>

definition call_ok :: "('a outcome \<times> kernel) option \<Rightarrow> kernel \<Rightarrow> bool" where
  "call_ok m s \<longleftrightarrow> ok m (\<lambda>(r, s'). sys_inv s' \<and> (r \<noteq> Halt \<longrightarrow> mstatus s' = mstatus s))"

lemma sys_inv_mstatus [simp]: "sys_inv (s\<lparr>mstatus := m\<rparr>) = sys_inv s"
  by (simp add: sys_inv_def)

lemma sys_invI: "rep (links s) Q \<Longrightarrow> ginv s Q \<Longrightarrow> sys_inv s"
  by (auto simp: sys_inv_def)

lemma sys_inv_links: "rep h Q \<Longrightarrow> ginv s Q \<Longrightarrow> sys_inv (s\<lparr>links := h\<rparr>)"
  by (rule sys_invI) simp_all

lemma call_ok_return: "sys_inv s \<Longrightarrow> call_ok (Some (Return v, s)) s"
  by (simp add: call_ok_def)

lemma call_ok_if: "(b \<Longrightarrow> call_ok m s) \<Longrightarrow> (\<not> b \<Longrightarrow> call_ok n s) \<Longrightarrow> call_ok (if b then m else n) s"
  by simp

lemma crit_call_ok:
  assumes "sys_inv s"
    and "\<And>s0 Q. s0 = s\<lparr>mstatus := mstatus s AND NOT MSTATUS_MIE\<rparr> \<Longrightarrow> rep (links s0) Q \<Longrightarrow> ginv s0 Q \<Longrightarrow>
      ok (body (mstatus s OR NOT MSTATUS_MIE) s0) (\<lambda>(r, s'). mstatus s' = mstatus s0 \<and> sys_inv s')"
  shows "call_ok (crit body s) s"
proof -
  obtain Q where "rep (links s) Q" "ginv s Q" using assms(1) by (auto simp: sys_inv_def)
  then have "ok (body (mstatus s OR NOT MSTATUS_MIE) (s\<lparr>mstatus := mstatus s AND NOT MSTATUS_MIE\<rparr>))
      (\<lambda>(r, s'). mstatus s' = mstatus s AND NOT MSTATUS_MIE \<and> sys_inv s')"
    using assms(2) [of "s\<lparr>mstatus := mstatus s AND NOT MSTATUS_MIE\<rparr>" Q] by simp
  then show ?thesis
    unfolding call_ok_def by (intro ok_crit) (auto elim!: ok_mono split: outcome.splits)
qed

text \<open>
  A task that runs with interrupts on is not waiting for its own dispatch request: the software
  interrupt has been taken.
\<close>

text \<open>
  The same with what the call does: a relation between the state before and after the body that
  does not depend on the interrupt state, which the critical section restores.
\<close>

lemma crit_result:
  assumes "sys_inv s"
    and body: "\<And>s0 Q. s0 = s\<lparr>mstatus := mstatus s AND NOT MSTATUS_MIE\<rparr> \<Longrightarrow> rep (links s0) Q \<Longrightarrow> ginv s0 Q \<Longrightarrow>
      ok (body (mstatus s OR NOT MSTATUS_MIE) s0) (\<lambda>(r, s'). r \<noteq> Halt \<and> mstatus s' = mstatus s0 \<and> sys_inv s' \<and> P s0 r s')"
    and P: "\<And>m r s'. mstatus s' = m \<Longrightarrow> P (s\<lparr>mstatus := m\<rparr>) r s' \<Longrightarrow> P s r (s'\<lparr>mstatus := mstatus s\<rparr>)"
  shows "ok (crit body s) (\<lambda>(r, s'). sys_inv s' \<and> mstatus s' = mstatus s \<and> P s r s')"
proof (rule ok_crit_ex, goal_cases)
  case (1 s0)
  obtain Q where "rep (links s0) Q" "ginv s0 Q" using assms(1) 1 by (auto simp: sys_inv_def)
  from body [OF 1 this] show ?case by (rule ok_mono) (use 1 P in auto)
qed

lemma ok_ifI: "(b \<Longrightarrow> ok m P) \<Longrightarrow> (\<not> b \<Longrightarrow> ok n P) \<Longrightarrow> ok (if b then m else n) P"
  by simp

lemma unmask_upd [simp]:
  "(upd_flg j f (s\<lparr>mstatus := m\<rparr>))\<lparr>mstatus := mstatus s\<rparr> = upd_flg j f s"
  "(upd_sem j g (s\<lparr>mstatus := m\<rparr>))\<lparr>mstatus := mstatus s\<rparr> = upd_sem j g s"
  by (simp_all add: upd_flg_def upd_sem_def)

lemma result_call_ok:
  "ok m (\<lambda>(r, s'). sys_inv s' \<and> mstatus s' = mstatus s \<and> P r s') \<Longrightarrow> call_ok m s"
  unfolding call_ok_def by (erule ok_mono) auto

definition settled :: "kernel \<Rightarrow> bool" where
  "settled s \<longleftrightarrow> (mstatus s AND MSTATUS_MIE \<noteq> 0 \<and> \<not> tkmc_in_isr s \<longrightarrow> \<not> msip s)"

lemma can_block_running:
  assumes "ginv s0 Q" and "s0 = s\<lparr>mstatus := m\<rparr>" and "settled s"
    and "tkmc_can_block (mstatus s OR NOT MSTATUS_MIE) s0"
  shows "\<exists>c. current s0 = Some c \<and> c < CFN_MAX_TSKID \<and> tskstat (tcbs s0 c) = TTS_RUN \<and>
    in_ring Q (ready_node (itskpri (tcbs s0 c))) (TcbHead c) \<and> Q (TcbWait c) = Some []"
proof -
  have K: "kinv s0 Q" and S: "sched_ok s0 Q" using assms(1) by (simp_all add: ginv_def)
  obtain c where c: "current s0 = Some c" "\<not> msip s0"
    using assms(2-4) by (auto simp: tkmc_can_block_def settled_def tkmc_in_isr_def)
  then have r: "tskstat (tcbs s0 c) = TTS_RUN" using S by (simp add: sched_ok_def)
  have "c < CFN_MAX_TSKID" using kinvD(3) [OF K] c by (simp add: cur_ok_def)
  with kinvD(4) [OF K this] c r show ?thesis by (simp add: task_ok_def head_ok_def wait_ok_def)
qed

section \<open>Changes that leave the wait queues alone\<close>

lemma moved_wait_queue:
  assumes R: "rep h Q" and K: "kinv s Q" and own: "Q (TcbWait i) = Some []"
    and T: "typed Q'" and M: "moved i Q Q'" and out: "\<And>q. \<not> in_ring Q' q (TcbWait i)"
    and q: "keep i q" "\<not> fits q (TcbHead i)"
  shows "Q' q = Q q"
proof (cases "Q q")
  case None
  then show ?thesis using moved_None [OF M q(1)] by simp
next
  case (Some xs)
  have "\<not> in_ring Q q (TcbWait i)" using rep_owner_loose [OF R own] by (simp add: loose_def)
  then have "keep i n" if "n \<in> set xs" for n
    using that Some q typed_in_ring [OF kinvD(1) [OF K], of q n] by (auto simp: keep_def in_ring_def)
  then have "filter (keep i) xs = xs" by simp
  then show ?thesis using moved_queue [OF T M q Some out] Some by simp
qed

lemma served_moved:
  assumes R: "rep h Q" and K: "kinv s Q" and own: "Q (TcbWait i) = Some []"
    and T: "typed Q'" and M: "moved i Q Q'" and out: "\<And>q. \<not> in_ring Q' q (TcbWait i)"
  shows "sem_served s Q \<Longrightarrow> sem_served (upd_tcb i f s) Q'"
    and "flg_served s Q \<Longrightarrow> flg_served (upd_tcb i f s) Q'"
proof -
  note same = moved_wait_queue [OF R K own T M out]
  have i: "\<not> in_ring Q q (TcbWait i)" for q using rep_owner_loose [OF R own] by (simp add: loose_def)
  assume S: "sem_served s Q"
  show "sem_served (upd_tcb i f s) Q'"
    unfolding sem_served_def
  proof (intro allI impI)
    fix j ws assume "Q' (SemQ j) = Some ws"
    then have q: "Q (SemQ j) = Some ws" using same [of "SemQ j"] by simp
    then have "map (wait_req (upd_tcb i f s)) ws = map (wait_req s) ws"
      using i [of "SemQ j"] by (auto intro!: wait_req_upd simp: in_ring_def)
    note eq = this
    show "held_back (takes_first (upd_tcb i f s) j) (semcnt (semcbs (upd_tcb i f s) j))
        (map (wait_req (upd_tcb i f s)) ws)"
      using S q by (simp add: eq sem_served_def del: map_eq_conv)
  qed
next
  note same = moved_wait_queue [OF R K own T M out]
  have i: "\<not> in_ring Q q (TcbWait i)" for q using rep_owner_loose [OF R own] by (simp add: loose_def)
  assume "flg_served s Q"
  moreover have "in_ring Q' (FlgQ j) n = in_ring Q (FlgQ j) n" for j n
    using same [of "FlgQ j"] by (simp add: in_ring_def)
  ultimately show "flg_served (upd_tcb i f s) Q'"
    using i by (auto simp: flg_served_def)
qed

lemma top_ready_cong:
  assumes "\<And>p. Q' (ReadyQ p) = Q (ReadyQ p)"
  shows "top_ready Q' = top_ready Q"
proof -
  have "top_from i k Q' = top_from i k Q" for i k
    by (induction k arbitrary: i) (simp_all add: assms cong: option.case_cong list.case_cong)
  then show ?thesis by (simp add: top_ready_def)
qed

lemma reschedule_inv:
  assumes "rep (links s) Q" and "kinv s Q" and "sem_served s Q" and "flg_served s Q"
    and "\<And>c. current s = Some c \<Longrightarrow> \<not> msip s \<Longrightarrow> tskstat (tcbs s c) = TTS_RUN"
  shows "ok (reschedule s) (\<lambda>s'. mstatus s' = mstatus s \<and> sys_inv s')"
  by (rule ok_mono [OF reschedule_ok [OF assms(1,2,5)]])
    (use assms in \<open>auto intro!: sys_invI [of _ Q] simp: ginv_def\<close>)

lemma switch_away_inv:
  assumes "rep (links s) Q" and "kinv s Q" and "sem_served s Q" and "flg_served s Q"
  shows "ok (switch_away s) (\<lambda>s'. mstatus s' = mstatus s \<and> sys_inv s')"
  by (rule ok_mono [OF switch_away_ok [OF assms(1,2)]])
    (use assms in \<open>auto intro!: sys_invI [of _ Q] simp: ginv_def\<close>)

lemma woken_reschedule_inv:
  assumes "woken s Q s' Q'" and "ginv s Q" and "sem_served s' Q'"
  shows "ok (reschedule s') (\<lambda>s''. mstatus s'' = mstatus s \<and> sys_inv s'')"
  using assms
  by (intro ok_mono [OF woken_reschedule [OF assms(1)]]) (auto simp: ginv_def intro: sys_invI)

section \<open>Fields of a control block that the invariant does not read\<close>

definition same_wait :: "TCB \<Rightarrow> TCB \<Rightarrow> bool" where
  "same_wait t t' \<longleftrightarrow> tskid t' = tskid t \<and> itskpri t' = itskpri t \<and> tskstat t' = tskstat t \<and>
     tskwait t' = tskwait t \<and> winfo t' = winfo t"

text \<open>A wait for ever is one without ticks, and stays one.\<close>

definition same_task :: "TCB \<Rightarrow> TCB \<Rightarrow> bool" where
  "same_task t t' \<longleftrightarrow> same_wait t t' \<and> (tskstat t = TTS_WAI \<longrightarrow> delay_ticks t = 0 \<longrightarrow> delay_ticks t' = 0)"

lemma same_task_ok:
  assumes "same_task t t'" and "wupcnt t' \<le> TK_WAKEUP_MAXCNT" and "task_ok t Q i"
  shows "task_ok t' Q i"
proof -
  have e: "tskid t' = tskid t" "itskpri t' = itskpri t" "tskstat t' = tskstat t"
    "tskwait t' = tskwait t" "winfo t' = winfo t" using assms(1) by (simp_all add: same_task_def same_wait_def)
  have "head_ok t' Q i"
    using assms(1,3) by (auto simp: same_task_def same_wait_def task_ok_def head_ok_def split: tskstat.splits)
  then show ?thesis using assms(2,3) unfolding task_ok_def wait_ok_def e by blast
qed

lemma upd_wait:
  assumes f: "same_wait (tcbs s i) (f (tcbs s i))"
  shows "sem_queue_ok (upd_tcb i f s) = sem_queue_ok s" and "flg_queue_ok (upd_tcb i f s) = flg_queue_ok s"
    and "mbx_queue_ok (upd_tcb i f s) = mbx_queue_ok s"
    and "sem_served (upd_tcb i f s) Q = sem_served s Q" and "flg_served (upd_tcb i f s) Q = flg_served s Q"
    and "sched_ok (upd_tcb i f s) Q = sched_ok s Q"
proof -
  let ?s = "upd_tcb i f s"
  have "wait_pri ?s n = wait_pri s n" "wait_req ?s n = wait_req s n" for n
    using f by (cases n; auto simp: same_wait_def)+
  then have wr: "wait_req ?s = wait_req s" and "pri_sorted ?s = pri_sorted s"
    by (auto intro!: pri_sorted_cong)
  then show "sem_queue_ok ?s = sem_queue_ok s" "flg_queue_ok ?s = flg_queue_ok s" "mbx_queue_ok ?s = mbx_queue_ok s"
    by (auto simp: fun_eq_iff sem_queue_ok_def flg_queue_ok_def mbx_queue_ok_def)
  have "winfo (tcbs ?s k) = winfo (tcbs s k)" "tskstat (tcbs ?s k) = tskstat (tcbs s k)" for k
    using f by (simp_all add: same_wait_def)
  then show "sem_served ?s Q = sem_served s Q" "flg_served ?s Q = flg_served s Q" "sched_ok ?s Q = sched_ok s Q"
    unfolding sem_served_def flg_served_def sched_ok_def wr by simp_all
qed

lemma upd_plain_kinv:
  assumes K: "kinv s Q" and f: "same_task (tcbs s i) (f (tcbs s i))" and c: "wupcnt (f (tcbs s i)) \<le> TK_WAKEUP_MAXCNT"
  shows "kinv (upd_tcb i f s) Q"
proof -
  let ?s = "upd_tcb i f s"
  have w: "same_wait (tcbs s i) (f (tcbs s i))" using f by (simp add: same_task_def)
  have "task_ok (tcbs ?s k) Q k" if "k < CFN_MAX_TSKID" for k
    using kinvD(4) [OF K that] same_task_ok [OF f c] by (cases "k = i") simp_all
  moreover have "cur_ok ?s" using kinvD(3) [OF K] w by (auto simp: cur_ok_def same_wait_def)
  ultimately show ?thesis
    using K upd_wait [of s i f, OF w] by (simp add: kinv_def sem_ok_def flg_ok_def mbx_ok_def Let_def)
qed

lemma upd_plain_ginv:
  assumes "ginv s Q" and "same_task (tcbs s i) (f (tcbs s i))"
    and "wupcnt (f (tcbs s i)) \<le> TK_WAKEUP_MAXCNT"
  shows "ginv (upd_tcb i f s) Q"
  using assms upd_plain_kinv [of s Q i f] upd_wait [of s i f] by (simp add: ginv_def same_task_def)

lemma upd_plain_inv:
  "rep (links s) Q \<Longrightarrow> ginv s Q \<Longrightarrow> same_task (tcbs s i) (f (tcbs s i)) \<Longrightarrow>
    wupcnt (f (tcbs s i)) \<le> TK_WAKEUP_MAXCNT \<Longrightarrow> sys_inv (upd_tcb i f s)"
  by (rule sys_invI [of _ Q]) (simp_all add: upd_plain_ginv)

end
