(* ===== verification/TK_Task.thy ===== *)
theory TK_Task
  imports TK_Sched
begin

text \<open>
  The task calls of \<^verbatim>\<open>kernel/task.c\<close>: creating, starting and ending tasks, giving up the
  processor, releasing a wait and waking a sleeper, and the set-up of the task table.
\<close>

section \<open>The task table\<close>

definition reset_tcb :: "nat \<Rightarrow> kernel \<Rightarrow> kernel option" where
  "reset_tcb i s = do {
     let s = upd_tcb i (\<lambda>t. t\<lparr>itskpri := 0, tskstat := TTS_NOEXS, tskwait := TTW_NONE, sp := NULL,
       initial_sp := NULL, task := NULL, exinf := NULL, delay_ticks := 0, wupcause := E_OK,
       wupcnt := 0\<rparr>) s;
     let s = upd_tcb i (\<lambda>t. t\<lparr>winfo := WZero\<rparr>) s;
     s \<leftarrow> on_links (zero_link (TcbWait i)) s;
     s \<leftarrow> on_links (tkmc_init_list_head (TcbHead i)) s;
     on_links (tkmc_init_list_head (TcbWait i)) s }"

definition default_tcb :: "nat \<Rightarrow> kernel \<Rightarrow> kernel option" where
  "default_tcb i s = do {
     s \<leftarrow> reset_tcb i s;
     Some (upd_tcb i (\<lambda>t. t\<lparr>tskid := 0\<rparr>) s) }"

fun init_tcbs :: "nat \<Rightarrow> nat \<Rightarrow> kernel \<Rightarrow> kernel option" where
  "init_tcbs i 0 s = Some s"
| "init_tcbs i (Suc k) s = do {
     s \<leftarrow> default_tcb i s;
     let s = upd_tcb i (\<lambda>t. t\<lparr>tskid := int i + 1\<rparr>) s;
     s \<leftarrow> on_links (tkmc_list_add_tail (TcbHead i) FreeTcb) s;
     init_tcbs (Suc i) k s }"

fun init_ready_queues :: "nat \<Rightarrow> nat \<Rightarrow> kernel \<Rightarrow> kernel option" where
  "init_ready_queues i 0 s = Some s"
| "init_ready_queues i (Suc k) s = do {
     s \<leftarrow> on_links (tkmc_init_list_head (ReadyQ i)) s;
     init_ready_queues (Suc i) k s }"

definition tkmc_init_tcb :: "kernel \<Rightarrow> kernel option" where
  "tkmc_init_tcb s = do {
     s \<leftarrow> on_links (tkmc_init_list_head FreeTcb) s;
     s \<leftarrow> init_tcbs 0 CFN_MAX_TSKID s;
     init_ready_queues 0 CFN_MAX_PRI s }"

section \<open>Creating and starting a task\<close>

record T_CTSK =
  c_exinf :: addr
  c_tskatr :: ATR
  c_task :: addr
  c_itskpri :: PRI
  c_stksz :: int
  c_bufptr :: addr

definition VALID_TSKATR :: ATR where
  "VALID_TSKATR = TA_ASM OR TA_HLNG OR TA_USERBUF OR TA_RNG0 OR TA_RNG1 OR TA_RNG2 OR TA_RNG3"

text \<open>\<open>StashedRegisters\<close>: 32 words; \<open>ra\<close>, \<open>a0\<close>, \<open>a1\<close> and \<open>mepc\<close> are words 0, 6, 7 and 28.\<close>

definition FRAME_WORDS :: nat where "FRAME_WORDS = 32"
definition FRAME_SIZE :: UINT where "FRAME_SIZE = 128"
definition STACK_ALIGN :: UINT where "STACK_ALIGN = 16"

definition tk_cre_tsk :: "T_CTSK option \<Rightarrow> kernel \<Rightarrow> (ID outcome \<times> kernel) option" where
  "tk_cre_tsk pk_ctsk s = (case pk_ctsk of None \<Rightarrow> Some (Return E_PAR, s)
   | Some pk \<Rightarrow>
     if c_tskatr pk AND NOT VALID_TSKATR \<noteq> 0 then Some (Return E_RSATR, s)
     else if c_tskatr pk AND TA_USERBUF = 0 then Some (Return E_RSATR, s)
     else if c_task pk = NULL \<or> c_bufptr pk = NULL then Some (Return E_PAR, s)
     else if c_itskpri pk < 1 \<or> c_itskpri pk > int CFN_MAX_PRI then Some (Return E_PAR, s)
     else if c_stksz pk \<le> uint FRAME_SIZE then Some (Return E_PAR, s)
     else let stack_begin = c_bufptr pk; stack_size = word_of_int (c_stksz pk) in
       if stack_size > NOT 0 - stack_begin then Some (Return E_PAR, s)
       else if (stack_begin + stack_size) mod STACK_ALIGN \<noteq> 0 then Some (Return E_PAR, s)
       else let stack_end = stack_begin + stack_size in
         crit (\<lambda>_ s. do {
           e \<leftarrow> tkmc_list_empty FreeTcb (links s);
           if \<not> e then do {
             n \<leftarrow> get_next FreeTcb (links s);
             i \<leftarrow> tcb_of_head n;
             s \<leftarrow> on_links (tkmc_list_del (TcbHead i)) s;
             s \<leftarrow> on_links (tkmc_init_list_head (TcbHead i)) s;
             let new_id = tskid (tcbs s i);
             if new_id \<ge> 0 then do {
               s \<leftarrow> reset_tcb i s;
               let stack_end = stack_end - FRAME_SIZE;
               let s = upd_tcb i (\<lambda>t. t\<lparr>tskstat := TTS_DMT, sp := stack_end,
                 initial_sp := stack_end, task := c_task pk, itskpri := c_itskpri pk,
                 exinf := c_exinf pk\<rparr>) s;
               Some (Return new_id, s) }
             else Some (Return E_LIMIT, s) }
           else Some (Return E_LIMIT, s) }) s)"

text \<open>
  The memory of a stack by word address, as the start of a task fills it: every word of the
  frame is poisoned, then four are set.
\<close>

definition frame_word :: "addr \<Rightarrow> nat \<Rightarrow> addr" where
  "frame_word fp k = fp + 4 * of_nat k"

fun fill_frame :: "addr \<Rightarrow> nat \<Rightarrow> (addr \<Rightarrow> UW) \<Rightarrow> (addr \<Rightarrow> UW)" where
  "fill_frame fp 0 m = m"
| "fill_frame fp (Suc k) m = (fill_frame fp k m)(frame_word fp k := 0xdeadbeef)"

definition initial_frame :: "addr \<Rightarrow> UW \<Rightarrow> UW \<Rightarrow> UW \<Rightarrow> UW \<Rightarrow> (addr \<Rightarrow> UW) \<Rightarrow> (addr \<Rightarrow> UW)" where
  "initial_frame fp ret entry arg0 arg1 m =
     (((fill_frame fp FRAME_WORDS m)(frame_word fp 0 := ret))(frame_word fp 28 := entry))
       (frame_word fp 6 := arg0, frame_word fp 7 := arg1)"

definition tk_sta_tsk :: "ID \<Rightarrow> int \<Rightarrow> kernel \<Rightarrow> (ER outcome \<times> kernel) option" where
  "tk_sta_tsk objid stacd s =
     (if \<not> tkmc_id_in_range objid (int CFN_MAX_TSKID) then Some (Return E_ID, s)
      else let i = nat (objid - 1) in
        crit (\<lambda>_ s.
          if tskstat (tcbs s i) = TTS_NOEXS then Some (Return E_NOEXS, s)
          else if tskstat (tcbs s i) \<noteq> TTS_DMT then Some (Return E_OBJ, s)
          else do {
            let s = upd_tcb i (\<lambda>t. t\<lparr>sp := initial_sp t\<rparr>) s;
            let s = upd_tcb i (\<lambda>t. t\<lparr>tskwait := TTW_NONE, delay_ticks := 0, wupcnt := 0,
              wupcause := E_OK, winfo := WZero\<rparr>) s;
            s \<leftarrow> on_links (zero_link (TcbWait i)) s;
            s \<leftarrow> on_links (tkmc_init_list_head (TcbWait i)) s;
            let fp = sp (tcbs s i);
            let s = s\<lparr>stack_mem := initial_frame fp (ext_entry s) (task (tcbs s i))
              (word_of_int stacd) (exinf (tcbs s i)) (stack_mem s)\<rparr>;
            let s = upd_tcb i (\<lambda>t. t\<lparr>tskstat := TTS_RDY\<rparr>) s;
            s \<leftarrow> on_links (tkmc_init_list_head (TcbHead i)) s;
            q \<leftarrow> ready_queue (itskpri (tcbs s i));
            s \<leftarrow> on_links (tkmc_list_add_tail (TcbHead i) q) s;
            s \<leftarrow> (if current s \<noteq> None then reschedule s else Some s);
            Some (Return E_OK, s) }) s)"

section \<open>Giving up the processor and ending\<close>

definition tkmc_idle_can_halt :: "kernel \<Rightarrow> bool option" where
  "tkmc_idle_can_halt s = do {
     t \<leftarrow> tkmc_get_highest_priority_task s;
     if t = current s then do {
       n \<leftarrow> get_next (ReadyQ (CFN_MAX_PRI - 1)) (links s);
       p \<leftarrow> get_prev (ReadyQ (CFN_MAX_PRI - 1)) (links s);
       Some (n = p) }
     else Some False }"

definition tkmc_yield :: "kernel \<Rightarrow> (unit outcome \<times> kernel) option" where
  "tkmc_yield s = do {
     tmp \<leftarrow> current s;
     let pri = itskpri (tcbs s tmp);
     crit (\<lambda>_ s. do {
       s \<leftarrow> on_links (tkmc_list_del (TcbHead tmp)) s;
       q \<leftarrow> ready_queue pri;
       s \<leftarrow> on_links (tkmc_list_add_tail (TcbHead tmp) q) s;
       s \<leftarrow> reschedule s;
       Some (Return (), s) }) s }"

text \<open>
  \<open>tkmc_fatal_context\<close> of \<^verbatim>\<open>kernel/panic.c\<close> records the failure and calls the hook, which a board may replace
  and which must not return; the outcome \<open>Halt\<close> stands for that. The weak hook of the kernel is an
  endless \<^verbatim>\<open>wfi\<close>.
\<close>

partial_function (option) tkmc_context_panic :: "context_api \<Rightarrow> kernel \<Rightarrow> kernel option" where
  "tkmc_context_panic api s = tkmc_context_panic api s"

lemma context_panic_stops: "tkmc_context_panic api s = None"
  by (cases "tkmc_context_panic api s") (auto dest: tkmc_context_panic.raw_induct [rotated, where P = "\<lambda>_ _ _. False"])

definition tkmc_fatal_context :: "context_api \<Rightarrow> kernel \<Rightarrow> ('a outcome \<times> kernel) option" where
  "tkmc_fatal_context api s =
     Some (Halt, (snd (DI s))\<lparr>last_context_failure := (api, E_CTX)\<rparr>)"

definition tk_ext_tsk :: "kernel \<Rightarrow> (unit outcome \<times> kernel) option" where
  "tk_ext_tsk = crit (\<lambda>intsts s.
     if \<not> tkmc_can_block intsts s then tkmc_fatal_context TKMC_CONTEXT_EXT_TSK s
     else do {
       tmp \<leftarrow> current s;
       s \<leftarrow> on_links (tkmc_list_del (TcbHead tmp)) s;
       let s = upd_tcb tmp (\<lambda>t. t\<lparr>tskstat := TTS_DMT, tskwait := TTW_NONE\<rparr>) s;
       s \<leftarrow> switch_away s;
       Some (Block, s) })"

definition tk_exd_tsk :: "kernel \<Rightarrow> (unit outcome \<times> kernel) option" where
  "tk_exd_tsk = crit (\<lambda>intsts s.
     if \<not> tkmc_can_block intsts s then tkmc_fatal_context TKMC_CONTEXT_EXD_TSK s
     else do {
       tmp \<leftarrow> current s;
       s \<leftarrow> on_links (tkmc_list_del (TcbHead tmp)) s;
       let s = upd_tcb tmp (\<lambda>t. t\<lparr>tskstat := TTS_NOEXS\<rparr>) s;
       s \<leftarrow> on_links (tkmc_list_add_tail (TcbHead tmp) FreeTcb) s;
       s \<leftarrow> switch_away s;
       Some (Block, s) })"

section \<open>Releasing and waking\<close>

definition tk_rel_wai :: "ID \<Rightarrow> kernel \<Rightarrow> (ER outcome \<times> kernel) option" where
  "tk_rel_wai objid s =
     (if \<not> tkmc_id_in_range objid (int CFN_MAX_TSKID) then Some (Return E_ID, s)
      else let i = nat (objid - 1) in
        crit (\<lambda>_ s.
          let ercd = (if tskstat (tcbs s i) = TTS_NOEXS then E_NOEXS
            else if Some i = current s then E_OBJ
            else if tskstat (tcbs s i) \<noteq> TTS_WAI then E_OBJ else E_OK) in
          if ercd = E_OK then do {
            s \<leftarrow> tkmc_complete_wait i E_RLWAI s;
            s \<leftarrow> reschedule s;
            Some (Return ercd, s) }
          else Some (Return ercd, s)) s)"

definition queue_wakeup :: "nat \<Rightarrow> kernel \<Rightarrow> (ER outcome \<times> kernel) option" where
  "queue_wakeup i s =
     (if wupcnt (tcbs s i) < TK_WAKEUP_MAXCNT
      then Some (Return E_OK, upd_tcb i (\<lambda>t. t\<lparr>wupcnt := wupcnt t + 1\<rparr>) s)
      else Some (Return E_QOVR, s))"

definition tk_wup_tsk :: "ID \<Rightarrow> kernel \<Rightarrow> (ER outcome \<times> kernel) option" where
  "tk_wup_tsk objid s =
     (if \<not> tkmc_id_in_range objid (int CFN_MAX_TSKID) then Some (Return E_ID, s)
      else let i = nat (objid - 1) in
        crit (\<lambda>_ s.
          let st = tskstat (tcbs s i) in
          if Some i = current s \<and> \<not> tkmc_in_isr s then Some (Return E_OBJ, s)
          else if st = TTS_WAI then
            (if tskwait (tcbs s i) = TTW_SLP then do {
               s \<leftarrow> tkmc_complete_wait i E_OK s;
               s \<leftarrow> reschedule s;
               Some (Return E_OK, s) }
             else queue_wakeup i s)
          else if st = TTS_RDY \<or> st = TTS_RUN then queue_wakeup i s
          else if st = TTS_NOEXS then Some (Return E_NOEXS, s)
          else Some (Return E_OBJ, s)) s)"

section \<open>Creating a task keeps the invariant\<close>

definition blank_tcb :: "TCB \<Rightarrow> TCB" where
  "blank_tcb t = t\<lparr>itskpri := 0, tskstat := TTS_NOEXS, tskwait := TTW_NONE, sp := NULL,
     initial_sp := NULL, task := NULL, exinf := NULL, delay_ticks := 0, wupcause := E_OK,
     wupcnt := 0, winfo := WZero\<rparr>"

lemma reset_tcb_ok:
  assumes R: "rep (links s) Q" and l: "loose (TcbHead i) Q" "loose (TcbWait i) Q"
  shows "ok (reset_tcb i s) (\<lambda>s'. \<exists>h. s' = (upd_tcb i blank_tcb s)\<lparr>links := h\<rparr> \<and>
    rep h (Q(TcbHead i \<mapsto> [], TcbWait i \<mapsto> [])))"
  unfolding reset_tcb_def Let_def ok_bind
proof (rule ok_zero [of _ Q], goal_cases)
  case (4 h1)
  show ?case
  proof (rule ok_init [of _ "Q(TcbWait i := None)"], goal_cases)
    case (4 h2)
    show ?case
    proof (rule ok_init [of _ "Q(TcbWait i := None, TcbHead i \<mapsto> [])"], goal_cases)
      case (4 h3)
      then show ?case
        by (auto simp: blank_tcb_def [abs_def] fun_upd_twist [of "TcbWait i"] intro: exI [of _ h3])
    qed (use l 4 in \<open>auto simp: mapped_def loose_def ring_simps\<close>)
  qed (use l 4 in \<open>auto simp: mapped_def loose_def ring_simps\<close>)
qed (use R l in \<open>auto simp: mapped_def\<close>)

lemma free_task:
  assumes R: "rep h Q" and K: "kinv s Q" and q: "in_ring Q FreeTcb (TcbHead i)"
  shows "i < CFN_MAX_TSKID" and "tskstat (tcbs s i) = TTS_NOEXS" and "Q (TcbWait i) = Some []"
proof -
  show i: "i < CFN_MAX_TSKID" using typed_in_ring [OF kinvD(1) [OF K] q] by simp
  have "v = FreeTcb" if "in_ring Q v (TcbHead i)" for v by (rule rep_in_ring_unique [OF R that q])
  moreover have "Q (TcbHead i) = None" by (rule rep_member_not_owner [OF R q])
  ultimately show "tskstat (tcbs s i) = TTS_NOEXS"
    using kinvD(4) [OF K i] q
    by (auto simp: task_ok_def head_ok_def idle_node_def loose_def split: tskstat.splits)
  then show "Q (TcbWait i) = Some []"
    using kinvD(4) [OF K i] by (simp add: task_ok_def wait_ok_def)
qed

lemma detached_ready:
  assumes "\<And>p. \<not> in_ring Q (ReadyQ p) n"
  shows "detach n Q (ReadyQ p) = (if ReadyQ p = n then None else Q (ReadyQ p))"
proof (cases "Q (ReadyQ p)")
  case (Some xs)
  then have "filter (\<lambda>x. x \<noteq> n) xs = xs" using assms [of p] by (auto simp: in_ring_def filter_id_conv)
  then show ?thesis using Some by (simp add: detach_def)
qed (simp add: detach_def)

text \<open>
  The rule for a task that was on no wait queue and is on none afterwards: only the links of
  its own control block moved.
\<close>

lemma task_moved:
  assumes R: "rep h Q" and K: "kinv s Q" and i: "i < CFN_MAX_TSKID" and own: "Q (TcbWait i) = Some []"
    and T: "typed Q'" and M: "moved i Q Q'" and own': "\<And>q. \<not> in_ring Q' q (TcbWait i)"
    and t: "task_ok (f (tcbs s i)) Q' i"
    and c: "current s = Some i \<or> tskstat (f (tcbs s i)) \<noteq> TTS_RUN"
  shows "kinv (upd_tcb i f s) Q'"
    and "sem_served s Q \<Longrightarrow> sem_served (upd_tcb i f s) Q'"
    and "flg_served s Q \<Longrightarrow> flg_served (upd_tcb i f s) Q'"
proof -
  have "cur_ok (upd_tcb i f s)" using kinvD(3) [OF K] c by (auto simp: cur_ok_def)
  then show "kinv (upd_tcb i f s) Q'" using own' t by (intro kinv_moved [OF K T M]) auto
qed (rule served_moved [OF R K own T M own'], assumption)+

lemma cre_tsk_moved:
  assumes R: "rep h Q" and G: "ginv s Q" and q: "in_ring Q FreeTcb (TcbHead i)"
    and f: "tskid (f (tcbs s i)) = tskid (tcbs s i)" "wupcnt (f (tcbs s i)) = 0"
      "tskstat (f (tcbs s i)) = TTS_DMT" "1 \<le> itskpri (f (tcbs s i))"
      "itskpri (f (tcbs s i)) \<le> int CFN_MAX_PRI"
  shows "ginv (upd_tcb i f s) ((detach (TcbHead i) Q)(TcbHead i \<mapsto> [], TcbWait i \<mapsto> []))"
proof -
  let ?Q = "(detach (TcbHead i) Q)(TcbHead i \<mapsto> [], TcbWait i \<mapsto> [])"
  have K: "kinv s Q" using G by (simp add: ginv_def)
  note F = free_task [OF R K q]
  have w: "\<not> in_ring Q q (TcbWait i)" for q using rep_owner_loose [OF R F(3)] by (simp add: loose_def)
  have T: "typed ?Q" using kinvD(1) [OF K] by (intro typed_intros)
  have M: "moved i Q ?Q" by (intro moved_intros)
  have out: "\<not> in_ring ?Q v (TcbWait i)" for v using w by (simp add: ring_simps)
  have "task_ok (f (tcbs s i)) ?Q i"
    using kinvD(4) [OF K F(1)] f
    by (auto simp: task_ok_def head_ok_def wait_ok_def idle_node_def loose_def ring_simps)
  note P = task_moved [where f = f, OF R K F(1,3) T M out this]
  have "\<not> in_ring Q (ReadyQ p) (TcbHead i)" for p
    using rep_in_ring_unique [OF R q, of "ReadyQ p"] by auto
  then have "top_ready ?Q = top_ready Q" by (intro top_ready_cong) (simp add: detached_ready)
  moreover have "tskstat (tcbs s c) = TTS_RUN \<Longrightarrow> c \<noteq> i" for c using F(2) by auto
  ultimately have "sched_ok (upd_tcb i f s) ?Q" using G by (auto simp: ginv_def sched_ok_def)
  with P f G show ?thesis by (simp add: ginv_def)
qed

text \<open>The packets \<open>tk_cre_tsk\<close> accepts, and the control block it builds from one.\<close>

definition valid_ctsk :: "T_CTSK \<Rightarrow> bool" where
  "valid_ctsk pk \<longleftrightarrow> c_tskatr pk AND NOT VALID_TSKATR = 0 \<and> c_tskatr pk AND TA_USERBUF \<noteq> 0 \<and>
     c_task pk \<noteq> NULL \<and> c_bufptr pk \<noteq> NULL \<and> 1 \<le> c_itskpri pk \<and> c_itskpri pk \<le> int CFN_MAX_PRI \<and>
     uint FRAME_SIZE < c_stksz pk \<and> word_of_int (c_stksz pk) \<le> NOT 0 - c_bufptr pk \<and>
     (c_bufptr pk + word_of_int (c_stksz pk)) mod STACK_ALIGN = 0"

definition new_tcb :: "T_CTSK \<Rightarrow> TCB \<Rightarrow> TCB" where
  "new_tcb pk t = (let e = c_bufptr pk + word_of_int (c_stksz pk) - FRAME_SIZE in
     (blank_tcb t)\<lparr>tskstat := TTS_DMT, sp := e, initial_sp := e, task := c_task pk,
       itskpri := c_itskpri pk, exinf := c_exinf pk\<rparr>)"

definition created_rings :: "nat \<Rightarrow> rings \<Rightarrow> rings" where
  "created_rings i Q = (detach (TcbHead i) Q)(TcbHead i \<mapsto> [], TcbWait i \<mapsto> [])"

lemma tk_cre_tsk_new:
  assumes R: "rep (links s) Q" and G: "ginv s Q" and q: "Q FreeTcb = Some (TcbHead i # ns)" and v: "valid_ctsk pk"
  shows "ok (tk_cre_tsk (Some pk) s) (\<lambda>(r, s'). r = Return (int i + 1) \<and>
    (\<exists>h. s' = (upd_tcb i (new_tcb pk) s)\<lparr>links := h\<rparr> \<and> rep h (created_rings i Q) \<and> ginv s' (created_rings i Q)))"
proof -
  let ?s = "s\<lparr>mstatus := mstatus s AND NOT MSTATUS_MIE\<rparr>"
  have K: "kinv s Q" using G by (simp add: ginv_def)
  have m: "in_ring Q FreeTcb (TcbHead i)" using q by (simp add: in_ring_def)
  note F = free_task [OF R K m]
  have id: "tskid (tcbs s i) = int i + 1" using kinvD(4) [OF K F(1)] by (simp add: task_ok_def)
  have l: "loose (TcbHead i) ((detach (TcbHead i) Q)(TcbHead i \<mapsto> []))"
      "loose (TcbWait i) ((detach (TcbHead i) Q)(TcbHead i \<mapsto> []))"
    using rep_owner_loose [OF R F(3)] by (auto simp: loose_def ring_simps)
  have R0: "rep (links ?s) Q" using R by simp
  have inv: "ginv (upd_tcb i (new_tcb pk) s) (created_rings i Q)"
    unfolding created_rings_def using v
    by (intro cre_tsk_moved [OF R G m]) (simp_all add: blank_tcb_def new_tcb_def Let_def valid_ctsk_def)
  have park: "ok (on_links (tkmc_list_del (TcbHead i)) ?s) (\<lambda>s. ok (on_links (tkmc_init_list_head (TcbHead i)) s)
      (\<lambda>s1. tskid (tcbs s1 i) = int i + 1 \<and> mstatus s1 = mstatus ?s \<and> ok (reset_tcb i s1) (\<lambda>s2.
        \<exists>h. s2 = (upd_tcb i blank_tcb ?s)\<lparr>links := h\<rparr> \<and> rep h (created_rings i Q))))"
  proof (rule ok_park [OF R0 m], goal_cases)
    case (1 h)
    then have "rep (links (?s\<lparr>links := h\<rparr>)) ((detach (TcbHead i) Q)(TcbHead i \<mapsto> []))" by simp
    from reset_tcb_ok [OF this l] id show ?case by (simp add: created_rings_def)
  qed
  have res: "(upd_tcb i f s)\<lparr>links := h, mstatus := mstatus s\<rparr> = (upd_tcb i f s)\<lparr>links := h\<rparr>" for f h
    by (simp add: upd_tcb_def)
  have blk: "(\<lambda>t. (blank_tcb t)\<lparr>tskstat := TTS_DMT, sp := c_bufptr pk + word_of_int (c_stksz pk) - FRAME_SIZE,
      initial_sp := c_bufptr pk + word_of_int (c_stksz pk) - FRAME_SIZE, task := c_task pk,
      itskpri := c_itskpri pk, exinf := c_exinf pk\<rparr>) = new_tcb pk"
    by (simp add: new_tcb_def Let_def fun_eq_iff)
  show ?thesis
    using v unfolding tk_cre_tsk_def valid_ctsk_def
    by (auto simp: tkmc_list_empty_owner [OF R q] get_next_head [OF R q] simp del: ok_on_links
        intro!: ok_crit ok_mono [OF park] elim!: ok_mono)
      (use inv in \<open>auto simp: res blk\<close>)
qed

lemma tk_cre_tsk_refuses:
  assumes "\<not> valid_ctsk pk"
  shows "tk_cre_tsk (Some pk) s = Some (Return (if c_tskatr pk AND NOT VALID_TSKATR \<noteq> 0 \<or> c_tskatr pk AND TA_USERBUF = 0
    then E_RSATR else E_PAR), s)"
proof (cases "c_tskatr pk AND NOT VALID_TSKATR \<noteq> 0 \<or> c_tskatr pk AND TA_USERBUF = 0 \<or> c_task pk = NULL \<or>
    c_bufptr pk = NULL \<or> c_itskpri pk < 1 \<or> c_itskpri pk > int CFN_MAX_PRI \<or> c_stksz pk \<le> uint FRAME_SIZE \<or>
    word_of_int (c_stksz pk) > NOT 0 - c_bufptr pk")
  case True
  then show ?thesis by (auto simp: tk_cre_tsk_def Let_def)
next
  case False
  then have "(c_bufptr pk + word_of_int (c_stksz pk)) mod STACK_ALIGN \<noteq> 0"
    using assms by (simp add: valid_ctsk_def not_less)
  then show ?thesis using False by (simp add: tk_cre_tsk_def Let_def)
qed

lemma tk_cre_tsk_full:
  assumes R: "rep (links s) Q" and q: "Q FreeTcb = Some []" and v: "valid_ctsk pk"
  shows "tk_cre_tsk (Some pk) s = Some (Return E_LIMIT, s)"
  using v tkmc_list_empty_owner [OF R q] unfolding tk_cre_tsk_def valid_ctsk_def
  by (auto simp: Let_def not_le not_less intro!: crit_refuse)

lemma tk_cre_tsk_call_ok:
  assumes "sys_inv s"
  shows "call_ok (tk_cre_tsk pk s) s"
proof (cases pk)
  case (Some c)
  obtain Q where R: "rep (links s) Q" and G: "ginv s Q" using assms by (auto simp: sys_inv_def)
  have K: "kinv s Q" using G by (simp add: ginv_def)
  obtain xs where q: "Q FreeTcb = Some xs" using kinvD(2) [OF K] by (auto simp: static_def)
  show ?thesis
  proof (cases "valid_ctsk c")
    case False
    then show ?thesis using tk_cre_tsk_refuses [OF False, of s] Some assms by (auto simp: call_ok_return)
  next
    case v: True
    show ?thesis
    proof (cases xs)
      case Nil
      then show ?thesis using tk_cre_tsk_full [OF R _ v] q Some assms by (simp add: call_ok_return)
    next
      case (Cons n ns)
      then have "in_ring Q FreeTcb n" using q by (simp add: in_ring_def)
      then obtain i where n: "n = TcbHead i" using typed_in_ring [OF kinvD(1) [OF K]] by (force split: node.splits)
      have "ok (tk_cre_tsk (Some c) s) (\<lambda>(r, s'). r = Return (int i + 1) \<and> (\<exists>h.
          s' = (upd_tcb i (new_tcb c) s)\<lparr>links := h\<rparr> \<and> rep h (created_rings i Q) \<and> ginv s' (created_rings i Q)))"
        using q Cons n by (intro tk_cre_tsk_new [OF R G _ v, of i ns]) simp
      then show ?thesis unfolding Some call_ok_def by (rule ok_mono) (auto intro: sys_inv_links)
    qed
  qed
qed (simp add: tk_cre_tsk_def assms call_ok_return)

section \<open>Starting a task\<close>

lemma sta_tsk_moved:
  assumes R: "rep h Q" and G: "ginv s Q" and i: "i < CFN_MAX_TSKID"
    and d: "tskstat (tcbs s i) = TTS_DMT"
    and f: "tskid (f (tcbs s i)) = tskid (tcbs s i)" "wupcnt (f (tcbs s i)) = 0"
      "tskstat (f (tcbs s i)) = TTS_RDY" "itskpri (f (tcbs s i)) = itskpri (tcbs s i)"
  defines "Q' \<equiv> push (TcbHead i) (ready_node (itskpri (tcbs s i))) (Q(TcbHead i \<mapsto> []))"
  shows "kinv (upd_tcb i f s) Q'" and "sem_served (upd_tcb i f s) Q'" and "flg_served (upd_tcb i f s) Q'"
    and "\<And>c. current s = Some c \<Longrightarrow> \<not> msip s \<Longrightarrow> tskstat (tcbs (upd_tcb i f s) c) = TTS_RUN"
proof -
  have K: "kinv s Q" and S: "sem_served s Q" "flg_served s Q" "sched_ok s Q" using G by (simp_all add: ginv_def)
  note t = kinvD(4) [OF K i]
  have own: "Q (TcbWait i) = Some []" using t d by (simp add: task_ok_def wait_ok_def)
  have w: "\<not> in_ring Q q (TcbWait i)" for q using rep_owner_loose [OF R own] by (simp add: loose_def)
  have p: "1 \<le> itskpri (tcbs s i)" "itskpri (tcbs s i) \<le> int CFN_MAX_PRI" "Q (ready_node (itskpri (tcbs s i))) \<noteq> None"
    using task_pri [OF K i] kinv_ready [OF K i] d by simp_all
  have T: "typed Q'"
    unfolding Q'_def using kinvD(1) [OF K] p i by (intro typed_intros) (auto simp: ring_simps)
  have M: "moved i Q Q'" unfolding Q'_def using p by (intro moved_intros) (auto simp: ring_simps)
  have out: "\<not> in_ring Q' v (TcbWait i)" for v using w p by (simp add: Q'_def ring_simps)
  have "task_ok (f (tcbs s i)) Q' i"
    using t f p own by (auto simp: Q'_def task_ok_def head_ok_def wait_ok_def ring_simps)
  note P = task_moved [where f = f, OF R K i own T M out this]
  show "kinv (upd_tcb i f s) Q'" "sem_served (upd_tcb i f s) Q'" "flg_served (upd_tcb i f s) Q'"
    using P f S by simp_all
  show "tskstat (tcbs (upd_tcb i f s) c) = TTS_RUN" if "current s = Some c" "\<not> msip s" for c
    using S(3) that d by (auto simp: sched_ok_def)
qed

lemma reset_wait_link:
  assumes R: "rep (links s) Q" and own: "Q (TcbWait i) = Some []"
    and P: "\<And>h. rep h Q \<Longrightarrow> P (s\<lparr>links := h\<rparr>)"
  shows "ok (on_links (zero_link (TcbWait i)) s) (\<lambda>s. ok (on_links (tkmc_init_list_head (TcbWait i)) s) P)"
proof (rule ok_zero [OF R], goal_cases)
  case (3 h1)
  have "Q(TcbWait i := None, TcbWait i \<mapsto> []) = Q" using own by auto
  then show ?case
    using P 3 by (intro ok_init [of _ "Q(TcbWait i := None)"])
      (use rep_owner_loose [OF R own] in \<open>auto simp: mapped_def loose_def ring_simps\<close>)
qed (use rep_owner_loose [OF R own] in \<open>simp_all add: mapped_def\<close>)

text \<open>A task that is started, and the rings it is then on.\<close>

definition started_tcb :: "TCB \<Rightarrow> TCB" where
  "started_tcb t = t\<lparr>sp := initial_sp t, tskwait := TTW_NONE, delay_ticks := 0, wupcnt := 0,
     wupcause := E_OK, winfo := WZero, tskstat := TTS_RDY\<rparr>"

definition started_rings :: "nat \<Rightarrow> PRI \<Rightarrow> rings \<Rightarrow> rings" where
  "started_rings i p Q = push (TcbHead i) (ready_node p) (Q(TcbHead i \<mapsto> []))"

definition start_frame :: "nat \<Rightarrow> int \<Rightarrow> kernel \<Rightarrow> addr \<Rightarrow> UW" where
  "start_frame i stacd s = initial_frame (initial_sp (tcbs s i)) (ext_entry s) (task (tcbs s i))
     (word_of_int stacd) (exinf (tcbs s i)) (stack_mem s)"

definition started :: "nat \<Rightarrow> int \<Rightarrow> kernel \<Rightarrow> rings \<Rightarrow> kernel \<Rightarrow> bool" where
  "started i stacd s Q s' \<longleftrightarrow> (let Q' = started_rings i (itskpri (tcbs s i)) Q in
     rep (links s') Q' \<and> ginv s' Q' \<and> tcbs s' = (tcbs s)(i := started_tcb (tcbs s i)) \<and>
     stack_mem s' = start_frame i stacd s \<and> current s' = current s \<and> isr_depth s' = isr_depth s \<and>
     mtime s' = mtime s \<and> clk s' = clk s \<and> ext_entry s' = ext_entry s \<and> semcbs s' = semcbs s \<and>
     flgcbs s' = flgcbs s \<and> mbxcbs s' = mbxcbs s \<and>
     (if current s = None then next_tsk s' = next_tsk s \<and> msip s' = msip s
      else next_tsk s' = top_ready Q' \<and> msip s' = (msip s \<or> top_ready Q' \<noteq> current s)))"

lemma started_mstatus [simp]:
  "started i stacd (s\<lparr>mstatus := m\<rparr>) Q s' = started i stacd s Q s'"
  "started i stacd s Q (s'\<lparr>mstatus := m\<rparr>) = started i stacd s Q s'"
  by (simp_all add: started_def start_frame_def)

lemma sta_tsk_finish:
  assumes R: "rep (links s) Q" and G: "ginv s Q" and i: "i < CFN_MAX_TSKID" and d: "tskstat (tcbs s i) = TTS_DMT"
    and h: "rep h (started_rings i (itskpri (tcbs s i)) Q)"
    and s1: "s1 = (upd_tcb i started_tcb s)\<lparr>stack_mem := start_frame i stacd s, links := h\<rparr>"
  shows "ok (if current s1 \<noteq> None then reschedule s1 else Some s1) (\<lambda>s'. mstatus s' = mstatus s \<and> started i stacd s Q s')"
proof -
  let ?Q = "started_rings i (itskpri (tcbs s i)) Q"
  have M: "kinv (upd_tcb i started_tcb s) ?Q" "sem_served (upd_tcb i started_tcb s) ?Q"
    "flg_served (upd_tcb i started_tcb s) ?Q"
    "\<And>c. current s = Some c \<Longrightarrow> \<not> msip s \<Longrightarrow> tskstat (tcbs (upd_tcb i started_tcb s) c) = TTS_RUN"
    using sta_tsk_moved [OF R G i, of started_tcb] d h by (simp_all add: started_rings_def started_tcb_def)
  show ?thesis
  proof (cases "current s")
    case None
    then have "ginv s1 ?Q" using s1 M by (simp add: ginv_def sched_ok_def)
    then show ?thesis using None h s1 by (simp add: started_def Let_def)
  next
    case (Some c)
    have k: "kinv s1 ?Q" "sem_served s1 ?Q" "flg_served s1 ?Q" "rep (links s1) ?Q" using M h by (simp_all add: s1)
    have "ok (reschedule s1) (\<lambda>s'. sched_ok s' ?Q \<and>
        s' = s1\<lparr>next_tsk := top_ready ?Q, msip := msip s1 \<or> top_ready ?Q \<noteq> current s1\<rparr>)"
      using M(4) by (intro reschedule_ok [OF k(4,1)]) (auto simp: s1)
    then show ?thesis
      using Some h k by (auto simp: started_def Let_def ginv_def s1 elim!: ok_mono)
  qed
qed

lemma tk_sta_tsk_new:
  assumes R: "rep (links s) Q" and G: "ginv s Q" and i: "i < CFN_MAX_TSKID" and d: "tskstat (tcbs s i) = TTS_DMT"
  shows "ok (tk_sta_tsk (int i + 1) stacd s) (\<lambda>(r, s'). r = Return E_OK \<and> mstatus s' = mstatus s \<and> started i stacd s Q s')"
proof -
  have K: "kinv s Q" using G by (simp add: ginv_def)
  have own: "Q (TcbWait i) = Some []" using kinvD(4) [OF K i] d by (simp add: task_ok_def wait_ok_def)
  have idle: "idle_node (TcbHead i) Q" using kinvD(4) [OF K i] d by (simp add: task_ok_def head_ok_def)
  let ?p = "itskpri (tcbs s i)" and ?s = "s\<lparr>mstatus := mstatus s AND NOT MSTATUS_MIE\<rparr>"
  have p: "1 \<le> ?p" "?p \<le> int CFN_MAX_PRI" "Q (ready_node ?p) \<noteq> None"
    using task_pri [OF K i] kinv_ready [OF K i] d by simp_all
  have "ok (on_links (zero_link (TcbWait i)) (upd_tcb i (\<lambda>t. t\<lparr>sp := initial_sp t, tskwait := TTW_NONE, delay_ticks := 0,
        wupcnt := 0, wupcause := E_OK, winfo := WZero\<rparr>) ?s)) (\<lambda>s1. ok (on_links (tkmc_init_list_head (TcbWait i)) s1) (\<lambda>s1.
      let s1 = upd_tcb i (\<lambda>t. t\<lparr>tskstat := TTS_RDY\<rparr>) (s1\<lparr>stack_mem := initial_frame (sp (tcbs s1 i)) (ext_entry s1) (task (tcbs s1 i))
              (word_of_int stacd) (exinf (tcbs s1 i)) (stack_mem s1)\<rparr>) in
      ok (on_links (tkmc_init_list_head (TcbHead i)) s1) (\<lambda>s1. itskpri (tcbs s1 i) = ?p \<and>
      ok (on_links (tkmc_list_add_tail (TcbHead i) (ready_node ?p)) s1) (\<lambda>s1.
      ok (if current s1 \<noteq> None then reschedule s1 else Some s1) (\<lambda>s'. mstatus s' = mstatus ?s \<and> started i stacd ?s Q s')))))"
  proof (rule reset_wait_link [of _ Q], goal_cases)
    case (3 h)
    show ?case unfolding Let_def
    proof (rule ok_init [of _ Q], goal_cases)
      case (4 h1)
      have "ok (on_links (tkmc_list_add_tail (TcbHead i) (ready_node ?p))
          ((upd_tcb i started_tcb ?s)\<lparr>stack_mem := start_frame i stacd ?s, links := h1\<rparr>)) (\<lambda>s1.
          ok (if current s1 \<noteq> None then reschedule s1 else Some s1) (\<lambda>s'. mstatus s' = mstatus ?s \<and> started i stacd ?s Q s'))"
      proof (rule ok_add_tail [of _ "Q(TcbHead i \<mapsto> [])"], goal_cases)
        case (6 h2)
        then show ?case using R G d by (intro sta_tsk_finish [of ?s Q i h2]) (simp_all add: i started_rings_def)
      qed (use 4 idle p in \<open>auto simp: mapped_def idle_node_def loose_def ring_simps\<close>)
      then show ?case
        by (simp add: started_tcb_def [abs_def] start_frame_def del: ok_on_links)
    qed (use 3 idle in \<open>simp_all add: mapped_def idle_node_def\<close>)
  qed (use R own in simp_all)
  then have "ok (tk_sta_tsk (int i + 1) stacd s) (\<lambda>(r, s'). r = Return E_OK \<and> mstatus s' = mstatus s \<and> started i stacd s Q s')"
    unfolding tk_sta_tsk_def using i d p
    by (auto simp: tkmc_id_in_range_def ready_queue_def Let_def simp del: ok_on_links intro!: ok_crit
        elim!: ok_mono)
  then show ?thesis .
qed

lemma tk_sta_tsk_refuses:
  assumes "\<not> (tkmc_id_in_range objid (int CFN_MAX_TSKID) \<and> tskstat (tcbs s (nat (objid - 1))) = TTS_DMT)"
  shows "tk_sta_tsk objid stacd s = Some (Return (if \<not> tkmc_id_in_range objid (int CFN_MAX_TSKID) then E_ID
    else if tskstat (tcbs s (nat (objid - 1))) = TTS_NOEXS then E_NOEXS else E_OBJ), s)"
  using assms by (auto simp: tk_sta_tsk_def Let_def intro!: crit_refuse)

lemma tk_sta_tsk_call_ok:
  assumes "sys_inv s"
  shows "call_ok (tk_sta_tsk objid stacd s) s"
proof (cases "tkmc_id_in_range objid (int CFN_MAX_TSKID) \<and> tskstat (tcbs s (nat (objid - 1))) = TTS_DMT")
  case False
  then show ?thesis by (simp only: tk_sta_tsk_refuses call_ok_return [OF assms] simp_thms)
next
  case True
  obtain Q where R: "rep (links s) Q" and G: "ginv s Q" using assms by (auto simp: sys_inv_def)
  have i: "nat (objid - 1) < CFN_MAX_TSKID" "int (nat (objid - 1)) + 1 = objid"
    using id_in_range_index [of objid CFN_MAX_TSKID] True by auto
  have d: "tskstat (tcbs s (nat (objid - 1))) = TTS_DMT" using True by simp
  show ?thesis
    using tk_sta_tsk_new [OF R G i(1) d, of stacd] unfolding i(2) call_ok_def
    by (rule ok_mono) (auto simp: started_def Let_def intro: sys_invI)
qed

section \<open>The running task gives up the processor\<close>

definition running :: "kernel \<Rightarrow> nat \<Rightarrow> bool" where
  "running s c \<longleftrightarrow> current s = Some c \<and> tskstat (tcbs s c) = TTS_RUN"

lemma running_links:
  assumes K: "kinv s Q" and c: "running s c"
  shows "c < CFN_MAX_TSKID" and "in_ring Q (ready_node (itskpri (tcbs s c))) (TcbHead c)"
    and "Q (TcbWait c) = Some []" and "1 \<le> itskpri (tcbs s c)" "itskpri (tcbs s c) \<le> int CFN_MAX_PRI"
    and "Q (ready_node (itskpri (tcbs s c))) \<noteq> None"
proof -
  show i: "c < CFN_MAX_TSKID" using kinvD(3) [OF K] c by (simp add: cur_ok_def running_def)
  show "in_ring Q (ready_node (itskpri (tcbs s c))) (TcbHead c)" "Q (TcbWait c) = Some []"
    "1 \<le> itskpri (tcbs s c)" "itskpri (tcbs s c) \<le> int CFN_MAX_PRI"
    "Q (ready_node (itskpri (tcbs s c))) \<noteq> None"
    using kinvD(4) [OF K i] kinv_ready [OF K i] c
    by (simp_all add: task_ok_def head_ok_def wait_ok_def running_def)
qed

text \<open>
  The running task changes its state and its head link goes to another queue, or to none.
\<close>

lemma running_moved:
  assumes R: "rep h Q" and G: "ginv s Q" and c: "running s c"
    and T: "typed Q'" and M: "moved c (detach (TcbHead c) Q) Q'"
    and own: "Q' (TcbWait c) = Some []" and R': "rep h' Q'"
    and t: "task_ok (f (tcbs s c)) Q' c"
  shows "kinv (upd_tcb c f s) Q'" and "sem_served (upd_tcb c f s) Q'" and "flg_served (upd_tcb c f s) Q'"
proof -
  have K: "kinv s Q" and S: "sem_served s Q" "flg_served s Q" using G by (simp_all add: ginv_def)
  note L = running_links [OF K c]
  have M': "moved c Q Q'" by (rule moved_trans [OF moved_detach M]) simp_all
  have out: "\<not> in_ring Q' v (TcbWait c)" for v using rep_owner_loose [OF R' own] by (simp add: loose_def)
  have "current s = Some c \<or> tskstat (f (tcbs s c)) \<noteq> TTS_RUN" using c by (simp add: running_def)
  note P = task_moved [where f = f, OF R K L(1,3) T M' out t this]
  show "kinv (upd_tcb c f s) Q'" "sem_served (upd_tcb c f s) Q'" "flg_served (upd_tcb c f s) Q'"
    using P S by simp_all
qed

lemma tkmc_yield_call_ok:
  assumes "sys_inv s" and c: "running s c"
  shows "call_ok (tkmc_yield s) s"
proof -
  have cur: "current s = Some c" using c by (simp add: running_def)
  show ?thesis
    unfolding tkmc_yield_def Let_def
  proof (simp add: cur del: ok_on_links, intro crit_call_ok assms, goal_cases)
    case (1 s0 Q)
    note R = 1(2) and G = 1(3)
    have K: "kinv s0 Q" using G by (simp add: ginv_def)
    have c0: "running s0 c" and p: "itskpri (tcbs s c) = itskpri (tcbs s0 c)"
      using c 1 by (simp_all add: running_def)
    note L = running_links [OF K c0]
    let ?q = "ready_node (itskpri (tcbs s0 c))"
    let ?Q = "push (TcbHead c) ?q (detach (TcbHead c) Q)"
    have T: "typed ?Q" using kinvD(1) [OF K] L by (intro typed_intros) (auto simp: ring_simps)
    have M: "moved c (detach (TcbHead c) Q) ?Q" using L by (intro moved_intros) (auto simp: ring_simps)
    have own: "?Q (TcbWait c) = Some []" using L by (simp add: ring_simps)
    have t: "task_ok (tcbs s0 c) ?Q c"
      using L kinvD(4) [OF K L(1)] c0
      by (auto simp: task_ok_def head_ok_def wait_ok_def running_def ring_simps)
    show ?case
    proof (simp add: p ready_queue_def L(4) L(5) [simplified] del: ok_on_links, rule ok_del [OF R L(2)],
        rule ok_add_tail [of _ "detach (TcbHead c) Q"], goal_cases)
      case (6 h1 h2)
      have "upd_tcb c (\<lambda>t. t) s0 = s0" by (simp add: upd_tcb_def)
      with running_moved [where f = "\<lambda>t. t", OF R G c0 T M own 6(2) t]
      have P: "kinv s0 ?Q" "sem_served s0 ?Q" "flg_served s0 ?Q" by simp_all
      show ?case
        using reschedule_inv [of "s0\<lparr>links := h2\<rparr>" ?Q] 6(2) P c0 by (simp add: running_def)
    qed (use L in \<open>auto simp: mapped_def ring_simps\<close>)
  qed
qed

section \<open>Ending the running task\<close>

lemma can_block_runs:
  assumes "ginv s0 Q" and "s0 = s\<lparr>mstatus := m\<rparr>" and "settled s"
    and "tkmc_can_block (mstatus s OR NOT MSTATUS_MIE) s0"
  shows "\<exists>c. running s0 c"
  using can_block_running [OF assms] by (auto simp: running_def)

lemma fatal_context_inv:
  assumes "sys_inv s"
  shows "sys_inv (s\<lparr>last_context_failure := x\<rparr>)"
proof -
  from assms obtain Q where Q: "rep (links s) Q" "ginv s Q" by (auto simp: sys_inv_def)
  have "kinv (s\<lparr>last_context_failure := x\<rparr>) Q = kinv s Q" by (rule kinv_cong) simp_all
  moreover have "sem_served (s\<lparr>last_context_failure := x\<rparr>) Q = sem_served s Q"
    by (rule sem_served_cong) simp_all
  ultimately have "ginv (s\<lparr>last_context_failure := x\<rparr>) Q"
    using Q by (simp add: ginv_def flg_served_def sched_ok_def)
  with Q show ?thesis by (auto intro: sys_invI)
qed

lemma mask_twice: "(m AND NOT MSTATUS_MIE) AND NOT MSTATUS_MIE = m AND NOT MSTATUS_MIE"
  by (simp add: ac_simps)

lemma tk_ext_tsk_call_ok:
  assumes "sys_inv s" and "settled s"
  shows "call_ok (tk_ext_tsk s) s"
  unfolding tk_ext_tsk_def Let_def
proof (intro crit_call_ok assms, goal_cases)
  case (1 s0 Q)
  note R = 1(2) and G = 1(3)
  have K: "kinv s0 Q" using G by (simp add: ginv_def)
  show ?case
  proof (cases "tkmc_can_block (mstatus s OR NOT MSTATUS_MIE) s0")
    case False
    then show ?thesis
      using sys_invI [OF R G] 1(1) by (simp add: tkmc_fatal_context_def fatal_context_inv mask_twice)
  next
    case True
    obtain c where c: "running s0 c" using can_block_runs [OF G 1(1) assms(2) True] by blast
    note L = running_links [OF K c]
    let ?Q = "detach (TcbHead c) Q" and ?f = "\<lambda>t. t\<lparr>tskstat := TTS_DMT, tskwait := TTW_NONE\<rparr>"
    have T: "typed ?Q" using kinvD(1) [OF K] by (rule typed_detach)
    have own: "?Q (TcbWait c) = Some []" using L by (simp add: ring_simps)
    have t: "task_ok (?f (tcbs s0 c)) ?Q c"
      using kinvD(4) [OF K L(1)] L own by (simp add: task_ok_def head_ok_def wait_ok_def)
    have cur: "current s0 = Some c" using c by (simp add: running_def)
    show ?thesis
    proof (simp add: cur True del: ok_on_links, intro ok_del [OF R L(2)], goal_cases)
      case (1 h)
      note P = running_moved [where f = ?f, OF R G c T moved_refl own 1 t]
      show ?case
        using switch_away_inv [of "(upd_tcb c ?f s0)\<lparr>links := h\<rparr>" ?Q] 1 P by simp
    qed
  qed
qed

lemma tk_exd_tsk_call_ok:
  assumes "sys_inv s" and "settled s"
  shows "call_ok (tk_exd_tsk s) s"
  unfolding tk_exd_tsk_def Let_def
proof (intro crit_call_ok assms, goal_cases)
  case (1 s0 Q)
  note R = 1(2) and G = 1(3)
  have K: "kinv s0 Q" using G by (simp add: ginv_def)
  show ?case
  proof (cases "tkmc_can_block (mstatus s OR NOT MSTATUS_MIE) s0")
    case False
    then show ?thesis
      using sys_invI [OF R G] 1(1) by (simp add: tkmc_fatal_context_def fatal_context_inv mask_twice)
  next
    case True
    obtain c where c: "running s0 c" using can_block_runs [OF G 1(1) assms(2) True] by blast
    note L = running_links [OF K c]
    have free: "Q FreeTcb \<noteq> None" using kinvD(2) [OF K] by (simp add: static_def)
    let ?Q = "push (TcbHead c) FreeTcb (detach (TcbHead c) Q)" and ?f = "\<lambda>t. t\<lparr>tskstat := TTS_NOEXS\<rparr>"
    have T: "typed ?Q" using kinvD(1) [OF K] L free by (intro typed_intros) (auto simp: ring_simps)
    have M: "moved c (detach (TcbHead c) Q) ?Q" using free by (intro moved_intros) (auto simp: ring_simps)
    have own: "?Q (TcbWait c) = Some []" using L by (simp add: ring_simps)
    have t: "task_ok (?f (tcbs s0 c)) ?Q c"
      using kinvD(4) [OF K L(1)] own free by (auto simp: task_ok_def head_ok_def wait_ok_def ring_simps)
    have cur: "current s0 = Some c" using c by (simp add: running_def)
    show ?thesis
    proof (simp add: cur True del: ok_on_links, intro ok_del [OF R L(2)], simp del: ok_on_links,
        rule ok_add_tail [of _ "detach (TcbHead c) Q"], goal_cases)
      case (6 h h1)
      note P = running_moved [where f = ?f, OF R G c T M own 6(2) t]
      show ?case
        using switch_away_inv [of "(upd_tcb c ?f s0)\<lparr>links := h1\<rparr>" ?Q] 6(2) P by simp
    qed (use free in \<open>auto simp: mapped_def ring_simps\<close>)
  qed
qed

section \<open>Releasing and waking\<close>

text \<open>
  What ending the wait of a task leaves in the control blocks: the task is ready with its cause,
  and a waiter that gave up units of a semaphore may have let others through.
\<close>

definition wait_ended :: "nat \<Rightarrow> ER \<Rightarrow> kernel \<Rightarrow> kernel \<Rightarrow> bool" where
  "wait_ended i cause s s' \<longleftrightarrow> tcbs s' i = wake_tcb cause (tcbs s i) \<and>
     (\<forall>k. k \<noteq> i \<longrightarrow> tcbs s' k = tcbs s k \<or> hands_on s i cause \<and> tskstat (tcbs s k) = TTS_WAI \<and>
        tskwait (tcbs s k) = TTW_SEM \<and> tcbs s' k = wake_tcb E_OK (tcbs s k))"

lemma wait_ended_mstatus [simp]:
  "wait_ended i cause (s\<lparr>mstatus := m\<rparr>) s' = wait_ended i cause s s'"
  "wait_ended i cause s (s'\<lparr>mstatus := m\<rparr>) = wait_ended i cause s s'"
  by (simp_all add: wait_ended_def hands_on_def)

lemma completed_ended: "completed s Q i cause s' Q' \<Longrightarrow> wait_ended i cause s s'"
proof (cases "hands_on s i cause")
  case False
  assume "completed s Q i cause s' Q'"
  then show ?thesis using completed_alone(3) [of s Q i cause s' Q'] False by (simp add: wait_ended_def)
qed (auto simp: completed_def wait_ended_def)

lemma complete_reschedule:
  assumes R: "rep (links s) Q" and G: "ginv s Q" and i: "i < CFN_MAX_TSKID"
    and w: "tskstat (tcbs s i) = TTS_WAI" and h: "tskwait (tcbs s i) = TTW_SEM \<longrightarrow> hands_on s i cause"
  shows "ok (tkmc_complete_wait i cause s) (\<lambda>s1. ok (reschedule s1)
    (\<lambda>s'. mstatus s' = mstatus s \<and> sys_inv s' \<and> wait_ended i cause s s'))"
proof -
  have K: "kinv s Q" and S: "sem_served s Q" "flg_served s Q" "sched_ok s Q" using G by (simp_all add: ginv_def)
  have "ok (reschedule s1) (\<lambda>s'. mstatus s' = mstatus s \<and> sys_inv s' \<and> wait_ended i cause s s')"
    if X: "completed s Q i cause s1 Q1" for s1 Q1
  proof (rule ok_mono [OF woken_reschedule [of s Q s1 Q1]])
    show "woken s Q s1 Q1" "sem_served s1 Q1" using X h S by (simp_all add: completed_def)
  qed (use S completed_ended [OF X] in \<open>auto simp: wait_ended_def intro: sys_invI\<close>)
  then show ?thesis
    by (intro ok_mono [OF tkmc_complete_wait_ok [OF R K i w, of cause]]) blast
qed

definition rel_wai_result :: "ID \<Rightarrow> kernel \<Rightarrow> ER outcome \<Rightarrow> kernel \<Rightarrow> bool" where
  "rel_wai_result objid s r s' \<longleftrightarrow> (let i = nat (objid - 1) in
     if \<not> tkmc_id_in_range objid (int CFN_MAX_TSKID) then r = Return E_ID \<and> s' = s
     else if tskstat (tcbs s i) = TTS_NOEXS then r = Return E_NOEXS \<and> s' = s
     else if current s = Some i \<or> tskstat (tcbs s i) \<noteq> TTS_WAI then r = Return E_OBJ \<and> s' = s
     else r = Return E_OK \<and> wait_ended i E_RLWAI s s')"

lemma rel_wai_result_unmask:
  "rel_wai_result objid (s\<lparr>mstatus := m\<rparr>) r s' \<Longrightarrow> rel_wai_result objid s r (s'\<lparr>mstatus := mstatus s\<rparr>)"
  by (auto simp: rel_wai_result_def Let_def split: if_split_asm)

lemma tk_rel_wai_ok:
  assumes I: "sys_inv s"
  shows "ok (tk_rel_wai objid s) (\<lambda>(r, s'). sys_inv s' \<and> mstatus s' = mstatus s \<and> rel_wai_result objid s r s')"
  unfolding tk_rel_wai_def Let_def
proof (intro ok_ifI, goal_cases)
  case ids: 2
  define i where "i = nat (objid - 1)"
  have i: "i < CFN_MAX_TSKID" using id_in_range_index [of objid CFN_MAX_TSKID] ids by (auto simp: i_def)
  show ?case
    unfolding i_def [symmetric]
  proof (rule crit_result [where P = "rel_wai_result objid", OF I _ rel_wai_result_unmask], goal_cases)
    case (1 s0 Q)
    have h: "tskwait (tcbs s0 i) = TTW_SEM \<longrightarrow> hands_on s0 i E_RLWAI" by (simp add: hands_on_def)
    show ?case
      using complete_reschedule [OF 1(2,3) i _ h] sys_invI [OF 1(2,3)] ids
      by (auto simp: rel_wai_result_def i_def [symmetric] er_defs)
  qed
qed (use I in \<open>simp add: rel_wai_result_def\<close>)

lemma tk_rel_wai_call_ok:
  assumes "sys_inv s"
  shows "call_ok (tk_rel_wai objid s) s"
  by (rule result_call_ok [OF tk_rel_wai_ok [OF assms]])

lemma queue_wakeup_inv:
  assumes "rep (links s) Q" and "ginv s Q" and "i < CFN_MAX_TSKID" and "wupcnt (tcbs s i) < TK_WAKEUP_MAXCNT"
  shows "sys_inv (upd_tcb i (\<lambda>t. t\<lparr>wupcnt := wupcnt t + 1\<rparr>) s)"
  using assms by (intro upd_plain_inv [OF assms(1,2)]) (simp_all add: same_task_def same_wait_def inc_le)

definition wup_tsk_result :: "ID \<Rightarrow> kernel \<Rightarrow> ER outcome \<Rightarrow> kernel \<Rightarrow> bool" where
  "wup_tsk_result objid s r s' \<longleftrightarrow> (let i = nat (objid - 1); t = tcbs s i in
     if \<not> tkmc_id_in_range objid (int CFN_MAX_TSKID) then r = Return E_ID \<and> s' = s
     else if current s = Some i \<and> \<not> tkmc_in_isr s then r = Return E_OBJ \<and> s' = s
     else if tskstat t = TTS_NOEXS then r = Return E_NOEXS \<and> s' = s
     else if tskstat t \<notin> {TTS_WAI, TTS_RDY, TTS_RUN} then r = Return E_OBJ \<and> s' = s
     else if tskstat t = TTS_WAI \<and> tskwait t = TTW_SLP then
       r = Return E_OK \<and> tcbs s' = (tcbs s)(i := wake_tcb E_OK t)
     else if wupcnt t < TK_WAKEUP_MAXCNT then r = Return E_OK \<and> s' = upd_tcb i (\<lambda>t. t\<lparr>wupcnt := wupcnt t + 1\<rparr>) s
     else r = Return E_QOVR \<and> s' = s)"

lemma wup_tsk_result_unmask:
  "wup_tsk_result objid (s\<lparr>mstatus := m\<rparr>) r s' \<Longrightarrow> wup_tsk_result objid s r (s'\<lparr>mstatus := mstatus s\<rparr>)"
  by (auto simp: wup_tsk_result_def Let_def tkmc_in_isr_def upd_tcb_def split: if_split_asm)

lemma wait_ended_alone:
  "wait_ended i cause s s' \<Longrightarrow> \<not> hands_on s i cause \<Longrightarrow> tcbs s' = (tcbs s)(i := wake_tcb cause (tcbs s i))"
  by (auto simp: wait_ended_def)

lemma tk_wup_tsk_ok:
  assumes I: "sys_inv s"
  shows "ok (tk_wup_tsk objid s) (\<lambda>(r, s'). sys_inv s' \<and> mstatus s' = mstatus s \<and> wup_tsk_result objid s r s')"
  unfolding tk_wup_tsk_def Let_def
proof (intro ok_ifI, goal_cases)
  case ids: 2
  define i where "i = nat (objid - 1)"
  have i: "i < CFN_MAX_TSKID" using id_in_range_index [of objid CFN_MAX_TSKID] ids by (auto simp: i_def)
  show ?case
    unfolding i_def [symmetric]
  proof (rule crit_result [where P = "wup_tsk_result objid", OF I _ wup_tsk_result_unmask], goal_cases)
    case (1 s0 Q)
    note inv = sys_invI [OF 1(2,3)] queue_wakeup_inv [OF 1(2,3) i]
    show ?case
    proof (cases "tskstat (tcbs s0 i) = TTS_WAI \<and> tskwait (tcbs s0 i) = TTW_SLP \<and> (current s0 = Some i \<longrightarrow> tkmc_in_isr s0)")
      case True
      have "\<not> hands_on s0 i E_OK" using True by (simp add: hands_on_def)
      then have "ok (tkmc_complete_wait i E_OK s0) (\<lambda>s1. ok (reschedule s1)
          (\<lambda>s'. mstatus s' = mstatus s0 \<and> sys_inv s' \<and> wup_tsk_result objid s0 (Return E_OK) s'))"
        using True ids
        by (intro ok_mono [OF complete_reschedule [OF 1(2,3) i, of E_OK]])
          (auto elim!: ok_mono dest: wait_ended_alone simp: wup_tsk_result_def i_def [symmetric])
      then show ?thesis using True by auto
    next
      case False
      then show ?thesis
        using ids inv
        by (cases "tskstat (tcbs s0 i)"; cases "current s0 = Some i"; cases "tkmc_in_isr s0")
          (simp_all add: wup_tsk_result_def i_def [symmetric] queue_wakeup_def Let_def)
    qed
  qed
qed (use I in \<open>simp add: wup_tsk_result_def\<close>)

lemma tk_wup_tsk_call_ok:
  assumes "sys_inv s"
  shows "call_ok (tk_wup_tsk objid s) s"
  by (rule result_call_ok [OF tk_wup_tsk_ok [OF assms]])

end
