(* ===== verification/TK_Timer.thy ===== *)
theory TK_Timer
  imports TK_Task
begin

text \<open>
  The timer of \<^verbatim>\<open>kernel/timer.c\<close>: reading and setting the machine timer, the timer
  interrupt, the timer queue, and the two calls that wait for time to pass.

  An access to the time register finds the value that the clock \<open>mtime\<close> has at that instant, and
  the next access comes at the next instant; other code lets any number of instants pass. What the
  code relies on is stated as \<open>clock_ok\<close>: the time does not go back, and it advances by far less than
  a tick between two instants in a row.
\<close>

section \<open>The machine timer\<close>

definition TICK_COUNTS :: UD where "TICK_COUNTS = 100000"

definition in_mtime_high :: "kernel \<Rightarrow> UW \<times> kernel" where
  "in_mtime_high s = (ucast (drop_bit 32 (mtime s (clk s))), s\<lparr>clk := Suc (clk s)\<rparr>)"

definition in_mtime_low :: "kernel \<Rightarrow> UW \<times> kernel" where
  "in_mtime_low s = (ucast (mtime s (clk s)), s\<lparr>clk := Suc (clk s)\<rparr>)"

partial_function (option) read_mtime :: "kernel \<Rightarrow> (UD \<times> kernel) option" where
  "read_mtime s = (let
       (high, s) = in_mtime_high s;
       (low, s) = in_mtime_low s;
       (next_high, s) = in_mtime_high s
     in if high \<noteq> next_high then read_mtime s
        else Some (push_bit 32 (ucast high) OR ucast low, s))"

definition out_mtimecmp_low :: "UW \<Rightarrow> kernel \<Rightarrow> kernel" where
  "out_mtimecmp_low v s =
     s\<lparr>mtimecmp_reg := push_bit 32 (drop_bit 32 (mtimecmp_reg s)) OR ucast v\<rparr>"

definition out_mtimecmp_high :: "UW \<Rightarrow> kernel \<Rightarrow> kernel" where
  "out_mtimecmp_high v s = s\<lparr>mtimecmp_reg := push_bit 32 (ucast v) OR take_bit 32 (mtimecmp_reg s)\<rparr>"

text \<open>The compare register after each of the three writes of \<open>write_mtimecmp\<close>.\<close>

definition write_mtimecmp_steps :: "UD \<Rightarrow> kernel \<Rightarrow> kernel list" where
  "write_mtimecmp_steps v s = (let
       s1 = out_mtimecmp_low 0xffffffff s;
       s2 = out_mtimecmp_high (ucast (drop_bit 32 v)) s1;
       s3 = out_mtimecmp_low (ucast v) s2
     in [s1, s2, s3])"

definition write_mtimecmp :: "UD \<Rightarrow> kernel \<Rightarrow> kernel" where
  "write_mtimecmp v s = last (write_mtimecmp_steps v s)"

partial_function (option) pass_periods :: "UD \<Rightarrow> UINT \<Rightarrow> kernel \<Rightarrow> (UINT \<times> UD \<times> kernel) option" where
  "pass_periods mtimecmp periods s = do {
     (now, s) \<leftarrow> read_mtime s;
     if now \<ge> mtimecmp then pass_periods (mtimecmp + TICK_COUNTS) (periods + 1) s
     else Some (periods, mtimecmp, s) }"

definition pass_elapsed_periods :: "UD \<Rightarrow> kernel \<Rightarrow> (UINT \<times> UD \<times> kernel) option" where
  "pass_elapsed_periods mtimecmp s = pass_periods mtimecmp 0 s"

definition tkmc_init_timer :: "kernel \<Rightarrow> kernel option" where
  "tkmc_init_timer = on_links (tkmc_init_list_head TimerQ)"

definition tkmc_start_timer :: "kernel \<Rightarrow> kernel option" where
  "tkmc_start_timer s = do {
     (now, s) \<leftarrow> read_mtime s;
     let mtimecmp = now + TICK_COUNTS;
     let s = s\<lparr>s_mtimecmp := mtimecmp\<rparr>;
     Some (write_mtimecmp mtimecmp s) }"

section \<open>The timer interrupt\<close>

partial_function (option) first_deadline_from ::
  "node \<Rightarrow> nat option \<Rightarrow> kernel \<Rightarrow> nat option option" where
  "first_deadline_from pos first s =
     (if pos = TimerQ then Some first
      else do {
        i \<leftarrow> tcb_of_head pos;
        let first = (case first of None \<Rightarrow> Some i
          | Some f \<Rightarrow> if delay_ticks (tcbs s i) < delay_ticks (tcbs s f) then Some i else Some f);
        n \<leftarrow> get_next pos (links s);
        first_deadline_from n first s })"

definition first_deadline :: "kernel \<Rightarrow> nat option option" where
  "first_deadline s = do { pos \<leftarrow> get_next TimerQ (links s); first_deadline_from pos None s }"

partial_function (option) tick_from :: "UINT \<Rightarrow> node \<Rightarrow> kernel \<Rightarrow> kernel option" where
  "tick_from step pos s =
     (if pos = TimerQ then Some s
      else do {
        i \<leftarrow> tcb_of_head pos;
        let s = upd_tcb i (\<lambda>t. t\<lparr>delay_ticks := delay_ticks t - step\<rparr>) s;
        n \<leftarrow> get_next pos (links s);
        tick_from step n s })"

partial_function (option) expire :: "UINT \<Rightarrow> bool \<Rightarrow> kernel \<Rightarrow> (bool \<times> kernel) option" where
  "expire periods ended s = do {
     first \<leftarrow> first_deadline s;
     (case first of None \<Rightarrow> Some (ended, s)
      | Some f \<Rightarrow> do {
          let ticks = delay_ticks (tcbs s f);
          let step = (if ticks < periods then ticks else periods);
          pos \<leftarrow> get_next TimerQ (links s);
          s \<leftarrow> tick_from step pos s;
          let periods = periods - step;
          if ticks > step then Some (ended, s)
          else do {
            s \<leftarrow> tkmc_complete_wait f E_TMOUT s;
            expire periods True s } }) }"

definition tkmc_timer_handler :: "kernel \<Rightarrow> kernel option" where
  "tkmc_timer_handler s = do {
     (periods, mtimecmp, s) \<leftarrow> pass_elapsed_periods (s_mtimecmp s) s;
     if periods = 0 then Some s
     else do {
       let s = s\<lparr>s_mtimecmp := mtimecmp\<rparr>;
       let s = write_mtimecmp mtimecmp s;
       (ended, s) \<leftarrow> expire periods False s;
       if ended then reschedule s else Some s } }"

section \<open>Waiting for time to pass\<close>

definition tkmc_schedule_timer :: "nat \<Rightarrow> UINT \<Rightarrow> tskwait \<Rightarrow> kernel \<Rightarrow> kernel option" where
  "tkmc_schedule_timer i ticks w s = do {
     let mtimecmp = s_mtimecmp s;
     let s = upd_tcb i (\<lambda>t. t\<lparr>tskstat := TTS_WAI, tskwait := w\<rparr>) s;
     (periods, _, s) \<leftarrow> pass_elapsed_periods mtimecmp s;
     let s = upd_tcb i (\<lambda>t. t\<lparr>delay_ticks := ticks + periods\<rparr>) s;
     s \<leftarrow> on_links (tkmc_list_del (TcbHead i)) s;
     s \<leftarrow> on_links (tkmc_list_add_tail (TcbHead i) TimerQ) s;
     switch_away s }"

text \<open>
  The wait without a time limit, which \<open>tk_slp_tsk\<close>, \<open>tk_wai_sem\<close>, \<open>tk_wai_flg\<close>
  and \<open>tk_rcv_mbx\<close> write out alike, and the choice that each makes between the two.
\<close>

definition wait_for_ever :: "nat \<Rightarrow> tskwait \<Rightarrow> kernel \<Rightarrow> kernel option" where
  "wait_for_ever i w s = do {
     let s = upd_tcb i (\<lambda>t. t\<lparr>tskstat := TTS_WAI, tskwait := w, delay_ticks := 0\<rparr>) s;
     s \<leftarrow> on_links (tkmc_list_del (TcbHead i)) s;
     s \<leftarrow> on_links (tkmc_init_list_head (TcbHead i)) s;
     switch_away s }"

definition start_wait :: "nat \<Rightarrow> tskwait \<Rightarrow> TMO \<Rightarrow> kernel \<Rightarrow> kernel option" where
  "start_wait i w tmout s =
     (if tmout > 0 then tkmc_schedule_timer i (tkmc_ms_to_ticks (word_of_int tmout)) w s
      else wait_for_ever i w s)"

text \<open>The end of a wait, in the task that waited: it takes the cause and clears it.\<close>

definition take_wupcause :: "kernel \<Rightarrow> (ER outcome \<times> kernel) option" where
  "take_wupcause = crit (\<lambda>_ s. do {
     c \<leftarrow> current s;
     let ercd = wupcause (tcbs s c);
     Some (Return ercd, upd_tcb c (\<lambda>t. t\<lparr>wupcause := E_OK\<rparr>) s) })"

definition tk_dly_tsk :: "RELTIM \<Rightarrow> kernel \<Rightarrow> (ER outcome \<times> kernel) option" where
  "tk_dly_tsk dlytm s = do {
     (r, s) \<leftarrow> crit (\<lambda>intsts s.
       if \<not> tkmc_can_block intsts s then Some (Return E_CTX, s)
       else if dlytm = 0 then Some (Return E_OK, s)
       else do {
         c \<leftarrow> current s;
         s \<leftarrow> tkmc_schedule_timer c (tkmc_ms_to_ticks dlytm) TTW_DLY s;
         Some (Block, s) }) s;
     if r = Return E_OK then do {
       (_, s) \<leftarrow> tkmc_yield s;
       Some (Return E_OK, s) }
     else Some (r, s) }"

definition tk_dly_tsk_resume :: "kernel \<Rightarrow> (ER outcome \<times> kernel) option" where
  "tk_dly_tsk_resume s = do {
     (r, s) \<leftarrow> take_wupcause s;
     Some (if r = Return E_TMOUT then Return E_OK else r, s) }"

definition tk_slp_tsk :: "TMO \<Rightarrow> kernel \<Rightarrow> (ER outcome \<times> kernel) option" where
  "tk_slp_tsk tmout s =
     (if tmout < TMO_FEVR then Some (Return E_PAR, s)
      else crit (\<lambda>intsts s.
        if \<not> tkmc_can_block intsts s then Some (Return E_CTX, s)
        else do {
          c \<leftarrow> current s;
          if wupcnt (tcbs s c) > 0 then
            Some (Return E_OK, upd_tcb c (\<lambda>t. t\<lparr>wupcnt := wupcnt t - 1\<rparr>) s)
          else if tmout > 0 then do {
            s \<leftarrow> tkmc_schedule_timer c (tkmc_ms_to_ticks (word_of_int tmout)) TTW_SLP s;
            Some (Block, s) }
          else if tmout = TMO_POL then Some (Return E_TMOUT, s)
          else do {
            s \<leftarrow> wait_for_ever c TTW_SLP s;
            Some (Block, s) } }) s)"

section \<open>Reading the clock\<close>

text \<open>
  What the code relies on of the clock: it does not go back, between two instants in a row it advances
  by at most 1000 counts (0.1 ms), and it stays below half of its range (29000 years at 10 MHz).
\<close>

definition clock_ok :: "(nat \<Rightarrow> UD) \<Rightarrow> bool" where
  "clock_ok mt \<longleftrightarrow> (\<forall>n. unat (mt n) \<le> unat (mt (Suc n)) \<and> unat (mt (Suc n)) \<le> unat (mt n) + 1000 \<and>
     unat (mt n) < 2 ^ 63)"

lemma clock_mono: "clock_ok mt \<Longrightarrow> m \<le> n \<Longrightarrow> unat (mt m) \<le> unat (mt n)"
  by (rule lift_Suc_mono_le [of "\<lambda>n. unat (mt n)"]) (auto simp: clock_ok_def)

lemma clock_slow: "clock_ok mt \<Longrightarrow> unat (mt (n + k)) \<le> unat (mt n) + 1000 * k"
proof (induction k)
  case (Suc k)
  have "unat (mt (Suc (n + k))) \<le> unat (mt (n + k)) + 1000" using Suc.prems by (simp add: clock_ok_def)
  with Suc show ?case by simp
qed simp

lemma unat_high: "unat (ucast (drop_bit 32 (v :: UD)) :: UW) = unat v div 2 ^ 32"
proof -
  have "unat v div 2 ^ 32 < 2 ^ 32" using unsigned_less [of v, where 'a = nat] by (simp add: less_mult_imp_div_less)
  moreover have "unat (drop_bit 32 v) = unat v div 2 ^ 32"
    by (subst unat_drop_bit_eq) (simp add: drop_bit_eq_div)
  ultimately show ?thesis
    by (simp add: unsigned_ucast_eq take_bit_eq_mod del: drop_bit_eq_div)
qed

lemma div_one_step:
  fixes a b c d N :: nat
  assumes "a div N < b div N" and "b \<le> c" and "c \<le> d" and "d \<le> a + e" and "e \<le> N"
  shows "c div N = d div N"
proof -
  have "N \<noteq> 0" using assms(1) by (metis div_0 div_by_0 less_nat_zero_code)
  have "d div N \<le> (a + N) div N" using assms(4,5) by (intro div_le_mono) simp
  also have "\<dots> = a div N + 1" using \<open>N \<noteq> 0\<close> by (simp add: div_add_self2)
  also have "\<dots> \<le> b div N" using assms(1) by simp
  also have "\<dots> \<le> c div N" using assms(2) by (rule div_le_mono)
  finally show ?thesis using div_le_mono [OF assms(3), of N] by simp
qed

lemma join_halves: "push_bit 32 (ucast (ucast (drop_bit 32 (v :: UD)) :: UW)) OR ucast (ucast v :: UW) = v"
  by (rule bit_eqI) (auto simp: bit_simps)

lemma high_between:
  assumes "clock_ok mt" and "m \<le> k" and "k \<le> n"
    and "(ucast (drop_bit 32 (mt m)) :: UW) = ucast (drop_bit 32 (mt n))"
  shows "(ucast (drop_bit 32 (mt k)) :: UW) = ucast (drop_bit 32 (mt m))"
proof -
  have "unat (mt m) div 2 ^ 32 \<le> unat (mt k) div 2 ^ 32" "unat (mt k) div 2 ^ 32 \<le> unat (mt n) div 2 ^ 32"
    using clock_mono [OF assms(1)] assms(2,3) by (simp_all add: div_le_mono)
  moreover have "unat (mt m) div 2 ^ 32 = unat (mt n) div 2 ^ 32"
    using assms(4) by (metis unat_high)
  ultimately show ?thesis by (metis unat_high le_antisym word_unat_eq_iff)
qed

text \<open>One pass of the loop; a second one finds the upper half settled.\<close>

lemma read_mtime_pass:
  "read_mtime s = (if (ucast (drop_bit 32 (mtime s (clk s))) :: UW) \<noteq> ucast (drop_bit 32 (mtime s (clk s + 2)))
     then read_mtime (s\<lparr>clk := clk s + 3\<rparr>)
     else Some (push_bit 32 (ucast (ucast (drop_bit 32 (mtime s (clk s))) :: UW))
       OR ucast (ucast (mtime s (clk s + 1)) :: UW), s\<lparr>clk := clk s + 3\<rparr>))"
  by (subst read_mtime.simps) (simp add: in_mtime_high_def in_mtime_low_def eval_nat_numeral)

lemma read_mtime_settled:
  assumes C: "clock_ok (mtime s)"
    and "(ucast (drop_bit 32 (mtime s (clk s))) :: UW) = ucast (drop_bit 32 (mtime s (clk s + 2)))"
  shows "read_mtime s = Some (mtime s (clk s + 1), s\<lparr>clk := clk s + 3\<rparr>)"
proof -
  have "(ucast (drop_bit 32 (mtime s (clk s + 1))) :: UW) = ucast (drop_bit 32 (mtime s (clk s)))"
    by (rule high_between [OF C _ _ assms(2)]) simp_all
  then have "push_bit 32 (ucast (ucast (drop_bit 32 (mtime s (clk s))) :: UW))
      OR ucast (ucast (mtime s (clk s + 1)) :: UW) = mtime s (clk s + 1)"
    by (metis join_halves)
  then show ?thesis
    using assms(2) by (subst read_mtime_pass) simp
qed

definition reads :: "kernel \<Rightarrow> UD \<Rightarrow> kernel \<Rightarrow> bool" where
  "reads s v s' \<longleftrightarrow> (\<exists>k n. clk s \<le> k \<and> k < n \<and> n \<le> clk s + 6 \<and> v = mtime s k \<and> s' = s\<lparr>clk := n\<rparr>)"

lemma readsI: "clk s \<le> k \<Longrightarrow> k < n \<Longrightarrow> n \<le> clk s + 6 \<Longrightarrow> reads s (mtime s k) (s\<lparr>clk := n\<rparr>)"
  by (auto simp: reads_def)

lemma read_mtime_ok:
  assumes C: "clock_ok (mtime s)"
  shows "ok (read_mtime s) (\<lambda>(v, s'). reads s v s')"
proof (cases "(ucast (drop_bit 32 (mtime s (clk s))) :: UW) = ucast (drop_bit 32 (mtime s (clk s + 2)))")
  case True
  then show ?thesis
    using read_mtime_settled [OF C True] readsI [of s "clk s + 1" "clk s + 3"] by simp
next
  case False
  let ?m = "\<lambda>n. unat (mtime s n)" and ?n = "clk s" and ?s = "s\<lparr>clk := clk s + 3\<rparr>"
  have "?m ?n div 2 ^ 32 \<noteq> ?m (?n + 2) div 2 ^ 32"
    using False by (metis unat_high word_unat_eq_iff)
  moreover have "?m ?n div 2 ^ 32 \<le> ?m (?n + 2) div 2 ^ 32"
    using clock_mono [OF C, of ?n "?n + 2"] by (simp add: div_le_mono)
  ultimately have "?m ?n div 2 ^ 32 < ?m (?n + 2) div 2 ^ 32" by simp
  moreover have "?m (?n + 2) \<le> ?m (?n + 3)" "?m (?n + 3) \<le> ?m (?n + 5)" "?m (?n + 5) \<le> ?m ?n + 5000"
    using clock_mono [OF C, of "?n + 2" "?n + 3"] clock_mono [OF C, of "?n + 3" "?n + 5"]
      clock_slow [OF C, of ?n 5] by simp_all
  ultimately have "?m (?n + 3) div 2 ^ 32 = ?m (?n + 5) div 2 ^ 32"
    by (intro div_one_step [of "?m ?n" _ "?m (?n + 2)" _ _ 5000]) simp_all
  then have "(ucast (drop_bit 32 (mtime ?s (clk ?s))) :: UW) = ucast (drop_bit 32 (mtime ?s (clk ?s + 2)))"
    by (simp add: word_unat_eq_iff unat_high add.commute)
  then have "read_mtime ?s = Some (mtime ?s (clk ?s + 1), ?s\<lparr>clk := clk ?s + 3\<rparr>)"
    using C by (intro read_mtime_settled) simp_all
  then show ?thesis
    using False readsI [of s "clk s + 4" "clk s + 6"]
    by (subst read_mtime_pass) (simp add: add.commute)
qed

section \<open>Counting the edges that have passed\<close>

text \<open>
  The loop ends because a pass of it takes far less time than a tick. \<open>n\<close> edges were passed:
  the compare value moved by \<open>n\<close> ticks to the first edge ahead of the time last read.
\<close>

definition passed :: "UD \<Rightarrow> kernel \<Rightarrow> nat \<Rightarrow> UD \<Rightarrow> kernel \<Rightarrow> bool" where
  "passed mc s n mc' s' \<longleftrightarrow> mc' = mc + of_nat n * TICK_COUNTS \<and> unat mc' = unat mc + n * 100000 \<and>
     (\<exists>k. clk s \<le> k \<and> k \<le> clk s + 6 * Suc n \<and> s' = s\<lparr>clk := k\<rparr>) \<and>
     (\<exists>k. clk s \<le> k \<and> k < clk s' \<and> mtime s k < mc' \<and> (0 < n \<longrightarrow> unat mc' \<le> unat (mtime s k) + 100000))"

lemma tick_unat: "unat (mc :: UD) < 2 ^ 63 \<Longrightarrow> unat (mc + TICK_COUNTS) = unat mc + 100000"
  by (subst unat_add_lem [THEN iffD1]) (simp_all add: TICK_COUNTS_def)

lemma passed_none: "reads s v s' \<Longrightarrow> v < mc \<Longrightarrow> passed mc s 0 mc s'"
  unfolding reads_def passed_def by (elim exE conjE) (auto intro: exI [of _ "clk s'"])

lemma passed_more:
  assumes C: "clock_ok (mtime s)" and r: "reads s v s1" and v: "mc \<le> v"
    and p: "passed (mc + TICK_COUNTS) s1 n mc' s'"
  shows "passed mc s (Suc n) mc' s'"
proof -
  obtain k m where k: "clk s \<le> k" "k < m" "v = mtime s k" "s1 = s\<lparr>clk := m\<rparr>" "m \<le> clk s + 6"
    using r by (auto simp: reads_def)
  obtain l where l: "m \<le> l" "l < clk s'" "mtime s l < mc'" "0 < n \<longrightarrow> unat mc' \<le> unat (mtime s l) + 100000"
    using p k(4) by (auto simp: passed_def)
  have "unat mc \<le> unat v" using v by (simp add: word_le_nat_alt)
  moreover have "unat v < 2 ^ 63" using C k(3) by (simp add: clock_ok_def)
  ultimately have t: "unat (mc + TICK_COUNTS) = unat mc + 100000" by (intro tick_unat) simp
  have "unat v \<le> unat (mtime s l)" using clock_mono [OF C, of k l] k l(1) by simp
  then have "unat mc' \<le> unat (mtime s l) + 100000"
    using l(4) p t \<open>unat mc \<le> unat v\<close> by (cases "n = 0") (auto simp: passed_def)
  moreover have "mc' = mc + of_nat (Suc n) * TICK_COUNTS" using p by (simp add: passed_def algebra_simps)
  moreover obtain m' where "m \<le> m'" "m' \<le> m + 6 * Suc n" "s' = s\<lparr>clk := m'\<rparr>" using p k(4) by (auto simp: passed_def)
  then have "\<exists>k. clk s \<le> k \<and> k \<le> clk s + 6 * Suc (Suc n) \<and> s' = s\<lparr>clk := k\<rparr>" using k(1,2,5) by (intro exI [of _ m']) simp
  moreover have "unat mc' = unat mc + 100000 + n * 100000" using p t unfolding passed_def by metis
  then have "unat mc' = unat mc + Suc n * 100000" by simp
  moreover have "clk s \<le> l" using k(1,2) l(1) by simp
  ultimately show ?thesis
    using l(2,3) unfolding passed_def by blast
qed

lemma pass_periods_ok:
  assumes "clock_ok (mtime s)"
  shows "ok (pass_periods mc p s) (\<lambda>(p', mc', s'). \<exists>n. p' = p + of_nat n \<and> passed mc s n mc' s')"
  using assms
proof (induction "unat (mtime s (clk s)) + 2 ^ 64 - unat mc" arbitrary: mc p s rule: less_induct)
  case less
  have step: "ok (pass_periods (mc + TICK_COUNTS) (p + 1) s1)
      (\<lambda>(p', mc', s'). \<exists>n. p' = p + of_nat n \<and> passed mc s n mc' s')"
    if r: "reads s v s1" and v: "mc \<le> v" for v s1
  proof -
    obtain k m where k: "clk s \<le> k" "k < m" "m \<le> clk s + 6" "v = mtime s k" "s1 = s\<lparr>clk := m\<rparr>"
      using r by (auto simp: reads_def)
    have "unat mc \<le> unat v" using v by (simp add: word_le_nat_alt)
    moreover have b: "unat v < 2 ^ 63" using less.prems k(4) by (simp add: clock_ok_def)
    ultimately have "unat (mc + TICK_COUNTS) = unat mc + 100000" "unat mc < 2 ^ 63"
      using tick_unat [of mc] by simp_all
    moreover have "unat (mtime s m) \<le> unat (mtime s (clk s)) + 6000"
      using clock_slow [OF less.prems, of "clk s" 6] clock_mono [OF less.prems k(3)] by simp
    ultimately have m: "unat (mtime s1 (clk s1)) + 2 ^ 64 - unat (mc + TICK_COUNTS)
        < unat (mtime s (clk s)) + 2 ^ 64 - unat mc" using k(5) by simp
    have C: "clock_ok (mtime s1)" using less.prems k(5) by simp
    show ?thesis
    proof (rule ok_mono [OF less.hyps [OF m C]], clarsimp)
      fix mc' s' n assume "passed (mc + TICK_COUNTS) s1 n mc' s'"
      with passed_more [OF less.prems r v] show "\<exists>na. 1 + word_of_nat n = (word_of_nat na :: UINT) \<and> passed mc s na mc' s'"
        by (metis of_nat_Suc)
    qed
  qed
  show ?case
    by (subst pass_periods.simps, simp, rule ok_mono [OF read_mtime_ok [OF less.prems]])
      (use step passed_none in \<open>force simp: not_le\<close>)
qed

lemma pass_elapsed_periods_ok:
  "clock_ok (mtime s) \<Longrightarrow>
    ok (pass_elapsed_periods mc s) (\<lambda>(p, mc', s'). \<exists>n. p = of_nat n \<and> passed mc s n mc' s')"
  using pass_periods_ok [of s mc 0] by (simp add: pass_elapsed_periods_def)

text \<open>
  The edges that have passed at some time that is read before the access \<open>e\<close>: the one after them is
  ahead of that time, and by no more than a tick if there is one.
\<close>

definition edges :: "kernel \<Rightarrow> nat \<Rightarrow> nat \<Rightarrow> bool" where
  "edges s e n \<longleftrightarrow> e \<le> clk s + 6 * Suc n \<and> (\<exists>k. clk s \<le> k \<and> k < e \<and> unat (mtime s k) < unat (s_mtimecmp s) + n * 100000 \<and>
     (0 < n \<longrightarrow> unat (s_mtimecmp s) + n * 100000 \<le> unat (mtime s k) + 100000))"

lemma passed_edges: "passed (s_mtimecmp s) s n mc s1 \<Longrightarrow> edges s (clk s1) n"
  by (auto simp: passed_def edges_def word_less_nat_alt)

lemma edges_frame [simp]:
  "edges (upd_tcb i f s) e n = edges s e n" "edges (s\<lparr>links := h\<rparr>) e n = edges s e n"
  "edges (s\<lparr>mstatus := m\<rparr>) e n = edges s e n"
  by (simp_all add: edges_def)

text \<open>
  The timer is armed: the compare register holds the next edge, and that is at most a tick ahead of
  the time.
\<close>

definition armed :: "kernel \<Rightarrow> bool" where
  "armed s \<longleftrightarrow> mtimecmp_reg s = s_mtimecmp s \<and> unat (s_mtimecmp s) \<le> unat (mtime s (clk s)) + 100000"

section \<open>Setting the compare register\<close>

lemma write_mtimecmp_eq: "write_mtimecmp v s = s\<lparr>mtimecmp_reg := v\<rparr>"
proof -
  have "mtimecmp_reg (write_mtimecmp v s) = v"
    by (rule bit_eqI) (auto simp: write_mtimecmp_def write_mtimecmp_steps_def Let_def
        out_mtimecmp_low_def out_mtimecmp_high_def bit_simps)
  then show ?thesis
    by (simp add: write_mtimecmp_def write_mtimecmp_steps_def Let_def out_mtimecmp_low_def
        out_mtimecmp_high_def)
qed

section \<open>Walks over the timer queue\<close>

lemma timer_queue_tasks:
  assumes "kinv s Q"
  shows "\<exists>is. Q TimerQ = Some (map TcbHead is)"
proof -
  obtain xs where xs: "Q TimerQ = Some xs" using kinvD(2) [OF assms] by (auto simp: static_def)
  have "\<exists>i. n = TcbHead i" if "n \<in> set xs" for n
    using typed_in_ring [OF kinvD(1) [OF assms], of TimerQ n] xs that
    by (auto simp: in_ring_def split: node.splits)
  then have "\<exists>is. xs = map TcbHead is" by (simp add: ex_map_conv)
  with xs show ?thesis by auto
qed

fun earliest :: "(nat \<Rightarrow> UINT) \<Rightarrow> nat option \<Rightarrow> nat list \<Rightarrow> nat option" where
  "earliest d f [] = f"
| "earliest d f (i # is) = earliest d
     (case f of None \<Rightarrow> Some i | Some g \<Rightarrow> if d i < d g then Some i else Some g) is"

lemma earliest_best:
  "earliest d f is = Some g \<Longrightarrow> (g \<in> set is \<or> f = Some g) \<and> (\<forall>i \<in> set is. d g \<le> d i) \<and>
    (\<forall>i. f = Some i \<longrightarrow> d g \<le> d i)"
proof (induction "is" arbitrary: f)
  case (Cons i "is")
  from Cons.IH [OF Cons.prems [unfolded earliest.simps]] show ?case
    by (auto split: option.splits if_splits)
qed simp

lemma earliest_None: "earliest d f is = None \<longleftrightarrow> f = None \<and> is = []"
  by (induction "is" arbitrary: f) (auto split: option.splits)

lemma first_deadline_from_rep:
  assumes R: "rep (links s) Q" and "Q TimerQ = Some (us @ map TcbHead is)"
  shows "first_deadline_from (hd (map TcbHead is @ [TimerQ])) f s =
    Some (earliest (\<lambda>i. delay_ticks (tcbs s i)) f is)"
  using assms(2)
proof (induction "is" arbitrary: us f)
  case Nil
  then show ?case by (subst first_deadline_from.simps) simp
next
  case (Cons i "is")
  have q: "Q TimerQ = Some ((us @ [TcbHead i]) @ map TcbHead is)" using Cons.prems by simp
  have "get_next (TcbHead i) (links s) = Some (hd (map TcbHead is @ [TimerQ]))"
    using get_next_member [OF R, of TimerQ us] Cons.prems by simp
  with Cons.IH [OF q] show ?case by (subst first_deadline_from.simps) (simp cong: option.case_cong)
qed

lemma first_deadline_rep:
  "rep (links s) Q \<Longrightarrow> Q TimerQ = Some (map TcbHead is) \<Longrightarrow>
    first_deadline s = Some (earliest (\<lambda>i. delay_ticks (tcbs s i)) None is)"
  using first_deadline_from_rep [of s Q "[]" "is" None] get_next_head [of "links s" Q TimerQ]
  by (simp add: first_deadline_def)

definition ticked :: "UINT \<Rightarrow> nat list \<Rightarrow> kernel \<Rightarrow> kernel" where
  "ticked step = fold (\<lambda>i. upd_tcb i (\<lambda>t. t\<lparr>delay_ticks := delay_ticks t - step\<rparr>))"

lemma ticked_simps [simp]:
  "ticked step [] s = s"
  "ticked step (i # is) s = ticked step is (upd_tcb i (\<lambda>t. t\<lparr>delay_ticks := delay_ticks t - step\<rparr>) s)"
  by (simp_all add: ticked_def)

lemma tick_from_rep:
  assumes "rep (links s) Q" and "Q TimerQ = Some (us @ map TcbHead is)"
  shows "tick_from step (hd (map TcbHead is @ [TimerQ])) s = Some (ticked step is s)"
  using assms
proof (induction "is" arbitrary: us s)
  case Nil
  then show ?case by (subst tick_from.simps) simp
next
  case (Cons i "is")
  have q: "Q TimerQ = Some ((us @ [TcbHead i]) @ map TcbHead is)" using Cons.prems by simp
  have "get_next (TcbHead i) (links s) = Some (hd (map TcbHead is @ [TimerQ]))"
    using get_next_member [OF Cons.prems(1), of TimerQ us] Cons.prems(2) by simp
  with Cons.IH [OF _ q] Cons.prems(1) show ?case by (subst tick_from.simps) simp
qed

lemma tcbs_ticked:
  "distinct is \<Longrightarrow> tcbs (ticked step is s) k =
    (if k \<in> set is then (tcbs s k)\<lparr>delay_ticks := delay_ticks (tcbs s k) - step\<rparr> else tcbs s k)"
  by (induction "is" arbitrary: s) auto

lemma ticked_kinv:
  "kinv s Q \<Longrightarrow> distinct is \<Longrightarrow> (\<And>i. i \<in> set is \<Longrightarrow> i < CFN_MAX_TSKID \<and> step \<le> delay_ticks (tcbs s i)) \<Longrightarrow>
    kinv (ticked step is s) Q"
proof (induction "is" arbitrary: s)
  case (Cons i "is")
  let ?f = "\<lambda>t. t\<lparr>delay_ticks := delay_ticks t - step\<rparr>"
  have i: "i < CFN_MAX_TSKID" "step \<le> delay_ticks (tcbs s i)" using Cons.prems(3) by simp_all
  then have "wupcnt (tcbs s i) \<le> TK_WAKEUP_MAXCNT" using kinvD(4) [OF Cons.prems(1)] by (simp add: task_ok_def)
  then have "kinv (upd_tcb i ?f s) Q"
    using Cons.prems(1) i(2) by (intro upd_plain_kinv) (auto simp: same_task_def same_wait_def)
  moreover have "k < CFN_MAX_TSKID \<and> step \<le> delay_ticks (tcbs (upd_tcb i ?f s) k)" if "k \<in> set is" for k
    using Cons.prems(2,3) that by auto
  ultimately show ?case using Cons.IH [of "upd_tcb i ?f s"] Cons.prems(2) by simp
qed simp

lemma ticked_frame:
  "sem_served (ticked step is s) Q = sem_served s Q" "flg_served (ticked step is s) Q = flg_served s Q"
  "sched_ok (ticked step is s) Q = sched_ok s Q" "same_rest s' (ticked step is s) = same_rest s' s"
  "links (ticked step is s) = links s" "current (ticked step is s) = current s"
  "msip (ticked step is s) = msip s"
  using upd_wait [of _ _ "\<lambda>t. t\<lparr>delay_ticks := delay_ticks t - step\<rparr>"]
  by (induction "is" arbitrary: s) (simp_all add: same_wait_def)

section \<open>What the timer interrupt does to each task\<close>

text \<open>
  A task on the timer queue (\<open>timed\<close>) after \<open>p\<close> ticks: it waits on with as many ticks
  less, or its time is over and it becomes ready with \<open>E_TMOUT\<close>. A waiter of a semaphore,
  timed or not, may have been served instead, because a waiter ahead of it gave up.
\<close>

definition aged :: "UINT \<Rightarrow> bool \<Rightarrow> TCB \<Rightarrow> TCB \<Rightarrow> bool" where
  "aged p timed t t' \<longleftrightarrow>
     (if timed then
        p < delay_ticks t \<and> t' = t\<lparr>delay_ticks := delay_ticks t - p\<rparr> \<or>
        delay_ticks t \<le> p \<and> t' = wake_tcb E_TMOUT t
      else t' = t) \<or>
     tskstat t = TTS_WAI \<and> tskwait t = TTW_SEM \<and> t' = wake_tcb E_OK t"

abbreviation timed :: "rings \<Rightarrow> nat \<Rightarrow> bool" where
  "timed Q k \<equiv> in_ring Q TimerQ (TcbHead k)"

lemma timed_waits:
  assumes R: "rep h Q" and K: "kinv s Q" and q: "timed Q i"
  shows "i < CFN_MAX_TSKID" and "tskstat (tcbs s i) = TTS_WAI"
proof -
  show i: "i < CFN_MAX_TSKID" using typed_in_ring [OF kinvD(1) [OF K] q] by simp
  have "v = TimerQ" if "in_ring Q v (TcbHead i)" for v by (rule rep_in_ring_unique [OF R that q])
  moreover have "Q (TcbHead i) = None" by (rule rep_member_not_owner [OF R q])
  ultimately show "tskstat (tcbs s i) = TTS_WAI"
    using kinvD(4) [OF K i] q
    by (auto simp: task_ok_def head_ok_def idle_node_def loose_def split: tskstat.splits)
qed

lemma word_sub_mono:
  fixes a b c :: "'a :: len word"
  assumes "c \<le> a" and "c \<le> b"
  shows "a - c < b - c \<longleftrightarrow> a < b" and "a - c \<le> b - c \<longleftrightarrow> a \<le> b"
  using assms by (simp_all add: word_less_nat_alt word_le_nat_alt unat_sub) linarith+

lemma wake_delay [simp]: "wake_tcb c (t\<lparr>delay_ticks := d\<rparr>) = wake_tcb c t"
  by (simp add: wake_tcb_def)

text \<open>Ticks up to the first deadline, the end of that wait, and the rest of the ticks.\<close>

lemma aged_compose:
  assumes step: "step \<le> p" and d: "tm \<Longrightarrow> step \<le> delay_ticks t"
    and t1: "t1 = (if tm then t\<lparr>delay_ticks := delay_ticks t - step\<rparr> else t)"
    and t2: "t2 = t1 \<or> (tskstat t1 = TTS_WAI \<and> tskwait t1 = TTW_SEM \<and> t2 = wake_tcb E_OK t1)"
    and tm2: "tm2 \<longleftrightarrow> tm \<and> tskstat t2 = TTS_WAI" and w: "tm \<Longrightarrow> tskstat t = TTS_WAI"
    and a: "aged (p - step) tm2 t2 t'"
  shows "aged p tm t t'"
proof (cases "t2 = t1")
  case True
  show ?thesis
  proof (cases tm)
    case tm: True
    then have "tm2" using tm2 True t1 w by simp
    then show ?thesis
      using a tm True t1 d word_sub_mono [of step p "delay_ticks t"] word_sub_mono [of step "delay_ticks t" p] step
      by (auto simp: aged_def)
  next
    case False
    then show ?thesis using a tm2 t1 True by (auto simp: aged_def)
  qed
next
  case False
  then have t2': "tskstat t = TTS_WAI" "tskwait t = TTW_SEM" "t2 = wake_tcb E_OK t"
    using t2 t1 by (auto split: if_splits)
  then have "t' = wake_tcb E_OK t" using a tm2 by (auto simp: aged_def)
  with t2' show ?thesis by (auto simp: aged_def)
qed

definition expired ::
  "kernel \<Rightarrow> rings \<Rightarrow> UINT \<Rightarrow> bool \<Rightarrow> bool \<Rightarrow> kernel \<Rightarrow> rings \<Rightarrow> bool" where
  "expired s Q p e e' s' Q' \<longleftrightarrow> rep (links s') Q' \<and> kinv s' Q' \<and> sem_served s' Q' \<and> flg_served s' Q' \<and>
     same_rest s s' \<and> (e \<longrightarrow> e') \<and> (\<not> e' \<longrightarrow> Q' = Q) \<and>
     (\<forall>k. aged p (timed Q k) (tcbs s k) (tcbs s' k)) \<and>
     (\<forall>k. timed Q' k \<longleftrightarrow> timed Q k \<and> tskstat (tcbs s' k) = TTS_WAI)"

lemma expire_stop:
  assumes R: "rep (links s) Q" and K: "kinv s Q" and S: "sem_served s Q" "flg_served s Q"
    and q: "Q TimerQ = Some (map TcbHead is)" and d: "\<And>i. i \<in> set is \<Longrightarrow> p < delay_ticks (tcbs s i)"
  shows "expired s Q p e e (ticked p is s) Q"
proof -
  have t: "timed Q k \<longleftrightarrow> k \<in> set is" for k using q by (auto simp: in_ring_def)
  have D: "distinct is" using repD(2) [OF R q] by (simp add: distinct_map)
  note T = tcbs_ticked [OF D, of p s]
  have "kinv (ticked p is s) Q" using K D d t timed_waits(1) [OF R K] by (intro ticked_kinv) (auto intro: less_imp_le)
  moreover have "aged p (timed Q k) (tcbs s k) (tcbs (ticked p is s) k)" for k
    using d by (auto simp: aged_def T t)
  moreover have "timed Q k \<longleftrightarrow> timed Q k \<and> tskstat (tcbs (ticked p is s) k) = TTS_WAI" for k
    using timed_waits(2) [OF R K] by (auto simp: T)
  ultimately show ?thesis using R S by (simp add: expired_def ticked_frame)
qed

lemma expire_turn:
  assumes R: "rep (links s) Q" and K: "kinv s Q" and q: "Q TimerQ = Some (map TcbHead is)"
    and f: "f \<in> set is" and min: "\<And>i. i \<in> set is \<Longrightarrow> delay_ticks (tcbs s f) \<le> delay_ticks (tcbs s i)"
    and p: "delay_ticks (tcbs s f) \<le> p"
    and C: "completed (ticked (delay_ticks (tcbs s f)) is s) Q f E_TMOUT s2 Q2"
    and E: "expired s2 Q2 (p - delay_ticks (tcbs s f)) True e' s' Q'"
  shows "expired s Q p e e' s' Q'"
proof -
  let ?d = "delay_ticks (tcbs s f)"
  have t: "timed Q k \<longleftrightarrow> k \<in> set is" for k using q by (auto simp: in_ring_def)
  have "distinct is" using repD(2) [OF R q] by (simp add: distinct_map)
  note T = tcbs_ticked [OF this, of ?d s]
  have W: "woken (ticked ?d is s) Q s2 Q2" and tf: "tcbs s2 f = wake_tcb E_TMOUT (tcbs s f)"
    using C f by (simp_all add: completed_def T)
  have R2: "rep (links s2) Q2" and K2: "kinv s2 Q2" using W by (simp_all add: woken_def)
  obtain P where "Q2 TimerQ = map_option (filter P) (Q TimerQ)"
    using W plain_simps(1) unfolding woken_def by blast
  then have tm2: "timed Q2 k \<longleftrightarrow> timed Q k \<and> tskstat (tcbs s2 k) = TTS_WAI" for k
    using timed_waits(2) [OF R2 K2, of k] C by (auto simp: completed_def in_ring_def)
  have "same_rest s s2"
    using W same_rest_trans [of s "ticked ?d is s" s2] by (simp add: woken_def ticked_frame)
  then have "same_rest s s'" using E by (auto simp: expired_def intro: same_rest_trans)
  moreover have ag: "aged p (timed Q k) (tcbs s k) (tcbs s' k)" for k
  proof (cases "k = f")
    case True
    have "tcbs s' f = wake_tcb E_TMOUT (tcbs s f)"
      using E tm2 [of f] tf by (auto simp: expired_def aged_def dest: spec [of _ f])
    then show ?thesis using True f p by (simp add: aged_def t)
  next
    case False
    have "aged (p - ?d) (timed Q2 k) (tcbs s2 k) (tcbs s' k)" using E by (simp add: expired_def)
    moreover have "tcbs s2 k = tcbs (ticked ?d is s) k \<or> (tskstat (tcbs (ticked ?d is s) k) = TTS_WAI \<and>
        tskwait (tcbs (ticked ?d is s) k) = TTW_SEM \<and> tcbs s2 k = wake_tcb E_OK (tcbs (ticked ?d is s) k))"
      using C False by (simp add: completed_def)
    ultimately show ?thesis
      using min p timed_waits(2) [OF R K]
      by (intro aged_compose [OF p, where t = "tcbs s k" and ?t2.0 = "tcbs s2 k", OF _ _ _ tm2])
        (auto simp: T t)
  qed
  moreover have "timed Q' k \<longleftrightarrow> timed Q k \<and> tskstat (tcbs s' k) = TTS_WAI" for k
  proof -
    have "tskstat (tcbs s2 k) = TTS_WAI" if "tskstat (tcbs s' k) = TTS_WAI"
      using E that by (auto simp: expired_def aged_def dest!: spec [of _ k] split: if_splits)
    then show ?thesis using E tm2 [of k] by (auto simp: expired_def)
  qed
  ultimately show ?thesis using E by (auto simp: expired_def)
qed

lemma timer_queue_shrinks:
  assumes C: "completed s Q f E_TMOUT s2 Q2" and q: "Q TimerQ = Some (map TcbHead is)" and f: "f \<in> set is"
  obtains ks where "Q2 TimerQ = Some (map TcbHead ks)" and "length ks < length is"
proof -
  have W: "woken s Q s2 Q2" using C by (simp add: completed_def)
  obtain ks where ks: "Q2 TimerQ = Some (map TcbHead ks)"
    using timer_queue_tasks [of s2 Q2] W by (auto simp: woken_def)
  obtain P where P: "Q2 TimerQ = map_option (filter P) (Q TimerQ)"
    using W plain_simps(1) unfolding woken_def by blast
  have "tskstat (tcbs s2 f) = TTS_RDY" using C by (simp add: completed_def)
  then have "f \<notin> set ks"
    using timed_waits(2) [of "links s2" Q2 s2 f] W ks by (auto simp: woken_def in_ring_def)
  moreover have ksP: "map TcbHead ks = filter P (map TcbHead is)" using P ks q by simp
  from arg_cong [OF this, of set] f have "P (TcbHead f) \<Longrightarrow> f \<in> set ks" by auto
  ultimately have "\<not> P (TcbHead f)" by blast
  then have "length (filter P (map TcbHead is)) < length (map TcbHead is)"
    using f by (intro length_filter_less [of "TcbHead f"]) simp_all
  then have "length ks < length is" unfolding ksP [symmetric] by simp
  then show thesis using that ks by blast
qed

lemma expire_ok:
  assumes "rep (links s) Q" and "kinv s Q" and "sem_served s Q" and "flg_served s Q"
    and "Q TimerQ = Some (map TcbHead is)"
  shows "ok (expire p e s) (\<lambda>(e', s'). \<exists>Q'. expired s Q p e e' s' Q')"
  using assms
proof (induction "length is" arbitrary: s Q "is" p e rule: less_induct)
  case less
  note R = less.prems(1) and K = less.prems(2) and S = less.prems(3,4) and q = less.prems(5)
  let ?d = "\<lambda>i. delay_ticks (tcbs s i)"
  have fd: "first_deadline s = Some (earliest ?d None is)" by (rule first_deadline_rep [OF R q])
  have gn: "get_next TimerQ (links s) = Some (hd (map TcbHead is @ [TimerQ]))"
    by (rule get_next_head [OF R q])
  have tf: "tick_from st (hd (map TcbHead is @ [TimerQ])) s = Some (ticked st is s)" for st
    using tick_from_rep [of s Q "[]" "is"] R q by simp
  show ?case
  proof (cases "earliest ?d None is")
    case None
    then have "is = []" by (simp add: earliest_None)
    with None fd show ?thesis
      using expire_stop [OF R K S q, of p e] by (subst expire.simps) auto
  next
    case (Some f)
    have f: "f \<in> set is" and min: "\<And>i. i \<in> set is \<Longrightarrow> ?d f \<le> ?d i"
      using earliest_best [OF Some] by auto
    have t: "timed Q k \<longleftrightarrow> k \<in> set is" for k using q by (auto simp: in_ring_def)
    have D: "distinct is" using repD(2) [OF R q] by (simp add: distinct_map)
    show ?thesis
    proof (cases "?d f \<le> p")
      case False
      then have "expired s Q p e e (ticked p is s) Q"
        using min by (intro expire_stop [OF R K S q]) (meson less_le_trans not_le)
      with False show ?thesis
        by (subst expire.simps) (auto simp: fd Some gn tf)
    next
      case True
      let ?s = "ticked (?d f) is s"
      have K1: "kinv ?s Q" using K D min t timed_waits(1) [OF R K] by (intro ticked_kinv) auto
      have w: "f < CFN_MAX_TSKID" "tskstat (tcbs ?s f) = TTS_WAI"
        using timed_waits [OF R K] f t by (auto simp: tcbs_ticked [OF D])
      have "ok (tkmc_complete_wait f E_TMOUT ?s) (\<lambda>s2. ok (expire (p - ?d f) True s2)
          (\<lambda>(e', s'). \<exists>Q'. expired s Q p e e' s' Q'))"
      proof (rule ok_mono [OF tkmc_complete_wait_ok [OF _ K1 w, of E_TMOUT]], goal_cases)
        case 1
        then show ?case using R by (simp add: ticked_frame)
      next
        case (2 s2)
        then obtain Q2 where C: "completed ?s Q f E_TMOUT s2 Q2" by blast
        then have W: "woken ?s Q s2 Q2" by (simp add: completed_def)
        obtain ks where ks: "Q2 TimerQ = Some (map TcbHead ks)" "length ks < length is"
          by (rule timer_queue_shrinks [OF C q f])
        have "sem_served s2 Q2" "flg_served s2 Q2"
          using C W S flg_served_woken by (auto simp: completed_def hands_on_def ticked_frame)
        then have "ok (expire (p - ?d f) True s2) (\<lambda>(e', s'). \<exists>Q'. expired s2 Q2 (p - ?d f) True e' s' Q')"
          using W ks by (intro less.hyps) (auto simp: woken_def)
        then show ?case
          by (rule ok_mono) (use expire_turn [OF R K q f min True C] in \<open>clarsimp, blast\<close>)
      qed
      with True show ?thesis
        by (subst expire.simps) (auto simp: fd Some gn tf)
    qed
  qed
qed

section \<open>The timer interrupt keeps the invariant\<close>

lemma aged_runs: "aged p tm t t' \<Longrightarrow> tskstat t = TTS_RUN \<Longrightarrow> \<not> tm \<Longrightarrow> t' = t"
  by (auto simp: aged_def)

lemma clk_frames [simp]:
  "sys_inv (s\<lparr>clk := k\<rparr>) = sys_inv s" "sys_inv (s\<lparr>s_mtimecmp := c\<rparr>) = sys_inv s"
  "sys_inv (s\<lparr>mtimecmp_reg := c\<rparr>) = sys_inv s"
  by (simp_all add: sys_inv_def)

definition timer_done :: "kernel \<Rightarrow> rings \<Rightarrow> kernel \<Rightarrow> bool" where
  "timer_done s Q s' \<longleftrightarrow> stack_mem s' = stack_mem s \<and> (\<exists>n mc s1. passed (s_mtimecmp s) s n mc s1 \<and>
     (if of_nat n = (0 :: UINT) then s' = s1
      else s_mtimecmp s' = mc \<and> mtimecmp_reg s' = mc \<and> clk s' = clk s1 \<and>
        (\<forall>k. aged (of_nat n) (timed Q k) (tcbs s k) (tcbs s' k))))"

lemma timer_doneI:
  "passed (s_mtimecmp s) s n mc s1 \<Longrightarrow> of_nat n \<noteq> (0 :: UINT) \<Longrightarrow> s_mtimecmp s' = mc \<Longrightarrow>
    mtimecmp_reg s' = mc \<Longrightarrow> clk s' = clk s1 \<Longrightarrow> stack_mem s' = stack_mem s \<Longrightarrow> \<forall>k. aged (of_nat n) (timed Q k) (tcbs s k) (tcbs s' k) \<Longrightarrow> timer_done s Q s'"
  unfolding timer_done_def by (intro conjI exI [of _ n] exI [of _ mc] exI [of _ s1]) simp_all

lemma expired_end:
  assumes R: "rep (links s) Q" and G: "ginv s Q" and X: "expired s Q p False e s2 Q2"
  shows "ok (if e then reschedule s2 else Some s2) (\<lambda>s'. sys_inv s' \<and> tcbs s' = tcbs s2 \<and>
    mstatus s' = mstatus s \<and> s_mtimecmp s' = s_mtimecmp s \<and> mtimecmp_reg s' = mtimecmp_reg s \<and> clk s' = clk s \<and> stack_mem s' = stack_mem s)"
proof -
  have K: "kinv s Q" and S: "sched_ok s Q" using G by (simp_all add: ginv_def)
  have E: "rep (links s2) Q2" "kinv s2 Q2" "sem_served s2 Q2" "flg_served s2 Q2" "same_rest s s2"
    "\<not> e \<longrightarrow> Q2 = Q" "\<And>k. aged p (timed Q k) (tcbs s k) (tcbs s2 k)"
    using X by (simp_all add: expired_def)
  note F = same_restD [OF E(5)]
  have run: "tskstat (tcbs s2 c) = TTS_RUN" if "current s2 = Some c" "\<not> msip s2" for c
  proof -
    have "tskstat (tcbs s c) = TTS_RUN" using S that F by (simp add: sched_ok_def)
    moreover from this have "\<not> timed Q c" using timed_waits(2) [OF R K, of c] by auto
    ultimately show ?thesis using aged_runs [OF E(7) [of c]] by simp
  qed
  show ?thesis
  proof (cases e)
    case True
    have "ok (reschedule s2) (\<lambda>s'. sched_ok s' Q2 \<and>
        s' = s2\<lparr>next_tsk := top_ready Q2, msip := msip s2 \<or> top_ready Q2 \<noteq> current s2\<rparr>)"
      by (rule reschedule_ok [OF E(1,2) run])
    then have "ok (reschedule s2) (\<lambda>s'. sys_inv s' \<and> tcbs s' = tcbs s2 \<and> mstatus s' = mstatus s \<and>
        s_mtimecmp s' = s_mtimecmp s \<and> mtimecmp_reg s' = mtimecmp_reg s \<and> clk s' = clk s \<and> stack_mem s' = stack_mem s)"
      by (rule ok_mono) (use E F in \<open>auto intro!: sys_invI [of _ Q2] simp: ginv_def\<close>)
    then show ?thesis using True by simp
  next
    case False
    then have "sched_ok s2 Q" using S run F by (auto simp: sched_ok_def)
    then show ?thesis using False E F by (auto intro!: sys_invI [of _ Q] simp: ginv_def)
  qed
qed

lemma tkmc_timer_handler_ok:
  assumes R: "rep (links s) Q" and G: "ginv s Q" and C: "clock_ok (mtime s)"
  shows "ok (tkmc_timer_handler s) (\<lambda>s'. sys_inv s' \<and> mstatus s' = mstatus s \<and> timer_done s Q s')"
  unfolding tkmc_timer_handler_def ok_bind
proof (rule ok_mono [OF pass_elapsed_periods_ok [OF C, of "s_mtimecmp s"]], clarsimp split del: if_split, goal_cases)
  case (1 mc s1 n)
  then obtain k where s1: "s1 = s\<lparr>clk := k\<rparr>" by (auto simp: passed_def)
  show ?case
  proof (cases "of_nat n = (0 :: UINT)")
    case True
    then show ?thesis using 1 sys_invI [OF R G] s1 by (auto simp: timer_done_def)
  next
    case False
    let ?s = "s\<lparr>clk := k, s_mtimecmp := mc, mtimecmp_reg := mc\<rparr>"
    have G1: "ginv ?s Q" using G by simp
    then have K: "kinv ?s Q" and S: "sem_served ?s Q" "flg_served ?s Q" by (simp_all add: ginv_def)
    have RR: "rep (links ?s) Q" using R by simp
    obtain ks where q: "Q TimerQ = Some (map TcbHead ks)" using timer_queue_tasks [OF K] by blast
    have "ok (if e then reschedule s2 else Some s2)
        (\<lambda>s'. sys_inv s' \<and> mstatus s' = mstatus s \<and> timer_done s Q s')"
      if X: "expired ?s Q (of_nat n) False e s2 Q2" for e s2 Q2
      by (rule ok_mono [OF expired_end [OF RR G1 X]])
        (use X timer_doneI [OF 1 False] in \<open>auto simp: expired_def s1\<close>)
    then have "ok (expire (of_nat n) False ?s) (\<lambda>(e, s2). ok (if e then reschedule s2 else Some s2)
        (\<lambda>s'. sys_inv s' \<and> mstatus s' = mstatus s \<and> timer_done s Q s'))"
      by (intro ok_mono [OF expire_ok [OF RR K S q]]) (clarify, blast)
    then show ?thesis using False by (simp add: s1 write_mtimecmp_eq)
  qed
qed

section \<open>Entering a wait\<close>

definition wait_tcb :: "tskwait \<Rightarrow> UINT \<Rightarrow> TCB \<Rightarrow> TCB" where
  "wait_tcb w d t = t\<lparr>tskstat := TTS_WAI, tskwait := w, delay_ticks := d\<rparr>"

definition wait_rings :: "nat \<Rightarrow> bool \<Rightarrow> rings \<Rightarrow> rings" where
  "wait_rings i tm Q = (if tm then push (TcbHead i) TimerQ (detach (TcbHead i) Q)
     else (detach (TcbHead i) Q)(TcbHead i \<mapsto> []))"

lemma schedule_timer_ok:
  assumes R: "rep (links s) Q" and q: "in_ring Q v (TcbHead i)" and tq: "Q TimerQ \<noteq> None"
    and C: "clock_ok (mtime s)"
    and P: "\<And>h n k. rep h (wait_rings i True Q) \<Longrightarrow> edges s k n \<Longrightarrow>
      ok (switch_away ((upd_tcb i (wait_tcb w (ticks + of_nat n)) s)\<lparr>clk := k, links := h\<rparr>)) P"
  shows "ok (tkmc_schedule_timer i ticks w s) P"
proof -
  let ?s = "upd_tcb i (\<lambda>t. t\<lparr>tskstat := TTS_WAI, tskwait := w\<rparr>) s"
  have "clock_ok (mtime ?s)" using C by simp
  note pass = pass_elapsed_periods_ok [OF this, of "s_mtimecmp s"]
  show ?thesis
    unfolding tkmc_schedule_timer_def Let_def ok_bind
  proof (rule ok_mono [OF pass], clarsimp simp del: ok_on_links, goal_cases)
    case (1 mc s1 n)
    then obtain k where s1: "s1 = ?s\<lparr>clk := k\<rparr>" by (auto simp: passed_def)
    then have e: "edges s k n" using passed_edges [of ?s n mc s1] 1 by simp
    show ?case
      unfolding s1
    proof (rule ok_del [of _ Q], goal_cases)
      case (3 h)
      show ?case
      proof (rule ok_add_tail [of _ "detach (TcbHead i) Q"], goal_cases)
        case (6 h2)
        then show ?case using P [of h2 k n] e by (simp add: wait_rings_def wait_tcb_def [abs_def])
      qed (use 3 tq in \<open>auto simp: mapped_def ring_simps\<close>)
    qed (use R q in simp_all)
  qed
qed

lemma wait_for_ever_ok:
  assumes R: "rep (links s) Q" and q: "in_ring Q v (TcbHead i)"
    and P: "\<And>h. rep h (wait_rings i False Q) \<Longrightarrow>
      ok (switch_away ((upd_tcb i (wait_tcb w 0) s)\<lparr>links := h\<rparr>)) P"
  shows "ok (wait_for_ever i w s) P"
  unfolding wait_for_ever_def Let_def ok_bind
  by (rule ok_park [of _ Q]) (use assms in \<open>simp_all add: wait_rings_def wait_tcb_def [abs_def]\<close>)

text \<open>
  The ticks of a wait: those of its time, and the edges that had passed when it began; a wait for
  ever has none.
\<close>

definition delayed_by :: "UINT \<Rightarrow> kernel \<Rightarrow> nat \<Rightarrow> UINT \<Rightarrow> bool" where
  "delayed_by ms s e d \<longleftrightarrow> (\<exists>n. edges s e n \<and> d = tkmc_ms_to_ticks ms + of_nat n)"

definition time_limit :: "TMO \<Rightarrow> kernel \<Rightarrow> nat \<Rightarrow> UINT \<Rightarrow> bool" where
  "time_limit tmout s e d \<longleftrightarrow> (if tmout > 0 then delayed_by (word_of_int tmout) s e d else d = 0)"

lemma time_limit_frame [simp]:
  "delayed_by ms (upd_tcb i f s) = delayed_by ms s" "delayed_by ms (s\<lparr>links := h\<rparr>) = delayed_by ms s"
  "delayed_by ms (s\<lparr>mstatus := m\<rparr>) = delayed_by ms s"
  "time_limit tmout (upd_tcb i f s) = time_limit tmout s" "time_limit tmout (s\<lparr>links := h\<rparr>) = time_limit tmout s"
  "time_limit tmout (s\<lparr>mstatus := m\<rparr>) = time_limit tmout s"
  by (simp_all add: fun_eq_iff delayed_by_def time_limit_def)

lemma start_wait_ok:
  assumes R: "rep (links s) Q" and q: "in_ring Q v (TcbHead i)" and tq: "Q TimerQ \<noteq> None"
    and C: "clock_ok (mtime s)"
    and P: "\<And>h d k. rep h (wait_rings i (tmout > 0) Q) \<Longrightarrow> time_limit tmout s k d \<Longrightarrow>
      ok (switch_away ((upd_tcb i (wait_tcb w d) s)\<lparr>clk := k, links := h\<rparr>)) P"
  shows "ok (start_wait i w tmout s) P"
proof (cases "tmout > 0")
  case True
  then show ?thesis
    unfolding start_wait_def using P
    by (auto simp: time_limit_def delayed_by_def intro!: schedule_timer_ok [OF R q tq C])
next
  case False
  have "ok (switch_away ((upd_tcb i (wait_tcb w 0) s)\<lparr>links := h\<rparr>)) P"
    if "rep h (wait_rings i False Q)" for h
  proof -
    have e: "(upd_tcb i (wait_tcb w 0) s)\<lparr>clk := clk s, links := h\<rparr> = (upd_tcb i (wait_tcb w 0) s)\<lparr>links := h\<rparr>"
      by (simp add: upd_tcb_def)
    show ?thesis using P [of h "clk s" 0, unfolded e] that False by (simp add: time_limit_def)
  qed
  then show ?thesis
    unfolding start_wait_def using False by (simp add: wait_for_ever_ok [OF R q])
qed

lemma switch_away_clk_inv:
  assumes "rep h Q" and "kinv s Q" and "sem_served s Q" and "flg_served s Q"
  shows "ok (switch_away (s\<lparr>clk := k, links := h\<rparr>)) (\<lambda>s'. mstatus s' = mstatus s \<and> sys_inv s')"
  using switch_away_inv [of "s\<lparr>clk := k, links := h\<rparr>" Q] assms by simp

text \<open>A wait for time only: the wait link stays by itself.\<close>

lemma wait_alone:
  assumes R: "rep h Q" and G: "ginv s Q" and c: "running s c" and w: "w = TTW_SLP \<or> w = TTW_DLY \<and> tm"
    and d: "tm \<or> d = 0" and R': "rep h' (wait_rings c tm Q)"
  shows "kinv (upd_tcb c (wait_tcb w d) s) (wait_rings c tm Q)"
    and "sem_served (upd_tcb c (wait_tcb w d) s) (wait_rings c tm Q)"
    and "flg_served (upd_tcb c (wait_tcb w d) s) (wait_rings c tm Q)"
proof -
  have K: "kinv s Q" using G by (simp add: ginv_def)
  note L = running_links [OF K c]
  have tq: "Q TimerQ \<noteq> None" using kinvD(2) [OF K] by (simp add: static_def)
  let ?Q = "wait_rings c tm Q"
  have T: "typed ?Q"
    unfolding wait_rings_def using kinvD(1) [OF K] L tq by (auto intro!: typed_intros simp: ring_simps)
  have M: "moved c (detach (TcbHead c) Q) ?Q"
    unfolding wait_rings_def using tq by (auto intro!: moved_intros simp: ring_simps)
  have own: "?Q (TcbWait c) = Some []" using L by (simp add: wait_rings_def ring_simps)
  have t: "task_ok (wait_tcb w d (tcbs s c)) ?Q c"
    using kinvD(4) [OF K L(1)] own L w d tq
    by (auto simp: task_ok_def head_ok_def wait_ok_def wait_tcb_def wait_rings_def ring_simps)
  note P = running_moved [where f = "wait_tcb w d", OF R G c T M own R' t]
  show "kinv (upd_tcb c (wait_tcb w d) s) ?Q" "sem_served (upd_tcb c (wait_tcb w d) s) ?Q"
    "flg_served (upd_tcb c (wait_tcb w d) s) ?Q" by (rule P)+
qed

text \<open>What sleeping does: a queued wake-up request is used up, or the task waits.\<close>

definition sleeps :: "nat \<Rightarrow> tskwait \<Rightarrow> (nat \<Rightarrow> UINT \<Rightarrow> bool) \<Rightarrow> kernel \<Rightarrow> kernel \<Rightarrow> bool" where
  "sleeps c w D s s' \<longleftrightarrow> (\<exists>d. D (clk s') d \<and> tcbs s' = (tcbs s)(c := wait_tcb w d (tcbs s c))) \<and> semcbs s' = semcbs s \<and>
     flgcbs s' = flgcbs s \<and> mbxcbs s' = mbxcbs s \<and> current s' = current s \<and> msip s'"

lemma sleeps_mstatus [simp]:
  "sleeps c w D (s\<lparr>mstatus := m\<rparr>) s' = sleeps c w D s s'" "sleeps c w D s (s'\<lparr>mstatus := m\<rparr>) = sleeps c w D s s'"
  by (simp_all add: sleeps_def)

lemma switch_away_sleeps:
  assumes "rep h Q" and "kinv (upd_tcb c (wait_tcb w d) s) Q" and "sem_served (upd_tcb c (wait_tcb w d) s) Q"
    and "flg_served (upd_tcb c (wait_tcb w d) s) Q" and "D k d"
  shows "ok (switch_away ((upd_tcb c (wait_tcb w d) s)\<lparr>clk := k, links := h\<rparr>)) (\<lambda>s'. mstatus s' = mstatus s \<and> sys_inv s' \<and> sleeps c w D s s')"
proof -
  let ?s = "(upd_tcb c (wait_tcb w d) s)\<lparr>clk := k, links := h\<rparr>"
  show ?thesis
  proof (rule ok_mono [OF switch_away_ok [of ?s Q]])
    fix s' assume s': "sched_ok s' Q \<and> s' = ?s\<lparr>next_tsk := top_ready Q, msip := True\<rparr>"
    then have "ginv s' Q" using assms by (auto simp: ginv_def)
    then show "mstatus s' = mstatus s \<and> sys_inv s' \<and> sleeps c w D s s'"
      using s' assms by (auto simp: sleeps_def intro!: sys_invI)
  qed (use assms in auto)
qed

definition slp_tsk_result :: "TMO \<Rightarrow> bool \<Rightarrow> kernel \<Rightarrow> ER outcome \<Rightarrow> kernel \<Rightarrow> bool" where
  "slp_tsk_result tmout can_block s r s' \<longleftrightarrow>
     (if tmout < TMO_FEVR then r = Return E_PAR \<and> s' = s
      else if \<not> can_block then r = Return E_CTX \<and> s' = s
      else (\<exists>c. current s = Some c \<and>
        (if wupcnt (tcbs s c) > 0 then r = Return E_OK \<and> s' = upd_tcb c (\<lambda>t. t\<lparr>wupcnt := wupcnt t - 1\<rparr>) s
         else if tmout = TMO_POL then r = Return E_TMOUT \<and> s' = s
         else r = Block \<and> sleeps c TTW_SLP (time_limit tmout s) s s')))"

lemma unmask_tcb: "(upd_tcb i f (s\<lparr>mstatus := m\<rparr>))\<lparr>mstatus := mstatus s\<rparr> = upd_tcb i f s"
  by (simp add: upd_tcb_def)

lemma slp_tsk_result_unmask:
  "slp_tsk_result tmout b (s\<lparr>mstatus := m\<rparr>) r s' \<Longrightarrow> slp_tsk_result tmout b s r (s'\<lparr>mstatus := mstatus s\<rparr>)"
  unfolding slp_tsk_result_def by (cases "current s") (simp_all add: unmask_tcb split: if_split_asm)

text \<open>
  The critical section of a call that may wait: it is refused where the caller cannot block, and its
  body runs on behalf of a running task.
\<close>

lemma crit_wait:
  fixes s :: kernel
  defines "b \<equiv> tkmc_can_block (mstatus s OR NOT MSTATUS_MIE) s"
  assumes I: "sys_inv s" and st: "settled s" and C: "clock_ok (mtime s)"
    and refused: "\<And>s0. \<not> b \<Longrightarrow> P s0 (Return e) s0"
    and body: "\<And>s0 Q c. b \<Longrightarrow> rep (links s0) Q \<Longrightarrow> ginv s0 Q \<Longrightarrow> kinv s0 Q \<Longrightarrow> running s0 c \<Longrightarrow> current s0 = Some c \<Longrightarrow>
      clock_ok (mtime s0) \<Longrightarrow> ok (body s0) (\<lambda>(r, s'). r \<noteq> Halt \<and> mstatus s' = mstatus s0 \<and> sys_inv s' \<and> P s0 r s')"
    and P: "\<And>m r s'. P (s\<lparr>mstatus := m\<rparr>) r s' \<Longrightarrow> P s r (s'\<lparr>mstatus := mstatus s\<rparr>)"
  shows "ok (crit (\<lambda>intsts s. if \<not> tkmc_can_block intsts s then Some (Return e, s) else body s) s)
    (\<lambda>(r, s'). sys_inv s' \<and> mstatus s' = mstatus s \<and> P s r s')"
proof (rule crit_result [where P = P, OF I _ P], goal_cases)
  case (1 s0 Q)
  have b: "tkmc_can_block (mstatus s OR NOT MSTATUS_MIE) s0 = b"
    using 1(1) by (simp add: b_def tkmc_can_block_def tkmc_in_isr_def)
  show ?case
  proof (cases b)
    case True
    then obtain c where "running s0 c" using can_block_runs [OF 1(3,1) st] b by blast
    then show ?thesis using body [OF True 1(2,3), of c] True b C 1 by (simp add: ginv_def running_def)
  next
    case False
    then show ?thesis using refused b sys_invI [OF 1(2,3)] by simp
  qed
qed

lemma tk_slp_tsk_ok:
  assumes I: "sys_inv s" and st: "settled s" and C: "clock_ok (mtime s)"
  shows "ok (tk_slp_tsk tmout s) (\<lambda>(r, s'). sys_inv s' \<and> mstatus s' = mstatus s \<and>
    slp_tsk_result tmout (tkmc_can_block (mstatus s OR NOT MSTATUS_MIE) s) s r s')"
  unfolding tk_slp_tsk_def Let_def
proof (intro ok_ifI, goal_cases)
  case ids: 2
  let ?b = "tkmc_can_block (mstatus s OR NOT MSTATUS_MIE) s"
  show ?case
  proof (rule crit_wait [OF I st C, where P = "slp_tsk_result tmout ?b", OF _ _ slp_tsk_result_unmask], goal_cases)
    case (2 s0 Q c)
    note R = 2(2) and G = 2(3) and K = 2(4) and L = running_links [OF 2(4,5)]
    have tq: "Q TimerQ \<noteq> None" using kinvD(2) [OF K] by (simp add: static_def)
    have dec: "sys_inv (upd_tcb c (\<lambda>t. t\<lparr>wupcnt := wupcnt t - 1\<rparr>) s0)" if "wupcnt (tcbs s0 c) > 0"
    proof (rule upd_plain_inv [OF R G])
      have "wupcnt (tcbs s0 c) - 1 \<le> wupcnt (tcbs s0 c)"
        using that by (simp add: word_le_nat_alt unat_minus_one word_gt_0)
      also have "\<dots> \<le> TK_WAKEUP_MAXCNT" using kinvD(4) [OF K L(1)] by (simp add: task_ok_def)
      finally show "wupcnt ((tcbs s0 c)\<lparr>wupcnt := wupcnt (tcbs s0 c) - 1\<rparr>) \<le> TK_WAKEUP_MAXCNT" by simp
    qed (simp add: same_task_def same_wait_def)
    have "ok (start_wait c TTW_SLP tmout s0)
        (\<lambda>s'. mstatus s' = mstatus s0 \<and> sys_inv s' \<and> sleeps c TTW_SLP (time_limit tmout s0) s0 s')"
      by (intro start_wait_ok [OF R L(2) tq 2(7)] switch_away_sleeps)
        (use wait_alone [OF R G 2(5), of TTW_SLP "0 < tmout"] in \<open>auto simp: time_limit_def split: if_split_asm\<close>)
    then show ?case
      using 2(1,6) ids dec sys_invI [OF R G]
      by (auto simp: start_wait_def slp_tsk_result_def TMO_POL_def split: if_split_asm elim!: ok_mono)
  qed (use ids in \<open>simp add: slp_tsk_result_def\<close>)
qed (use I in \<open>simp add: slp_tsk_result_def\<close>)

lemma tk_slp_tsk_call_ok:
  assumes "sys_inv s" and "settled s" and "clock_ok (mtime s)"
  shows "call_ok (tk_slp_tsk tmout s) s"
  by (rule result_call_ok [OF tk_slp_tsk_ok [OF assms]])

lemma tkmc_yield_returns: "tkmc_yield s = Some (r, s') \<Longrightarrow> r = Return ()"
  by (auto simp: tkmc_yield_def crit_def Let_def split: Option.bind_splits prod.splits)

definition dly_tsk_result :: "RELTIM \<Rightarrow> bool \<Rightarrow> kernel \<Rightarrow> ER outcome \<Rightarrow> kernel \<Rightarrow> bool" where
  "dly_tsk_result dlytm can_block s r s' \<longleftrightarrow>
     (if \<not> can_block then r = Return E_CTX \<and> s' = s
      else if dlytm = 0 then r = Return E_OK \<and> tkmc_yield s = Some (Return (), s')
      else r = Block \<and> (\<exists>c. current s = Some c \<and> sleeps c TTW_DLY (delayed_by dlytm s) s s'))"

lemma tk_dly_tsk_ok:
  assumes I: "sys_inv s" and st: "settled s" and C: "clock_ok (mtime s)"
  shows "ok (tk_dly_tsk dlytm s) (\<lambda>(r, s'). sys_inv s' \<and> mstatus s' = mstatus s \<and>
    dly_tsk_result dlytm (tkmc_can_block (mstatus s OR NOT MSTATUS_MIE) s) s r s')"
proof -
  let ?body = "\<lambda>intsts s. if \<not> tkmc_can_block intsts s then Some (Return E_CTX, s)
       else if dlytm = 0 then Some (Return E_OK, s)
       else do {
         c \<leftarrow> current s;
         s \<leftarrow> tkmc_schedule_timer c (tkmc_ms_to_ticks dlytm) TTW_DLY s;
         Some (Block, s) }"
  let ?s = "s\<lparr>mstatus := mstatus s AND NOT MSTATUS_MIE\<rparr>" and ?b = "tkmc_can_block (mstatus s OR NOT MSTATUS_MIE) s"
  obtain Q where R: "rep (links ?s) Q" and G: "ginv ?s Q" using I by (auto simp: sys_inv_def)
  have K: "kinv ?s Q" using G by (simp add: ginv_def)
  have b: "tkmc_can_block (mstatus s OR NOT MSTATUS_MIE) ?s = ?b" by (simp add: tkmc_can_block_def tkmc_in_isr_def)
  show ?thesis
  proof (cases ?b)
    case False
    then have "crit ?body s = Some (Return E_CTX, s)" by (intro crit_refuse) (simp add: b)
    then show ?thesis using I False by (simp add: tk_dly_tsk_def dly_tsk_result_def er_defs)
  next
    case True
    obtain c where c: "running ?s c" using can_block_runs [OF G refl st] True b by blast
    then have cur: "current s = Some c" and c': "running s c" by (simp_all add: running_def)
    show ?thesis
    proof (cases "dlytm = 0")
      case zero: True
      then have "crit ?body s = Some (Return E_OK, s)" using True by (intro crit_refuse) (simp add: b)
      then show ?thesis
        using tkmc_yield_call_ok [OF I c'] tkmc_yield_returns [of s] zero True
        by (auto simp: tk_dly_tsk_def dly_tsk_result_def call_ok_def elim!: okE)
    next
      case False
      note L = running_links [OF K c]
      have tq: "Q TimerQ \<noteq> None" using kinvD(2) [OF K] by (simp add: static_def)
      have "ok (tkmc_schedule_timer c (tkmc_ms_to_ticks dlytm) TTW_DLY ?s)
          (\<lambda>s'. mstatus s' = mstatus ?s \<and> sys_inv s' \<and> sleeps c TTW_DLY (delayed_by dlytm ?s) ?s s')"
        by (intro schedule_timer_ok [OF R L(2) tq] switch_away_sleeps)
          (use wait_alone [OF R G c, of TTW_DLY True] C in \<open>auto simp: delayed_by_def\<close>)
      then have "ok (crit ?body s) (\<lambda>(r, s'). r = Block \<and> sys_inv s' \<and> mstatus s' = mstatus s \<and>
          sleeps c TTW_DLY (delayed_by dlytm s) s s')"
        using True False cur by (intro ok_crit) (auto simp: b elim!: ok_mono)
      then show ?thesis using True False cur by (auto simp: tk_dly_tsk_def dly_tsk_result_def elim!: ok_mono)
    qed
  qed
qed

lemma tk_dly_tsk_call_ok:
  assumes "sys_inv s" and "settled s" and "clock_ok (mtime s)"
  shows "call_ok (tk_dly_tsk dlytm s) s"
  by (rule result_call_ok [OF tk_dly_tsk_ok [OF assms]])

lemma take_wupcause_call_ok:
  assumes "sys_inv s" and "current s \<noteq> None"
  shows "call_ok (take_wupcause s) s"
  unfolding take_wupcause_def
proof (intro crit_call_ok assms, goal_cases)
  case (1 s0 Q)
  then obtain c where c: "current s0 = Some c" using assms(2) by auto
  have K: "kinv s0 Q" using 1 by (simp add: ginv_def)
  have "c < CFN_MAX_TSKID" using kinvD(3) [OF K] c by (simp add: cur_ok_def)
  then have "wupcnt (tcbs s0 c) \<le> TK_WAKEUP_MAXCNT" using kinvD(4) [OF K] by (simp add: task_ok_def)
  then show ?case using upd_plain_inv [OF 1(2,3)] c by (simp add: same_task_def same_wait_def)
qed

lemma tk_dly_tsk_resume_call_ok: "sys_inv s \<Longrightarrow> current s \<noteq> None \<Longrightarrow> call_ok (tk_dly_tsk_resume s) s"
  using take_wupcause_call_ok [of s] by (auto simp: tk_dly_tsk_resume_def call_ok_def elim!: ok_mono)

section \<open>Properties\<close>

text \<open>C29: while the compare register is rewritten no intermediate value is below both the old and the new
  deadline, so the timer raises no interrupt that neither of them would.\<close>

theorem write_mtimecmp_no_early_tick:
  "case write_mtimecmp_steps v s of [s1, s2, s3] \<Rightarrow>
     mtimecmp_reg s \<le> mtimecmp_reg s1 \<and> v \<le> mtimecmp_reg s2 \<and> s3 = s\<lparr>mtimecmp_reg := v\<rparr> | _ \<Rightarrow> False"
proof -
  have low: "bit (0xffffffff :: UD) n \<longleftrightarrow> n < 32" if "n < 64" for n
    using bit_mask_iff [of 32 n, where 'a = UD] that by (simp add: mask_eq_exp_minus_1)
  have "push_bit 32 (drop_bit 32 r) OR 0xffffffff = r OR (0xffffffff :: UD)" for r :: UD
    by (rule bit_word_eqI) (use low in \<open>auto simp: bit_or_iff bit_push_bit_iff bit_drop_bit_eq\<close>)
  moreover have "push_bit 32 (ucast (ucast (drop_bit 32 v) :: UW)) OR take_bit 32 (r OR 0xffffffff) = v OR (0xffffffff :: UD)" for r :: UD
    by (rule bit_word_eqI) (use low in \<open>auto simp: bit_or_iff bit_push_bit_iff bit_drop_bit_eq bit_take_bit_iff bit_ucast_iff\<close>)
  moreover have "last (write_mtimecmp_steps v s) = s\<lparr>mtimecmp_reg := v\<rparr>"
    using write_mtimecmp_eq by (simp add: write_mtimecmp_def)
  ultimately show ?thesis
    by (simp add: write_mtimecmp_steps_def Let_def out_mtimecmp_low_def out_mtimecmp_high_def le_word_or2)
qed

end
