(* ===== verification/TK_Object.thy ===== *)
theory TK_Object
  imports TK_Timer
begin

text \<open>
  What semaphores, event flags and mailboxes share: the scan that finds the place of a new
  element in a queue ordered by priority, the state of a task that starts to wait on a queue, and
  the move of a control block between its table and the free list.
\<close>

section \<open>The insertion scans\<close>

text \<open>
  The contract of a scan: from a node of the queue on, it links the new node in front of the
  first one that passes the test, or says that there is none. The four scans of the kernel are
  written out separately in the source; each is an instance.
\<close>

locale insertion_scan =
  fixes q :: node and new :: node and test :: "kernel \<Rightarrow> node \<Rightarrow> bool"
    and scan :: "node \<Rightarrow> kernel \<Rightarrow> (bool \<times> kernel) option"
  assumes stop: "scan q s = Some (False, s)"
    and hit: "fits q x \<Longrightarrow> test s x \<Longrightarrow> scan x s =
      do { p \<leftarrow> get_prev x (links s); s \<leftarrow> on_links (tkmc_list_add new p) s; Some (True, s) }"
    and miss: "fits q x \<Longrightarrow> \<not> test s x \<Longrightarrow>
      scan x s = do { n \<leftarrow> get_next x (links s); scan n s }"
begin

lemma scan_ok:
  assumes R: "rep (links s) Q" and "Q q = Some (us @ xs)" and "\<forall>x \<in> set (us @ xs). fits q x"
    and "\<forall>u \<in> set us. \<not> test s u" and n: "idle_node new Q" "mapped new" "new \<noteq> q"
  shows "ok (scan (hd (xs @ [q])) s) (\<lambda>(b, s'). if b
    then \<exists>h. s' = s\<lparr>links := h\<rparr> \<and> rep h (enlist (test s) new q Q)
    else s' = s \<and> (\<forall>x \<in> set (us @ xs). \<not> test s x))"
  using assms(2-4)
proof (induction xs arbitrary: us)
  case Nil
  then show ?case using stop [of s] by simp
next
  case (Cons x xs)
  have f: "fits q x" using Cons.prems(2) by simp
  show ?case
  proof (cases "test s x")
    case True
    have "enlist (test s) new q Q = Q(new := None, q := Some (us @ new # x # xs))"
      using Cons.prems True by (simp add: enlist_def insert_before_split)
    then show ?thesis
      using tkmc_list_add_before_rep [OF R Cons.prems(1) n] hit [OF f True]
      by (auto elim!: ok_mono)
  next
    case False
    have q: "Q q = Some ((us @ [x]) @ xs)" using Cons.prems(1) by simp
    have "scan x s = scan (hd (xs @ [q])) s"
      using get_next_member [OF R Cons.prems(1)] miss [OF f False] by simp
    moreover have "ok (scan (hd (xs @ [q])) s) (\<lambda>(b, s'). if b
        then \<exists>h. s' = s\<lparr>links := h\<rparr> \<and> rep h (enlist (test s) new q Q)
        else s' = s \<and> (\<forall>x \<in> set ((us @ [x]) @ xs). \<not> test s x))"
      using Cons.prems(2,3) False by (intro Cons.IH [OF q]) auto
    ultimately show ?thesis by (auto elim!: ok_mono split: if_splits)
  qed
qed

text \<open>The scan from the head, and the tail of the queue if nothing was found.\<close>

lemma insert_ok:
  assumes R: "rep (links s) Q" and q: "Q q = Some xs" and f: "\<forall>x \<in> set xs. fits q x"
    and n: "idle_node new Q" "mapped new" "new \<noteq> q"
  shows "ok (scan (hd (xs @ [q])) s) (\<lambda>(b, s'). ok (if b then Some s' else on_links (tkmc_list_add_tail new q) s')
    (\<lambda>s'. \<exists>h. s' = s\<lparr>links := h\<rparr> \<and> rep h (enlist (test s) new q Q)))"
proof -
  have q': "Q q = Some ([] @ xs)" using q by simp
  have tail: "ok (on_links (tkmc_list_add_tail new q) s)
      (\<lambda>s'. \<exists>h. s' = s\<lparr>links := h\<rparr> \<and> rep h (enlist (test s) new q Q))" if "\<forall>x \<in> set xs. \<not> test s x"
  proof (rule ok_add_tail [OF R _ n])
    fix h assume "rep h (push new q Q)"
    moreover have "push new q Q = enlist (test s) new q Q"
      using that q by (simp add: push_def enlist_def insert_before_tail)
    ultimately show "\<exists>h'. s\<lparr>links := h\<rparr> = s\<lparr>links := h'\<rparr> \<and> rep h' (enlist (test s) new q Q)" by auto
  qed (use q in simp)
  show ?thesis
    by (rule ok_mono [OF scan_ok [OF R q' _ _ n]]) (use f tail in \<open>auto split: if_splits\<close>)
qed

end

section \<open>A task that starts to wait on a queue\<close>

lemma wait_on_rings:
  assumes R: "rep h Q" and K: "kinv s Q" and c: "running s c" and q: "Q q = Some ws"
    and f: "fits q (TcbWait c)" and Q': "Q' = wait_rings c tm (enlist P (TcbWait c) q Q)"
  shows "typed Q'" and "moved c Q Q'" and "Q' q = Some (insert_before P (TcbWait c) ws)"
    and "\<And>v. in_ring Q' v (TcbWait c) \<longleftrightarrow> v = q"
    and "\<And>v. plain v \<Longrightarrow> v \<noteq> q \<Longrightarrow> v \<noteq> TimerQ \<Longrightarrow> Q' v = Q v"
    and "if tm then in_ring Q' TimerQ (TcbHead c) else Q' (TcbHead c) = Some []"
proof -
  note L = running_links [OF K c]
  have tq: "Q TimerQ \<noteq> None" using kinvD(2) [OF K] by (simp add: static_def)
  have w: "\<not> in_ring Q v (TcbWait c)" for v using rep_owner_loose [OF R L(3)] by (simp add: loose_def)
  have nq: "q \<noteq> TimerQ" "q \<noteq> TcbHead c" "q \<noteq> TcbWait c" "plain q" using f by (cases q; simp)+
  have h: "TcbHead c \<notin> set ws"
    using rep_in_ring_unique [OF R L(2), of q] q f by (cases q) (auto simp: in_ring_def)
  let ?E = "enlist P (TcbWait c) q Q"
  have tE: "?E TimerQ \<noteq> None" using tq nq by (simp add: ring_simps)
  show "typed Q'"
    unfolding Q' wait_rings_def using kinvD(1) [OF K] L(1) q f tE
    by (auto intro!: typed_intros simp: ring_simps split: if_splits)
  show "moved c Q Q'"
    unfolding Q' wait_rings_def using q tE
    by (auto intro!: moved_intros simp: ring_simps split: if_splits)
  show "Q' q = Some (insert_before P (TcbWait c) ws)"
  proof -
    have "filter (\<lambda>x. x \<noteq> TcbHead c) (insert_before P (TcbWait c) ws) = insert_before P (TcbWait c) ws"
      using h by (intro filter_True) auto
    then show ?thesis unfolding Q' wait_rings_def using q nq by (auto simp: ring_simps)
  qed
  show "in_ring Q' v (TcbWait c) \<longleftrightarrow> v = q" for v
    unfolding Q' wait_rings_def using q nq w tE by (auto simp: ring_simps)
  show "Q' v = Q v" if "plain v" "v \<noteq> q" "v \<noteq> TimerQ" for v
  proof (cases "Q v")
    case None
    then show ?thesis using that unfolding Q' wait_rings_def by (auto simp: ring_simps plain_def keep_def)
  next
    case (Some xs)
    have "TcbHead c \<notin> set xs"
      using rep_in_ring_unique [OF R L(2), of v] Some that by (auto simp: in_ring_def plain_def)
    then show ?thesis
      using that Some unfolding Q' wait_rings_def by (auto simp: ring_simps plain_def keep_def)
  qed
  show "if tm then in_ring Q' TimerQ (TcbHead c) else Q' (TcbHead c) = Some []"
    unfolding Q' wait_rings_def using tE by (auto simp: ring_simps)
qed

section \<open>A control block leaves or joins the free list\<close>

text \<open>The existence mark of an object identifier.\<close>

lemma exists_id_clear [simp]: "exists_id (w AND NOT NOEXS_MASK)"
  by (simp add: exists_id_def and.assoc)

lemma exists_id_mark [simp]: "\<not> exists_id (w OR NOEXS_MASK)"
proof
  assume "exists_id (w OR NOEXS_MASK)"
  then have "bit ((w OR NOEXS_MASK) AND NOEXS_MASK) 31 = bit (0 :: UW) 31" by (simp add: exists_id_def)
  then show False by (simp add: NOEXS_MASK_def bit_simps)
qed

lemma clear_id [simp]:
  "(w AND NOT NOEXS_MASK) AND NOT NOEXS_MASK = w AND NOT NOEXS_MASK"
  "(w OR NOEXS_MASK) AND NOT NOEXS_MASK = w AND NOT NOEXS_MASK"
  by (rule bit_eqI; auto simp: bit_simps)+

definition obj_move :: "node \<Rightarrow> node \<Rightarrow> rings \<Rightarrow> rings \<Rightarrow> bool" where
  "obj_move F q Q Q' \<longleftrightarrow> (\<forall>n. n \<noteq> F \<longrightarrow> n \<noteq> q \<longrightarrow> Q' n = Q n) \<and> Q' F \<noteq> None \<and> F \<noteq> q \<and>
     (Q q = None \<or> Q q = Some []) \<and> (Q' q = None \<or> Q' q = Some []) \<and>
     (\<forall>n. n \<noteq> q \<longrightarrow> in_ring Q' F n = in_ring Q F n)"

lemma obj_move_take:
  assumes R: "rep h Q" and q: "in_ring Q F q"
  shows "obj_move F q Q ((detach q Q)(q \<mapsto> []))"
proof -
  have "Q q = None" by (rule rep_member_not_owner [OF R q])
  moreover have "F \<noteq> q" using q \<open>Q q = None\<close> by (auto simp: in_ring_def)
  moreover have "detach q Q n = Q n" if "n \<noteq> F" "n \<noteq> q" for n
  proof (cases "Q n")
    case (Some xs)
    then have "q \<notin> set xs" using rep_in_ring_unique [OF R q, of n] that by (auto simp: in_ring_def)
    then show ?thesis using Some that by (simp add: ring_simps)
  qed (simp add: ring_simps)
  moreover have "Q F \<noteq> None" using q by (auto simp: in_ring_def)
  ultimately show ?thesis unfolding obj_move_def by (auto simp: ring_simps)
qed

lemma obj_move_free: "Q q = Some [] \<Longrightarrow> Q F \<noteq> None \<Longrightarrow> F \<noteq> q \<Longrightarrow> obj_move F q Q (push q F Q)"
  unfolding obj_move_def by (auto simp: ring_simps)

lemma obj_move_in_ring: "obj_move F q Q Q' \<Longrightarrow> n \<noteq> q \<Longrightarrow> in_ring Q' v n = in_ring Q v n"
  by (cases "v = F"; cases "v = q") (auto simp: obj_move_def in_ring_def)

lemma task_ok_rings:
  assumes "\<And>v. in_ring Q' v (TcbHead i) = in_ring Q v (TcbHead i)"
    "\<And>v. in_ring Q' v (TcbWait i) = in_ring Q v (TcbWait i)"
    "Q' (TcbHead i) = Q (TcbHead i)" "Q' (TcbWait i) = Q (TcbWait i)"
  shows "task_ok t Q' i = task_ok t Q i"
  unfolding task_ok_def head_ok_def wait_ok_def idle_node_def loose_def assms ..

lemma obj_move_task_ok:
  assumes "obj_move F q Q Q'" and "F = FreeSem \<and> q = SemQ j \<or> F = FreeFlg \<and> q = FlgQ j \<or>
    F = FreeMbx \<and> q = MbxWaitQ j"
  shows "task_ok t Q' i = task_ok t Q i"
  using assms obj_move_in_ring [OF assms(1)] by (intro task_ok_rings) (auto simp: obj_move_def)

lemma obj_move_static:
  assumes "obj_move F q Q Q'" and "F = FreeSem \<and> q = SemQ j \<or> F = FreeFlg \<and> q = FlgQ j \<or>
    F = FreeMbx \<and> q = MbxWaitQ j" and "static Q"
  shows "static Q'"
  using assms unfolding static_def obj_move_def by (elim disjE conjE) simp_all

lemma sem_served_move:
  assumes M: "obj_move FreeSem (SemQ j) Q Q'" and S: "sem_served s Q"
  shows "sem_served (upd_sem j f s) Q'"
proof -
  have "wait_req (upd_sem j f s) = wait_req s" by (auto intro!: wait_req_cong)
  then show ?thesis
    using M S unfolding sem_served_def obj_move_def
    by (auto simp: held_back_def split: if_splits)
qed

lemma kinv_sem_move:
  assumes K: "kinv s Q" and M: "obj_move FreeSem (SemQ j) Q Q'" and T: "typed Q'"
    and j: "sem_ok (upd_sem j f s) Q' j"
  shows "kinv (upd_sem j f s) Q'"
proof -
  have "task_ok (tcbs s i) Q' i" if "i < CFN_MAX_TSKID" for i
    using obj_move_task_ok [OF M, of j] kinvD(4) [OF K that] by simp
  moreover have "sem_ok (upd_sem j f s) Q' k" if "k < CFN_MAX_SEMID" for k
    using kinvD(5) [OF K that] j M queue_ok_cong(1) [of "upd_sem j f s" s k]
    by (cases "k = j") (auto simp: sem_ok_def Let_def obj_move_def)
  moreover have "flg_ok (upd_sem j f s) Q' k" if "k < CFN_MAX_FLGID" for k
    using kinvD(6) [OF K that] M queue_ok_cong(2) [of "upd_sem j f s" s k] obj_move_in_ring [OF M]
    by (auto simp: flg_ok_def Let_def obj_move_def)
  moreover have "mbx_ok (upd_sem j f s) Q' k" if "k < CFN_MAX_MBXID" for k
    using kinvD(7) [OF K that] M queue_ok_cong(3) [of "upd_sem j f s" s k] obj_move_in_ring [OF M]
    by (auto simp: mbx_ok_def Let_def obj_move_def mbx_queue_ok_def)
  moreover have "cur_ok (upd_sem j f s)" using kinvD(3) [OF K] by (simp add: cur_ok_def)
  moreover have "static Q'" using obj_move_static [OF M, of j] kinvD(2) [OF K] by simp
  ultimately show ?thesis using T by (simp add: kinv_def)
qed

lemma kinv_flg_move:
  assumes K: "kinv s Q" and M: "obj_move FreeFlg (FlgQ j) Q Q'" and T: "typed Q'"
    and j: "flg_ok (upd_flg j f s) Q' j"
  shows "kinv (upd_flg j f s) Q'"
proof -
  have "task_ok (tcbs s i) Q' i" if "i < CFN_MAX_TSKID" for i
    using obj_move_task_ok [OF M, of j] kinvD(4) [OF K that] by simp
  moreover have "flg_ok (upd_flg j f s) Q' k" if "k < CFN_MAX_FLGID" for k
    using kinvD(6) [OF K that] j M queue_ok_cong(2) [of "upd_flg j f s" s k]
    by (cases "k = j") (auto simp: flg_ok_def Let_def obj_move_def)
  moreover have "sem_ok (upd_flg j f s) Q' k" if "k < CFN_MAX_SEMID" for k
    using kinvD(5) [OF K that] M queue_ok_cong(1) [of "upd_flg j f s" s k] obj_move_in_ring [OF M]
    by (auto simp: sem_ok_def Let_def obj_move_def)
  moreover have "mbx_ok (upd_flg j f s) Q' k" if "k < CFN_MAX_MBXID" for k
    using kinvD(7) [OF K that] M queue_ok_cong(3) [of "upd_flg j f s" s k] obj_move_in_ring [OF M]
    by (auto simp: mbx_ok_def Let_def obj_move_def mbx_queue_ok_def)
  moreover have "cur_ok (upd_flg j f s)" using kinvD(3) [OF K] by (simp add: cur_ok_def)
  moreover have "static Q'" using obj_move_static [OF M, of j] kinvD(2) [OF K] by simp
  ultimately show ?thesis using T by (simp add: kinv_def)
qed

lemma kinv_mbx_move:
  assumes K: "kinv s Q" and M: "obj_move FreeMbx (MbxWaitQ j) Q Q'" and T: "typed Q'"
    and j: "mbx_ok (upd_mbx j f s) Q' j"
  shows "kinv (upd_mbx j f s) Q'"
proof -
  have "task_ok (tcbs s i) Q' i" if "i < CFN_MAX_TSKID" for i
    using obj_move_task_ok [OF M, of j] kinvD(4) [OF K that] by simp
  moreover have "mbx_ok (upd_mbx j f s) Q' k" if "k < CFN_MAX_MBXID" for k
    using kinvD(7) [OF K that] j M queue_ok_cong(3) [of "upd_mbx j f s" s k]
    by (cases "k = j") (auto simp: mbx_ok_def Let_def obj_move_def mbx_queue_ok_def)
  moreover have "sem_ok (upd_mbx j f s) Q' k" if "k < CFN_MAX_SEMID" for k
    using kinvD(5) [OF K that] M queue_ok_cong(1) [of "upd_mbx j f s" s k] obj_move_in_ring [OF M]
    by (auto simp: sem_ok_def Let_def obj_move_def)
  moreover have "flg_ok (upd_mbx j f s) Q' k" if "k < CFN_MAX_FLGID" for k
    using kinvD(6) [OF K that] M queue_ok_cong(2) [of "upd_mbx j f s" s k] obj_move_in_ring [OF M]
    by (auto simp: flg_ok_def Let_def obj_move_def)
  moreover have "cur_ok (upd_mbx j f s)" using kinvD(3) [OF K] by (simp add: cur_ok_def)
  moreover have "static Q'" using obj_move_static [OF M, of j] kinvD(2) [OF K] by simp
  ultimately show ?thesis using T by (simp add: kinv_def)
qed

lemma obj_move_ready:
  assumes "obj_move F q Q Q'" and "\<And>p. F \<noteq> ReadyQ p" and "\<And>p. q \<noteq> ReadyQ p"
  shows "top_ready Q' = top_ready Q"
  by (rule top_ready_cong) (use assms in \<open>metis obj_move_def\<close>)

lemma obj_move_served:
  assumes "obj_move F n Q Q'" and "F = FreeFlg \<or> F = FreeMbx" and "\<And>k. n \<noteq> SemQ k" and "sem_served s Q"
  shows "sem_served s Q'"
proof -
  have "Q' (SemQ k) = Q (SemQ k)" for k using assms(1,2) assms(3) [of k] by (auto simp: obj_move_def)
  then show ?thesis using assms(4) by (simp add: sem_served_def)
qed

section \<open>The tables of objects\<close>

lemma number_exists: "j < 100 \<Longrightarrow> exists_id (of_nat (Suc j)) \<and> (of_nat (Suc j) :: UW) AND NOT NOEXS_MASK = of_nat (Suc j)"
proof -
  assume "j < 100"
  then have "of_nat (Suc j) = take_bit 31 (of_nat (Suc j) :: UW)" by (simp only: take_bit_of_nat) (simp add: take_bit_nat_eq_self del: of_nat_Suc)
  moreover have "exists_id (take_bit 31 w) \<and> take_bit 31 w AND NOT NOEXS_MASK = take_bit 31 w" for w :: UW
  proof -
    have "bit NOEXS_MASK n \<longleftrightarrow> n = 31" for n
      using bit_exp_iff [of 31 n, where 'a = UW] by (auto simp: NOEXS_MASK_def dest: bit_imp_le_length)
    then show ?thesis by (auto simp: exists_id_def bit_simps intro!: bit_word_eqI)
  qed
  ultimately show ?thesis by metis
qed

lemma small_id_sint: "j < 100 \<Longrightarrow> sint (of_nat (Suc j) :: UW) = int j + 1"
  using signed_take_bit_int_eq_self [of 31 "int (Suc j)"] by (simp only: signed_of_nat) simp

text \<open>
  The contract of a table of objects: its control blocks are numbered, the blocks on its free list are
  those without an object, and a link of the free list leads back to its block. The three tables of
  the kernel are instances, and the code that the three create calls share (take the first block off
  the free list, give it an empty queue) is gone through once.
\<close>

locale object_table =
  fixes F :: node and qn :: "nat \<Rightarrow> node" and mx :: nat and ident :: "kernel \<Rightarrow> nat \<Rightarrow> UW" and of_link :: "node \<Rightarrow> nat option"
  assumes number: "kinv s Q \<Longrightarrow> j < mx \<Longrightarrow> ident s j AND NOT NOEXS_MASK = of_nat (Suc j)"
    and unused: "rep h Q \<Longrightarrow> kinv s Q \<Longrightarrow> j < mx \<Longrightarrow> exists_id (ident s j) \<longleftrightarrow> \<not> in_ring Q F (qn j)"
    and member: "kinv s Q \<Longrightarrow> in_ring Q F n \<Longrightarrow> \<exists>j < mx. n = qn j"
    and table: "kinv s Q \<Longrightarrow> Q F \<noteq> None"
    and links_back: "of_link (qn j) = Some j"
    and small: "mx \<le> 100"
begin

lemma first_unused:
  assumes R: "rep h Q" and K: "kinv s Q" and q: "Q F = Some (n # ns)"
  obtains j where "j < mx" and "n = qn j" and "in_ring Q F (qn j)" and "\<not> exists_id (ident s j)"
    and "((detach (qn j) Q)(qn j \<mapsto> [])) F = Some ns" and "obj_move F (qn j) Q ((detach (qn j) Q)(qn j \<mapsto> []))"
proof -
  have m: "in_ring Q F n" using q by (simp add: in_ring_def)
  then obtain j where j: "j < mx" "n = qn j" using member [OF K] by blast
  note M = obj_move_take [OF R m]
  have "((detach n Q)(n \<mapsto> [])) F = Some ns"
    using q M repD(2) [OF R q] by (auto simp: obj_move_def ring_simps intro!: filter_True)
  then show thesis using that [of j] j m unused [OF R K j(1)] M by simp
qed

lemma allocate:
  assumes R: "rep (links s) Q" and G: "ginv s Q"
    and full: "\<forall>j < mx. exists_id (ident s j) \<Longrightarrow> ok full P"
    and rest: "\<And>j ns h. j < mx \<Longrightarrow> rep h ((detach (qn j) Q)(qn j \<mapsto> [])) \<Longrightarrow> obj_move F (qn j) Q ((detach (qn j) Q)(qn j \<mapsto> [])) \<Longrightarrow>
      list_of F (links s) = Some (qn j # ns) \<Longrightarrow> ((detach (qn j) Q)(qn j \<mapsto> [])) F = Some ns \<Longrightarrow> \<not> exists_id (ident s j) \<Longrightarrow>
      ident s j AND NOT NOEXS_MASK = of_nat (Suc j) \<Longrightarrow> sint (of_nat (Suc j) :: UW) = int j + 1 \<Longrightarrow> ok (rest j (s\<lparr>links := h\<rparr>)) P"
  shows "ok (do { e \<leftarrow> tkmc_list_empty F (links s);
    if \<not> e then do {
      n \<leftarrow> get_next F (links s); j \<leftarrow> of_link n;
      s \<leftarrow> on_links (tkmc_list_del (qn j)) s; s \<leftarrow> on_links (tkmc_init_list_head (qn j)) s; rest j s }
    else full }) P"
proof -
  have K: "kinv s Q" using G by (simp add: ginv_def)
  obtain xs where q: "Q F = Some xs" using table [OF K] by auto
  show ?thesis
  proof (cases xs)
    case Nil
    then show ?thesis using q full unused [OF R K] tkmc_list_empty_owner [OF R q] by (simp add: in_ring_def)
  next
    case (Cons n ns)
    obtain j where j: "j < mx" "n = qn j" "in_ring Q F (qn j)" "\<not> exists_id (ident s j)"
        "((detach (qn j) Q)(qn j \<mapsto> [])) F = Some ns" "obj_move F (qn j) Q ((detach (qn j) Q)(qn j \<mapsto> []))"
      by (rule first_unused [OF R K q [unfolded Cons]])
    have "ok (rest j (s\<lparr>links := h\<rparr>)) P" if "rep h ((detach (qn j) Q)(qn j \<mapsto> []))" for h
      using rest [OF j(1) that j(6) _ j(5,4)] list_of_rep [OF R q] Cons j(1,2) number [OF K j(1)] small_id_sint [of j] small by simp
    then show ?thesis
      using tkmc_list_empty_owner [OF R q] get_next_head [OF R q] Cons j(2) links_back
      by (simp del: ok_on_links) (intro ok_park [OF R j(3)])
  qed
qed

end

lemma unused_blocks:
  assumes "rep h Q" and "kinv s Q"
  shows "j < CFN_MAX_SEMID \<Longrightarrow> exists_id (semid (semcbs s j)) \<longleftrightarrow> \<not> in_ring Q FreeSem (SemQ j)"
    and "j < CFN_MAX_FLGID \<Longrightarrow> exists_id (flgid (flgcbs s j)) \<longleftrightarrow> \<not> in_ring Q FreeFlg (FlgQ j)"
    and "j < CFN_MAX_MBXID \<Longrightarrow> exists_id (mbxid (mbxcbs s j)) \<longleftrightarrow> \<not> in_ring Q FreeMbx (MbxWaitQ j)"
  using kinvD(5-7) [OF assms(2), of j] rep_member_not_owner [OF assms(1)]
  by (auto simp: sem_ok_def flg_ok_def mbx_ok_def Let_def split: if_splits)

lemma block_numbers:
  assumes "kinv s Q"
  shows "j < CFN_MAX_SEMID \<Longrightarrow> semid (semcbs s j) AND NOT NOEXS_MASK = of_nat (Suc j)"
    and "j < CFN_MAX_FLGID \<Longrightarrow> flgid (flgcbs s j) AND NOT NOEXS_MASK = of_nat (Suc j)"
    and "j < CFN_MAX_MBXID \<Longrightarrow> mbxid (mbxcbs s j) AND NOT NOEXS_MASK = of_nat (Suc j)"
  using kinvD(5-7) [OF assms, of j] by (simp_all add: sem_ok_def flg_ok_def mbx_ok_def Let_def)

lemma free_lists:
  assumes "kinv s Q"
  shows "in_ring Q FreeSem n \<Longrightarrow> \<exists>j < CFN_MAX_SEMID. n = SemQ j" and "in_ring Q FreeFlg n \<Longrightarrow> \<exists>j < CFN_MAX_FLGID. n = FlgQ j"
    and "in_ring Q FreeMbx n \<Longrightarrow> \<exists>j < CFN_MAX_MBXID. n = MbxWaitQ j"
    and "Q FreeSem \<noteq> None" and "Q FreeFlg \<noteq> None" and "Q FreeMbx \<noteq> None"
  using typed_in_ring [OF kinvD(1) [OF assms]] kinvD(2) [OF assms] by (force simp: static_def split: node.splits)+

interpretation sems: object_table FreeSem SemQ CFN_MAX_SEMID "\<lambda>s j. semid (semcbs s j)" semcb_of_link
  by unfold_locales (simp_all add: block_numbers unused_blocks free_lists)

interpretation flgs: object_table FreeFlg FlgQ CFN_MAX_FLGID "\<lambda>s j. flgid (flgcbs s j)" flgcb_of_link
  by unfold_locales (simp_all add: block_numbers unused_blocks free_lists)

interpretation mbxs: object_table FreeMbx MbxWaitQ CFN_MAX_MBXID "\<lambda>s j. mbxid (mbxcbs s j)" mbxcb_of_link
  by unfold_locales (simp_all add: block_numbers unused_blocks free_lists)

section \<open>The invariant after the running task joins a queue\<close>

text \<open>
  The invariant once the running task has joined the queue \<open>q\<close>: the caller shows that the queue it
  joined is in order.
\<close>

definition block_tcb :: "wait_info \<Rightarrow> tskwait \<Rightarrow> UINT \<Rightarrow> TCB \<Rightarrow> TCB" where
  "block_tcb wi w d t = wait_tcb w d (t\<lparr>winfo := wi\<rparr>)"

lemma block_kinv:
  assumes R: "rep h Q" and K: "kinv s Q" and c: "running s c" and q: "Q q = Some ws"
    and f: "fits q (TcbWait c)" and Q': "Q' = wait_rings c tm (enlist P (TcbWait c) q Q)"
    and d: "tm \<or> d = 0"
    and w: "(\<exists>n j. w = TTW_SEM \<and> q = SemQ j \<and> wi = WSem n j) \<or>
      (\<exists>a b g j. w = TTW_FLG \<and> q = FlgQ j \<and> wi = WFlg a b g) \<or>
      (\<exists>m j. w = TTW_MBX \<and> q = MbxWaitQ j \<and> wi = WMbx m)"
    and sem: "\<And>j. q = SemQ j \<Longrightarrow>
      sem_queue_ok (upd_tcb c (block_tcb wi w d) s) j (insert_before P (TcbWait c) ws)"
    and flg: "\<And>j. q = FlgQ j \<Longrightarrow>
      flg_queue_ok (upd_tcb c (block_tcb wi w d) s) j (insert_before P (TcbWait c) ws)"
    and mbx: "\<And>j. q = MbxWaitQ j \<Longrightarrow>
      mbx_queue_ok (upd_tcb c (block_tcb wi w d) s) Q' j (insert_before P (TcbWait c) ws)"
  shows "kinv (upd_tcb c (block_tcb wi w d) s) Q'"
proof -
  note L = running_links [OF K c] and W = wait_on_rings [OF R K c q f Q']
  have "task_ok (block_tcb wi w d (tcbs s c)) Q' c"
    unfolding task_ok_def
  proof (intro conjI)
    show "head_ok (block_tcb wi w d (tcbs s c)) Q' c"
      using W(6) d by (auto simp: head_ok_def block_tcb_def wait_tcb_def split: if_split_asm)
    show "wait_ok (block_tcb wi w d (tcbs s c)) Q' c"
      using w by (elim disjE exE conjE) (simp_all add: wait_ok_def block_tcb_def wait_tcb_def W(4))
  qed (use kinvD(4) [OF K L(1)] L(4,5) in \<open>simp_all add: task_ok_def block_tcb_def wait_tcb_def\<close>)
  moreover have "cur_ok (upd_tcb c (block_tcb wi w d) s)"
    by (intro cur_ok_upd kinvD(3) [OF K]) (simp add: block_tcb_def wait_tcb_def)
  ultimately show ?thesis
    using W(3,4) sem flg mbx by (intro kinv_moved [OF K W(1,2)]) auto
qed

lemma block_served:
  assumes R: "rep h Q" and G: "ginv s Q" and c: "running s c" and q: "Q q = Some ws"
    and f: "fits q (TcbWait c)" and Q': "Q' = wait_rings c tm (enlist P (TcbWait c) q Q)"
  shows "(\<And>j. q = SemQ j \<Longrightarrow> held_back (takes_first s j) (semcnt (semcbs s j))
      (map (wait_req (upd_tcb c (block_tcb wi w d) s)) (insert_before P (TcbWait c) ws))) \<Longrightarrow>
      sem_served (upd_tcb c (block_tcb wi w d) s) Q'"
    and "(\<And>j. q = FlgQ j \<Longrightarrow> \<not> check_ptn (flgptn (flgcbs s j)) (waiptn wi) (wfmode wi)) \<Longrightarrow>
      flg_served (upd_tcb c (block_tcb wi w d) s) Q'"
proof -
  have K: "kinv s Q" and S: "sem_served s Q" "flg_served s Q" using G by (simp_all add: ginv_def)
  note W = wait_on_rings [OF R K c q f Q']
  have out: "TcbWait c \<notin> set vs" if "Q v = Some vs" for v vs
    using that rep_owner_loose [OF R running_links(3) [OF K c]] by (auto simp: loose_def in_ring_def)
  { assume new: "\<And>j. q = SemQ j \<Longrightarrow> held_back (takes_first s j) (semcnt (semcbs s j))
      (map (wait_req (upd_tcb c (block_tcb wi w d) s)) (insert_before P (TcbWait c) ws))"
    show "sem_served (upd_tcb c (block_tcb wi w d) s) Q'"
      unfolding sem_served_def
    proof (intro allI impI)
      fix j vs assume v: "Q' (SemQ j) = Some vs"
      show "held_back (takes_first (upd_tcb c (block_tcb wi w d) s) j)
          (semcnt (semcbs (upd_tcb c (block_tcb wi w d) s) j)) (map (wait_req (upd_tcb c (block_tcb wi w d) s)) vs)"
      proof (cases "q = SemQ j")
        case True
        then show ?thesis using new [OF True] v W(3) by simp
      next
        case False
        then have v': "Q (SemQ j) = Some vs" using v W(5) [of "SemQ j"] by simp
        then have eq: "map (wait_req (upd_tcb c (block_tcb wi w d) s)) vs = map (wait_req s) vs"
          using out [OF v'] by (auto intro!: wait_req_upd)
        have "held_back (takes_first s j) (semcnt (semcbs s j)) (map (wait_req s) vs)"
          using S(1) v' by (simp add: sem_served_def)
        then show ?thesis by (simp only: eq upd_tcb_frame)
      qed
    qed }
  assume new: "\<And>j. q = FlgQ j \<Longrightarrow> \<not> check_ptn (flgptn (flgcbs s j)) (waiptn wi) (wfmode wi)"
  show "flg_served (upd_tcb c (block_tcb wi w d) s) Q'"
    unfolding flg_served_def
  proof (intro allI impI)
    fix j i assume v: "in_ring Q' (FlgQ j) (TcbWait i)"
    show "\<not> check_ptn (flgptn (flgcbs (upd_tcb c (block_tcb wi w d) s) j))
        (waiptn (winfo (tcbs (upd_tcb c (block_tcb wi w d) s) i))) (wfmode (winfo (tcbs (upd_tcb c (block_tcb wi w d) s) i)))"
    proof (cases "i = c")
      case True
      then show ?thesis using v W(4) new by (auto simp: block_tcb_def wait_tcb_def)
    next
      case False
      then have "in_ring Q (FlgQ j) (TcbWait i)"
        using v moved_in_ring_typed [OF kinvD(1) [OF K] W(1,2)] by simp
      then show ?thesis using S(2) False by (simp add: flg_served_def)
    qed
  qed
qed

text \<open>
  What the three blocking calls do once they decide to wait: fill in what the task waits for, join
  the queue, start the wait.
\<close>

definition blocked ::
  "node \<Rightarrow> nat \<Rightarrow> wait_info \<Rightarrow> tskwait \<Rightarrow> TMO \<Rightarrow> (node \<Rightarrow> bool) \<Rightarrow> kernel \<Rightarrow> kernel \<Rightarrow> bool" where
  "blocked q c wi w tmout P s s' \<longleftrightarrow> (\<exists>ns d. list_of q (links s) = Some ns \<and> time_limit tmout s (clk s') d \<and>
     list_of q (links s') = Some (insert_before P (TcbWait c) ns) \<and>
     tcbs s' = (tcbs s)(c := block_tcb wi w d (tcbs s c)) \<and>
     semcbs s' = semcbs s \<and> flgcbs s' = flgcbs s \<and> mbxcbs s' = mbxcbs s \<and> current s' = current s \<and> msip s')"

lemma blocked_mstatus [simp]:
  "blocked q c wi w tmout P (s\<lparr>mstatus := m\<rparr>) s' = blocked q c wi w tmout P s s'"
  "blocked q c wi w tmout P s (s'\<lparr>mstatus := m\<rparr>) = blocked q c wi w tmout P s s'"
  by (simp_all add: blocked_def)

lemma switch_away_keeps:
  assumes "ok (switch_away s) P"
  shows "ok (switch_away s) (\<lambda>s'. P s' \<and> links s' = links s \<and> clk s' = clk s \<and> tcbs s' = tcbs s \<and> semcbs s' = semcbs s \<and>
    flgcbs s' = flgcbs s \<and> mbxcbs s' = mbxcbs s \<and> current s' = current s \<and> msip s')"
  using assms by (auto simp: switch_away_def dispatch_def elim!: ok_mono)

lemma block_ok:
  fixes s :: kernel
  defines "s1 \<equiv> \<lambda>wi c. upd_tcb c (\<lambda>t. t\<lparr>winfo := wi\<rparr>) s"
  assumes R: "rep (links s) Q" and K: "kinv s Q" and c: "running s c" and C: "clock_ok (mtime s)"
    and q: "Q q = Some ws" "q \<noteq> TimerQ" "\<And>p. q \<noteq> ReadyQ p"
    and ins: "wait_rings c (0 < tmout) (enlist P (TcbWait c) q Q) q = Some (insert_before P (TcbWait c) ws)"
    and enq: "\<And>h. rep h Q \<Longrightarrow> ok (enq ((s1 wi c)\<lparr>links := h\<rparr>))
      (\<lambda>s'. \<exists>h'. s' = (s1 wi c)\<lparr>links := h'\<rparr> \<and> rep h' (enlist P (TcbWait c) q Q))"
    and inv: "\<And>d. 0 < tmout \<or> d = 0 \<Longrightarrow> kinv (upd_tcb c (block_tcb wi w d) s) (wait_rings c (0 < tmout) (enlist P (TcbWait c) q Q))"
      "\<And>d. sem_served (upd_tcb c (block_tcb wi w d) s) (wait_rings c (0 < tmout) (enlist P (TcbWait c) q Q))"
      "\<And>d. flg_served (upd_tcb c (block_tcb wi w d) s) (wait_rings c (0 < tmout) (enlist P (TcbWait c) q Q))"
  shows "ok (on_links (tkmc_init_list_head (TcbWait c)) (s1 wi c))
    (\<lambda>s2. ok (enq s2) (\<lambda>s2. ok (start_wait c w tmout s2)
      (\<lambda>s'. mstatus s' = mstatus s \<and> sys_inv s' \<and> blocked q c wi w tmout P s s')))"
proof -
  note L = running_links [OF K c]
  let ?s = "s1 wi c" and ?E = "enlist P (TcbWait c) q Q"
  let ?P = "\<lambda>s'. mstatus s' = mstatus s \<and> sys_inv s' \<and> blocked q c wi w tmout P s s'"
  have Q0: "Q(TcbWait c \<mapsto> []) = Q" using L(3) by auto
  have tq: "?E TimerQ \<noteq> None" using kinvD(2) [OF K] q by (simp add: static_def ring_simps)
  have head: "in_ring ?E (ready_node (itskpri (tcbs s c))) (TcbHead c)"
    using L(2) q(1) q(3) [symmetric] by (simp add: ring_simps)
  have "ok (switch_away ((upd_tcb c (wait_tcb w d) ?s)\<lparr>clk := k, links := h\<rparr>)) ?P"
    if h: "rep h (wait_rings c (0 < tmout) ?E)" and l: "time_limit tmout ?s k d" for h d k
  proof -
    have d: "0 < tmout \<or> d = 0" using l by (simp add: time_limit_def split: if_split_asm)
    have e: "upd_tcb c (wait_tcb w d) ?s = upd_tcb c (block_tcb wi w d) s" by (simp add: s1_def block_tcb_def [abs_def])
    have "blocked q c wi w tmout P s s'" if "links s' = h" "clk s' = k" "tcbs s' = tcbs (upd_tcb c (block_tcb wi w d) s)"
        "semcbs s' = semcbs s" "flgcbs s' = flgcbs s" "mbxcbs s' = mbxcbs s" "current s' = current s" "msip s'" for s'
      unfolding blocked_def using that l list_of_rep [OF R q(1)] list_of_rep [OF h ins] by (auto simp: s1_def)
    then show ?thesis
      unfolding e by (intro ok_mono [OF switch_away_keeps [OF switch_away_clk_inv [OF h inv(1) [OF d] inv(2,3)]]]) auto
  qed
  then have "ok (start_wait c w tmout (?s\<lparr>links := h\<rparr>)) ?P" if h: "rep h ?E" for h
    using h head tq C by (intro start_wait_ok [of _ ?E "ready_node (itskpri (tcbs s c))"]) (auto simp: s1_def)
  then have "ok (enq (?s\<lparr>links := h\<rparr>)) (\<lambda>s2. ok (start_wait c w tmout s2) ?P)" if "rep h Q" for h
    by (intro ok_mono [OF enq [OF that]]) auto
  then show ?thesis
    by (intro ok_init [where Q = Q]) (use R rep_owner_loose [OF R L(3)] in \<open>auto simp: mapped_def Q0 s1_def\<close>)
qed

section \<open>Identifiers\<close>

end
