(* ===== verification/TK_Semaphore.thy ===== *)
theory TK_Semaphore
  imports TK_Object
begin

text \<open>
  The semaphores of \<^verbatim>\<open>kernel/semaphore.c\<close>. Their waiters are served by
  \<open>tkmc_sem_serve_waiters\<close>, which is modelled with the end of a wait.
\<close>

section \<open>The calls\<close>

definition free_semcb :: "nat \<Rightarrow> SEMCB" where
  "free_semcb i = \<lparr>semid = of_nat (i + 1) OR NOEXS_MASK, sem_exinf = NULL, sematr = 0,
     semcnt = 0, maxsem = 0\<rparr>"

fun init_semcbs :: "nat \<Rightarrow> nat \<Rightarrow> kernel \<Rightarrow> kernel option" where
  "init_semcbs i 0 s = Some s"
| "init_semcbs i (Suc k) s = do {
     let s = upd_sem i (\<lambda>_. free_semcb i) s;
     s \<leftarrow> on_links (tkmc_init_list_head (SemQ i)) s;
     s \<leftarrow> on_links (tkmc_list_add_tail (SemQ i) FreeSem) s;
     init_semcbs (Suc i) k s }"

definition tkmc_init_semcb :: "kernel \<Rightarrow> kernel option" where
  "tkmc_init_semcb s = do {
     s \<leftarrow> on_links (tkmc_init_list_head FreeSem) s;
     init_semcbs 0 CFN_MAX_SEMID s }"

record T_CSEM =
  cs_exinf :: addr
  cs_sematr :: ATR
  cs_isemcnt :: int
  cs_maxsem :: int

definition VALID_SEMATR :: ATR where
  "VALID_SEMATR = TA_TFIFO OR TA_TPRI OR TA_CNT OR TA_FIRST"

definition tk_cre_sem :: "T_CSEM option \<Rightarrow> kernel \<Rightarrow> (ID outcome \<times> kernel) option" where
  "tk_cre_sem pk_csem s = (case pk_csem of None \<Rightarrow> Some (Return E_PAR, s)
   | Some pk \<Rightarrow>
     if cs_sematr pk AND NOT VALID_SEMATR \<noteq> 0 then Some (Return E_RSATR, s)
     else if cs_maxsem pk < 1 \<or> cs_maxsem pk > TK_SEMAPHORE_MAXCNT \<or> cs_isemcnt pk < 0 \<or>
       cs_isemcnt pk > cs_maxsem pk then Some (Return E_PAR, s)
     else crit (\<lambda>_ s. do {
       e \<leftarrow> tkmc_list_empty FreeSem (links s);
       if \<not> e then do {
         n \<leftarrow> get_next FreeSem (links s);
         j \<leftarrow> semcb_of_link n;
         s \<leftarrow> on_links (tkmc_list_del (SemQ j)) s;
         s \<leftarrow> on_links (tkmc_init_list_head (SemQ j)) s;
         let new_semid = semid (semcbs s j) AND NOT NOEXS_MASK;
         let s = upd_sem j (\<lambda>c. c\<lparr>semid := new_semid, sem_exinf := cs_exinf pk,
           sematr := cs_sematr pk, semcnt := cs_isemcnt pk, maxsem := cs_maxsem pk\<rparr>) s;
         Some (Return (sint new_semid), s) }
       else Some (Return E_LIMIT, s) }) s)"

text \<open>The scan for the place in a queue ordered by priority, with its look-ahead.\<close>

partial_function (option) sem_scan ::
  "nat \<Rightarrow> nat \<Rightarrow> node \<Rightarrow> node \<Rightarrow> kernel \<Rightarrow> (bool \<times> kernel) option" where
  "sem_scan c j pos n s =
     (if pos = SemQ j then Some (False, s)
      else do {
        i \<leftarrow> tcb_of_wait pos;
        if itskpri (tcbs s c) < itskpri (tcbs s i) then do {
          p \<leftarrow> get_prev pos (links s);
          s \<leftarrow> on_links (tkmc_list_add (TcbWait c) p) s;
          Some (True, s) }
        else do { n' \<leftarrow> get_next n (links s); sem_scan c j n n' s } })"

definition sem_enqueue :: "nat \<Rightarrow> nat \<Rightarrow> kernel \<Rightarrow> kernel option" where
  "sem_enqueue c j s =
     (if sematr (semcbs s j) AND TA_TPRI \<noteq> 0 then do {
        e \<leftarrow> tkmc_list_empty (SemQ j) (links s);
        if e then on_links (tkmc_list_add_tail (TcbWait c) (SemQ j)) s
        else do {
          pos \<leftarrow> get_next (SemQ j) (links s);
          n \<leftarrow> get_next pos (links s);
          (inserted, s) \<leftarrow> sem_scan c j pos n s;
          if \<not> inserted then on_links (tkmc_list_add_tail (TcbWait c) (SemQ j)) s
          else Some s } }
      else on_links (tkmc_list_add_tail (TcbWait c) (SemQ j)) s)"

definition may_take :: "nat \<Rightarrow> nat \<Rightarrow> int \<Rightarrow> kernel \<Rightarrow> bool option" where
  "may_take c j cnt s = do {
     e \<leftarrow> tkmc_list_empty (SemQ j) (links s);
     if semcnt (semcbs s j) \<ge> cnt \<and> \<not> e \<and> sematr (semcbs s j) AND TA_CNT = 0 then do {
       n \<leftarrow> get_next (SemQ j) (links s);
       i \<leftarrow> tcb_of_wait n;
       Some (sematr (semcbs s j) AND TA_TPRI \<noteq> 0 \<and> itskpri (tcbs s c) < itskpri (tcbs s i)) }
     else Some (semcnt (semcbs s j) \<ge> cnt) }"

definition tk_wai_sem :: "ID \<Rightarrow> int \<Rightarrow> TMO \<Rightarrow> kernel \<Rightarrow> (ER outcome \<times> kernel) option" where
  "tk_wai_sem objid cnt tmout s =
     (if \<not> tkmc_id_in_range objid (int CFN_MAX_SEMID) then Some (Return E_ID, s)
      else if cnt \<le> 0 \<or> tmout < TMO_FEVR then Some (Return E_PAR, s)
      else let j = nat (objid - 1) in
        crit (\<lambda>intsts s.
          if \<not> tkmc_can_block intsts s then Some (Return E_CTX, s)
          else if semid (semcbs s j) AND NOEXS_MASK \<noteq> 0 then Some (Return E_NOEXS, s)
          else if cnt > maxsem (semcbs s j) then Some (Return E_PAR, s)
          else do {
            c \<leftarrow> current s;
            take \<leftarrow> may_take c j cnt s;
            if take then Some (Return E_OK, upd_sem j (\<lambda>cb. cb\<lparr>semcnt := semcnt cb - cnt\<rparr>) s)
            else if tmout = TMO_POL then Some (Return E_TMOUT, s)
            else do {
              let s = upd_tcb c (\<lambda>t. t\<lparr>winfo := WSem cnt j\<rparr>) s;
              s \<leftarrow> on_links (tkmc_init_list_head (TcbWait c)) s;
              s \<leftarrow> sem_enqueue c j s;
              s \<leftarrow> start_wait c TTW_SEM tmout s;
              Some (Block, s) } }) s)"

definition tk_sig_sem :: "ID \<Rightarrow> int \<Rightarrow> kernel \<Rightarrow> (ER outcome \<times> kernel) option" where
  "tk_sig_sem objid cnt s =
     (if \<not> tkmc_id_in_range objid (int CFN_MAX_SEMID) then Some (Return E_ID, s)
      else if cnt \<le> 0 then Some (Return E_PAR, s)
      else let j = nat (objid - 1) in
        crit (\<lambda>_ s.
          if semid (semcbs s j) AND NOEXS_MASK \<noteq> 0 then Some (Return E_NOEXS, s)
          else if cnt > maxsem (semcbs s j) - semcnt (semcbs s j) then Some (Return E_QOVR, s)
          else do {
            let s = upd_sem j (\<lambda>cb. cb\<lparr>semcnt := semcnt cb + cnt\<rparr>) s;
            s \<leftarrow> tkmc_sem_serve_waiters j s;
            s \<leftarrow> reschedule s;
            Some (Return E_OK, s) }) s)"

partial_function (option) release_sem_waiters :: "nat \<Rightarrow> bool \<Rightarrow> kernel \<Rightarrow> (bool \<times> kernel) option" where
  "release_sem_waiters j released s = do {
     e \<leftarrow> tkmc_list_empty (SemQ j) (links s);
     if \<not> e then do {
       n \<leftarrow> get_next (SemQ j) (links s);
       i \<leftarrow> tcb_of_wait n;
       s \<leftarrow> tkmc_complete_wait i E_DLT s;
       release_sem_waiters j True s }
     else Some (released, s) }"

definition tk_del_sem :: "ID \<Rightarrow> kernel \<Rightarrow> (ER outcome \<times> kernel) option" where
  "tk_del_sem objid s =
     (if \<not> tkmc_id_in_range objid (int CFN_MAX_SEMID) then Some (Return E_ID, s)
      else let j = nat (objid - 1) in
        crit (\<lambda>_ s.
          if semid (semcbs s j) AND NOEXS_MASK \<noteq> 0 then Some (Return E_NOEXS, s)
          else do {
            (released, s) \<leftarrow> release_sem_waiters j False s;
            let s = upd_sem j (\<lambda>c. c\<lparr>semid := semid c OR NOEXS_MASK, sem_exinf := NULL, sematr := 0,
              semcnt := 0, maxsem := 0\<rparr>) s;
            s \<leftarrow> on_links (tkmc_list_add_tail (SemQ j) FreeSem) s;
            s \<leftarrow> (if released then reschedule s else Some s);
            Some (Return E_OK, s) }) s)"

section \<open>Creating a semaphore\<close>

text \<open>What creating does: a refusal that changes nothing, or the first free control block set up as the packet says.\<close>

definition cre_sem_result :: "T_CSEM option \<Rightarrow> kernel \<Rightarrow> ID outcome \<Rightarrow> kernel \<Rightarrow> bool" where
  "cre_sem_result packet s r s' \<longleftrightarrow> (case packet of None \<Rightarrow> r = Return E_PAR \<and> s' = s
   | Some pk \<Rightarrow>
     if cs_sematr pk AND NOT VALID_SEMATR \<noteq> 0 then r = Return E_RSATR \<and> s' = s
     else if cs_maxsem pk < 1 \<or> cs_maxsem pk > TK_SEMAPHORE_MAXCNT \<or> cs_isemcnt pk < 0 \<or>
       cs_isemcnt pk > cs_maxsem pk then r = Return E_PAR \<and> s' = s
     else if \<forall>j < CFN_MAX_SEMID. exists_id (semid (semcbs s j)) then r = Return E_LIMIT \<and> s' = s
     else (\<exists>j ns. list_of FreeSem (links s) = Some (SemQ j # ns) \<and> list_of FreeSem (links s') = Some ns \<and>
       j < CFN_MAX_SEMID \<and> \<not> exists_id (semid (semcbs s j)) \<and> r = Return (int j + 1) \<and>
       semcbs s' = (semcbs s)(j := \<lparr>semid = of_nat (Suc j), sem_exinf = cs_exinf pk, sematr = cs_sematr pk,
         semcnt = cs_isemcnt pk, maxsem = cs_maxsem pk\<rparr>) \<and>
       list_of (SemQ j) (links s') = Some [] \<and> tcbs s' = tcbs s \<and> flgcbs s' = flgcbs s \<and> mbxcbs s' = mbxcbs s \<and>
       current s' = current s \<and> msip s' = msip s \<and> mtime s' = mtime s))"

lemma cre_sem_result_unmask:
  "mstatus s' = m \<Longrightarrow> cre_sem_result pk (s\<lparr>mstatus := m\<rparr>) r s' \<Longrightarrow>
    cre_sem_result pk s r (s'\<lparr>mstatus := mstatus s\<rparr>)"
  unfolding cre_sem_result_def by (cases pk) (auto split: if_split_asm)

lemma created_sem:
  assumes G: "ginv s Q" and M: "obj_move FreeSem (SemQ j) Q ((detach (SemQ j) Q)(SemQ j \<mapsto> []))" and j: "j < CFN_MAX_SEMID"
    and c: "1 \<le> mc" "mc \<le> TK_SEMAPHORE_MAXCNT" "0 \<le> ic" "ic \<le> mc"
  shows "ginv (upd_sem j (\<lambda>cb. cb\<lparr>semid := of_nat (Suc j), sem_exinf := e, sematr := a, semcnt := ic, maxsem := mc\<rparr>) s)
    ((detach (SemQ j) Q)(SemQ j \<mapsto> []))" (is "ginv (upd_sem j ?f s) ?Q")
proof -
  have K: "kinv s Q" using G by (simp add: ginv_def)
  have "sem_ok (upd_sem j ?f s) ?Q j"
    using c j number_exists [of j] by (simp add: sem_ok_def sem_queue_ok_def pri_sorted_def del: of_nat_Suc)
  then have "kinv (upd_sem j ?f s) ?Q" by (intro kinv_sem_move [OF K M] typed_intros kinvD(1) [OF K])
  moreover have "flg_served (upd_sem j ?f s) ?Q"
    using G obj_move_in_ring [OF M] by (auto simp: ginv_def flg_served_def)
  ultimately show ?thesis
    using G sem_served_move [OF M] obj_move_ready [OF M] by (auto simp: ginv_def sched_ok_def)
qed

lemma tk_cre_sem_ok:
  assumes I: "sys_inv s"
  shows "ok (tk_cre_sem pk s) (\<lambda>(r, s'). sys_inv s' \<and> mstatus s' = mstatus s \<and> cre_sem_result pk s r s')"
proof (cases pk)
  case (Some c)
  show ?thesis
    unfolding tk_cre_sem_def Let_def Some option.case
  proof (intro ok_ifI, goal_cases)
    case ids: 3
    show ?case
    proof (rule crit_result [where P = "cre_sem_result (Some c)", OF I _ cre_sem_result_unmask], goal_cases)
      case (1 s0 Q)
      show ?case
      proof (rule sems.allocate [OF 1(2,3)], goal_cases)
        case 1
        then show ?case using ids \<open>rep (links s0) Q\<close> \<open>ginv s0 Q\<close> by (simp add: sys_invI cre_sem_result_def)
      next
        case (2 j ns h)
        show ?case
          using created_sem [OF 1(3) 2(3,1)] sys_inv_links [OF 2(2)] list_of_rep [OF 2(2), of "SemQ j"] list_of_rep [OF 2(2,5)] 2 ids
          by (auto simp: cre_sem_result_def simp del: of_nat_Suc)
      qed
    qed
  qed (use I in \<open>auto simp: cre_sem_result_def\<close>)
qed (use I in \<open>simp add: tk_cre_sem_def cre_sem_result_def\<close>)

lemma tk_cre_sem_call_ok:
  assumes "sys_inv s"
  shows "call_ok (tk_cre_sem pk s) s"
  by (rule result_call_ok [OF tk_cre_sem_ok [OF assms]])

section \<open>Signalling\<close>

text \<open>
  What a signal does to a semaphore that exists and has room: the units it has and the new ones
  are handed out to the waiters in the order of the queue, as \<^term>\<open>grant\<close> says.
\<close>

definition signalled :: "nat \<Rightarrow> int \<Rightarrow> kernel \<Rightarrow> kernel \<Rightarrow> bool" where
  "signalled j cnt s s' \<longleftrightarrow> (\<exists>is g c ws. list_of (SemQ j) (links s) = Some (map TcbWait is) \<and>
     grant (takes_first s j) (semcnt (semcbs s j) + cnt) (reqs s is) = (g, c, ws) \<and>
     semcnt (semcbs s' j) = c \<and> list_of (SemQ j) (links s') = Some (map (TcbWait \<circ> fst) ws) \<and>
     (\<forall>i. tcbs s' i = (if i \<in> set g then wake_tcb E_OK (tcbs s i) else tcbs s i)))"

lemma signalled_mstatus [simp]:
  "signalled j cnt (s\<lparr>mstatus := m\<rparr>) s' = signalled j cnt s s'"
  "signalled j cnt s (s'\<lparr>mstatus := m\<rparr>) = signalled j cnt s s'"
proof -
  have "reqs (s\<lparr>mstatus := m\<rparr>) ks = reqs s ks" for ks by (simp add: reqs_def wait_req_cong [of "s\<lparr>mstatus := m\<rparr>" s])
  then show "signalled j cnt (s\<lparr>mstatus := m\<rparr>) s' = signalled j cnt s s'" by (simp add: signalled_def)
qed (simp add: signalled_def)

lemma handed_out_signalled:
  assumes R: "rep (links s) Q" and K: "kinv s1 Q" and s1: "s1 = set_semcnt j (semcnt (semcbs s j) + cnt) s"
    and q: "Q (SemQ j) = Some (map TcbWait is)"
    and G: "grant (takes_first s1 j) (semcnt (semcbs s1 j)) (reqs s1 is) = (g, c, ws)"
    and H: "handed_out s1 Q j g c s2" and f: "tcbs s' = tcbs s2" "semcbs s' = semcbs s2" "links s' = links s2"
  shows "signalled j cnt s s'"
proof -
  have R1: "rep (links s1) Q" using R by (simp add: s1)
  have reqs: "reqs s1 is = reqs s is"
    by (simp add: reqs_def wait_req_cong [of s1 s] s1)
  obtain h where h: "s2 = (set_semcnt j c (wakes E_OK g s1))\<lparr>links := h\<rparr>" "rep h (wake_qs (pris s1) g Q)"
    using H by (auto simp: handed_out_def)
  have "filter (\<lambda>n. \<forall>i \<in> set g. keep i n) (map TcbWait is) = map TcbWait (filter (\<lambda>i. i \<notin> set g) is)"
    by (induction "is") auto
  then have "list_of (SemQ j) h = Some (map (TcbWait \<circ> fst) ws)"
    using list_of_rep [OF h(2), of "SemQ j"] q grant_waiting(3) [OF R1 K q G]
    by (simp add: wake_qs_lookup reqs_def o_def)
  moreover have "semcnt (semcbs s2 j) = c" by (simp add: h(1) set_semcnt_def)
  moreover have "tcbs s2 i = (if i \<in> set g then wake_tcb E_OK (tcbs s i) else tcbs s i)" for i
    by (simp add: h(1) tcbs_wakes s1)
  moreover have "grant (takes_first s j) (semcnt (semcbs s j) + cnt) (reqs s is) = (g, c, ws)"
    using G by (simp add: reqs) (simp add: s1 set_semcnt_def)
  ultimately show ?thesis
    unfolding signalled_def using list_of_rep [OF R q] f h(1) by auto
qed

lemma sig_sem_served:
  assumes R: "rep (links s) Q" and G: "ginv s Q" and j: "j < CFN_MAX_SEMID" "exists_id (semid (semcbs s j))"
    and c: "0 < cnt" "cnt \<le> maxsem (semcbs s j) - semcnt (semcbs s j)"
  shows "ok (tkmc_sem_serve_waiters j (upd_sem j (\<lambda>cb. cb\<lparr>semcnt := semcnt cb + cnt\<rparr>) s))
    (\<lambda>s1. ok (reschedule s1) (\<lambda>s'. mstatus s' = mstatus s \<and> sys_inv s' \<and> signalled j cnt s s'))"
proof -
  have K: "kinv s Q" and S: "sem_served s Q" "flg_served s Q" "sched_ok s Q" using G by (simp_all add: ginv_def)
  note D = sem_okD [OF K j]
  let ?s = "set_semcnt j (semcnt (semcbs s j) + cnt) s"
  obtain ks where q: "Q (SemQ j) = Some (map TcbWait ks)" using D(5) queue_tasks(1) [OF K] by blast
  obtain g d ws where Gr: "grant (takes_first ?s j) (semcnt (semcbs ?s j)) (reqs ?s ks) = (g, d, ws)"
    by (metis prod_cases3)
  have K1: "kinv ?s Q" using D c by (intro kinv_set_semcnt [OF K]) auto
  have R1: "rep (links ?s) Q" using R by simp
  have wr: "wait_req ?s = wait_req s" by (auto intro!: wait_req_cong)
  have "ok (reschedule s1) (\<lambda>s'. mstatus s' = mstatus s \<and> sys_inv s' \<and> signalled j cnt s s')"
    if H: "handed_out ?s Q j g d s1" for s1
  proof -
    have "sem_served s1 (wake_qs (pris ?s) g Q)"
      using S(1) j wr by (intro sem_served_handed_out [OF R1 K1 q Gr H]) (auto simp: sem_served_def)
    moreover have "woken ?s Q s1 (wake_qs (pris ?s) g Q)"
      using grant_waiting(2) [OF R1 K1 q Gr] by (intro woken_handed_out [OF H]) auto
    moreover have "flg_served ?s Q" "sched_ok ?s Q" using S by (auto simp: flg_served_def sched_ok_def)
    ultimately show ?thesis
      using handed_out_signalled [OF R K1 refl q Gr H]
      by (intro ok_mono [OF woken_reschedule]) (auto intro: sys_invI)
  qed
  then have "ok (tkmc_sem_serve_waiters j ?s) (\<lambda>s1. ok (reschedule s1) (\<lambda>s'. mstatus s' = mstatus s \<and> sys_inv s' \<and> signalled j cnt s s'))"
    by (rule ok_mono [OF tkmc_sem_serve_waiters_ok [OF R1 K1 q Gr]])
  moreover have "upd_sem j (\<lambda>cb. cb\<lparr>semcnt := semcnt cb + cnt\<rparr>) s = ?s"
    by (simp add: set_semcnt_def upd_sem_def)
  ultimately show ?thesis by simp
qed

definition sig_sem_result :: "ID \<Rightarrow> int \<Rightarrow> kernel \<Rightarrow> ER outcome \<Rightarrow> kernel \<Rightarrow> bool" where
  "sig_sem_result objid cnt s r s' \<longleftrightarrow> (let c = semcbs s (nat (objid - 1)) in
     if \<not> tkmc_id_in_range objid (int CFN_MAX_SEMID) then r = Return E_ID \<and> s' = s
     else if cnt \<le> 0 then r = Return E_PAR \<and> s' = s
     else if \<not> exists_id (semid c) then r = Return E_NOEXS \<and> s' = s
     else if semcnt c + cnt > maxsem c then r = Return E_QOVR \<and> s' = s
     else r = Return E_OK \<and> signalled (nat (objid - 1)) cnt s s')"

lemma tk_sig_sem_ok:
  assumes "sys_inv s"
  shows "ok (tk_sig_sem objid cnt s) (\<lambda>(r, s'). sys_inv s' \<and> mstatus s' = mstatus s \<and> sig_sem_result objid cnt s r s')"
proof (cases "\<not> tkmc_id_in_range objid (int CFN_MAX_SEMID) \<or> cnt \<le> 0")
  case True
  then show ?thesis using assms by (auto simp: tk_sig_sem_def sig_sem_result_def)
next
  case False
  define j where "j = nat (objid - 1)"
  have j: "j < CFN_MAX_SEMID" and c: "0 < cnt" using id_in_range_index [of objid CFN_MAX_SEMID] False by (auto simp: j_def)
  have "ok (crit (\<lambda>_ s. if semid (semcbs s j) AND NOEXS_MASK \<noteq> 0 then Some (Return E_NOEXS, s)
      else if cnt > maxsem (semcbs s j) - semcnt (semcbs s j) then Some (Return E_QOVR, s)
      else do {
        let s = upd_sem j (\<lambda>cb. cb\<lparr>semcnt := semcnt cb + cnt\<rparr>) s;
        s \<leftarrow> tkmc_sem_serve_waiters j s;
        s \<leftarrow> reschedule s;
        Some (Return E_OK, s) }) s) (\<lambda>(r, s'). sys_inv s' \<and> mstatus s' = mstatus s \<and> sig_sem_result objid cnt s r s')"
  proof (rule ok_crit_ex, goal_cases)
    case (1 s0)
    obtain Q where Q: "rep (links s0) Q" "ginv s0 Q" using assms 1 by (auto simp: sys_inv_def)
    show ?case
    proof (cases "exists_id (semid (semcbs s0 j)) \<and> cnt \<le> maxsem (semcbs s0 j) - semcnt (semcbs s0 j)")
      case True
      then show ?thesis
        using sig_sem_served [OF Q j _ c] False 1
        by (auto simp: exists_id_def sig_sem_result_def j_def [symmetric] elim!: ok_mono)
    qed (use False 1 assms in \<open>auto simp: exists_id_def sig_sem_result_def j_def [symmetric]\<close>)
  qed
  then show ?thesis using False by (simp add: tk_sig_sem_def j_def [symmetric])
qed

lemma tk_sig_sem_call_ok:
  assumes "sys_inv s"
  shows "call_ok (tk_sig_sem objid cnt s) s"
  unfolding call_ok_def by (rule ok_mono [OF tk_sig_sem_ok [OF assms]]) auto

section \<open>Deleting\<close>

text \<open>
  While the waiters are released the semaphore itself is not in order any more; every other
  semaphore is.
\<close>

definition served_but :: "nat \<Rightarrow> kernel \<Rightarrow> rings \<Rightarrow> bool" where
  "served_but j s Q \<longleftrightarrow> (\<forall>k ws. k \<noteq> j \<longrightarrow> Q (SemQ k) = Some ws \<longrightarrow>
     held_back (takes_first s k) (semcnt (semcbs s k)) (map (wait_req s) ws))"

lemma released_one:
  assumes R: "rep (links s) Q" and K: "kinv s Q" and w: "in_ring Q (SemQ j) (TcbWait i)"
    and S: "served_but j s Q" and C: "completed s Q i E_DLT s' Q'"
  shows "served_but j s' Q'" and "semcbs s' = semcbs s"
proof -
  have "\<not> hands_on s i E_DLT" by (simp add: hands_on_def er_defs)
  note Q' = completed_alone(1) [OF C this] and sb = completed_alone(2) [OF C this]
    and tb = completed_alone(3) [OF C this]
  show "semcbs s' = semcbs s" by (rule sb)
  have "wait_req s' n = wait_req s n" for n using tb by (cases n) auto
  then have "wait_req s' = wait_req s" by auto
  then show "served_but j s' Q'"
    using S sem_queue_other [OF R K w] sb by (simp add: served_but_def Q')
qed

definition released :: "nat \<Rightarrow> nat list \<Rightarrow> kernel \<Rightarrow> rings \<Rightarrow> kernel \<Rightarrow> rings \<Rightarrow> bool" where
  "released j is s Q s' Q' \<longleftrightarrow> woken s Q s' Q' \<and> served_but j s' Q' \<and> semcbs s' = semcbs s \<and>
     Q' (SemQ j) = Some [] \<and> (is = [] \<longrightarrow> s' = s \<and> Q' = Q) \<and>
     (\<forall>k. tcbs s' k = (if k \<in> set is then wake_tcb E_DLT (tcbs s k) else tcbs s k))"

lemma release_sem_waiters_ok:
  assumes "rep (links s) Q" and "kinv s Q" and "served_but j s Q" and "Q (SemQ j) = Some (map TcbWait is)"
  shows "ok (release_sem_waiters j e s) (\<lambda>(e', s'). e' = (e \<or> is \<noteq> []) \<and> (\<exists>Q'. released j is s Q s' Q'))"
  using assms
proof (induction "is" arbitrary: s Q e)
  case Nil
  then show ?case
    using tkmc_list_empty_owner [OF Nil(1,4)] woken_refl [OF Nil(1,2)]
    by (subst release_sem_waiters.simps) (auto simp: released_def)
next
  case (Cons i "is")
  note R = Cons.prems(1) and K = Cons.prems(2) and S = Cons.prems(3) and q = Cons.prems(4)
  have w: "in_ring Q (SemQ j) (TcbWait i)" using q by (auto simp: in_ring_def)
  have "i \<notin> set is" using repD(2) [OF R q] by auto
  have turn: "ok (release_sem_waiters j True s1) (\<lambda>(e', s'). e' \<and> (\<exists>Q'. released j (i # is) s Q s' Q'))"
    if C: "completed s Q i E_DLT s1 Q1" for s1 Q1
  proof -
    have W: "woken s Q s1 Q1" using C by (simp add: completed_def)
    have nh: "\<not> hands_on s i E_DLT" by (simp add: hands_on_def er_defs)
    note Q1 = completed_alone(1) [OF C nh] and t = completed_alone(3) [OF C nh]
    have q1: "Q1 (SemQ j) = Some (map TcbWait is)"
      using wake_rings_wait_queue [of Q "SemQ j" "[]" i "map TcbWait is"] q kinvD(1) [OF K] R Q1 by simp
    have "ok (release_sem_waiters j True s1)
        (\<lambda>(e', s'). e' = (True \<or> is \<noteq> []) \<and> (\<exists>Q'. released j is s1 Q1 s' Q'))"
      using W released_one [OF R K w S C] by (intro Cons.IH) (simp_all add: woken_def q1)
    then show ?thesis
    proof (rule ok_mono, clarify, goal_cases)
      case (1 e' s' Q')
      then have "released j (i # is) s Q s' Q'"
        using woken_trans [OF W] released_one(2) [OF R K w S C] \<open>i \<notin> set is\<close>
        by (auto simp: released_def t)
      with 1 show ?case by auto
    qed
  qed
  have "ok (tkmc_complete_wait i E_DLT s) (\<lambda>s1. ok (release_sem_waiters j True s1)
      (\<lambda>(e', s'). e' \<and> (\<exists>Q'. released j (i # is) s Q s' Q')))"
    by (rule ok_mono [OF tkmc_complete_wait_ok [OF R K waiter_state(1,2) [OF R K w]]]) (use turn in blast)
  then show ?case
    using tkmc_list_empty_owner [OF R q] get_next_head [OF R q]
    by (subst release_sem_waiters.simps) simp
qed

lemma del_sem_ginv:
  assumes R: "rep h Q" and K: "kinv s Q" and S: "served_but j s Q" "flg_served s Q"
    and q: "Q (SemQ j) = Some []" and j: "j < CFN_MAX_SEMID" and f: "\<not> exists_id (semid (f (semcbs s j)))"
      "semid (f (semcbs s j)) AND NOT NOEXS_MASK = semid (semcbs s j) AND NOT NOEXS_MASK"
  shows "kinv (upd_sem j f s) (push (SemQ j) FreeSem Q)"
    and "sem_served (upd_sem j f s) (push (SemQ j) FreeSem Q)"
    and "flg_served (upd_sem j f s) (push (SemQ j) FreeSem Q)"
    and "top_ready (push (SemQ j) FreeSem Q) = top_ready Q"
proof -
  have F: "Q FreeSem \<noteq> None" using kinvD(2) [OF K] by (simp add: static_def)
  then have M: "obj_move FreeSem (SemQ j) Q (push (SemQ j) FreeSem Q)" using q by (intro obj_move_free) auto
  have "sem_ok (upd_sem j f s) (push (SemQ j) FreeSem Q) j"
    using kinvD(5) [OF K j] f F by (simp add: sem_ok_def Let_def ring_simps)
  then show "kinv (upd_sem j f s) (push (SemQ j) FreeSem Q)"
    using F j by (intro kinv_sem_move [OF K M] typed_intros kinvD(1) [OF K]) auto
  have "wait_req (upd_sem j f s) = wait_req s" by (auto intro!: wait_req_cong)
  then show "sem_served (upd_sem j f s) (push (SemQ j) FreeSem Q)"
    using S(1) by (auto simp: served_but_def sem_served_def ring_simps split: if_splits)
  show "flg_served (upd_sem j f s) (push (SemQ j) FreeSem Q)"
    using S(2) obj_move_in_ring [OF M] by (auto simp: flg_served_def)
  show "top_ready (push (SemQ j) FreeSem Q) = top_ready Q" using obj_move_ready [OF M] by simp
qed

text \<open>What deleting does: the waiters are made ready with E_DLT, and the control block is cleared and goes to the end of the free list.\<close>

definition deleted_sem :: "nat \<Rightarrow> nat list \<Rightarrow> kernel \<Rightarrow> kernel \<Rightarrow> bool" where
  "deleted_sem j is s s' \<longleftrightarrow> (\<forall>k. tcbs s' k = (if k \<in> set is then wake_tcb E_DLT (tcbs s k) else tcbs s k)) \<and>
     semcbs s' = (semcbs s)(j := (semcbs s j)\<lparr>semid := semid (semcbs s j) OR NOEXS_MASK, sem_exinf := NULL, sematr := 0,
       semcnt := 0, maxsem := 0\<rparr>) \<and>
     (\<exists>ns. list_of FreeSem (links s') = Some (ns @ [SemQ j])) \<and>
     flgcbs s' = flgcbs s \<and> mbxcbs s' = mbxcbs s \<and> current s' = current s \<and> (is = [] \<longrightarrow> msip s' = msip s)"

lemma deleted_sem_switch: "deleted_sem j is s s' \<Longrightarrow> is \<noteq> [] \<Longrightarrow> deleted_sem j is s (s'\<lparr>next_tsk := n, msip := b\<rparr>)"
  by (simp add: deleted_sem_def)

definition del_sem_result :: "ID \<Rightarrow> kernel \<Rightarrow> ER outcome \<Rightarrow> kernel \<Rightarrow> bool" where
  "del_sem_result objid s r s' \<longleftrightarrow> (let j = nat (objid - 1) in
     if \<not> tkmc_id_in_range objid (int CFN_MAX_SEMID) then r = Return E_ID \<and> s' = s
     else if \<not> exists_id (semid (semcbs s j)) then r = Return E_NOEXS \<and> s' = s
     else r = Return E_OK \<and> (\<exists>is. list_of (SemQ j) (links s) = Some (map TcbWait is) \<and> deleted_sem j is s s'))"

lemma del_sem_finish:
  assumes X: "released j ks s0 Q s1 Q1" and j: "j < CFN_MAX_SEMID" and S: "flg_served s0 Q" "sched_ok s0 Q"
  shows "ok (on_links (tkmc_list_add_tail (SemQ j) FreeSem)
      (upd_sem j (\<lambda>c. c\<lparr>semid := semid c OR NOEXS_MASK, sem_exinf := NULL, sematr := 0, semcnt := 0, maxsem := 0\<rparr>) s1))
    (\<lambda>s2. ok (if ks \<noteq> [] then reschedule s2 else Some s2) (\<lambda>s'. mstatus s' = mstatus s0 \<and> sys_inv s' \<and> deleted_sem j ks s0 s'))"
proof -
  let ?f = "\<lambda>c. c\<lparr>semid := semid c OR NOEXS_MASK, sem_exinf := NULL, sematr := 0, semcnt := 0, maxsem := 0\<rparr>"
  have W: "woken s0 Q s1 Q1" and b: "served_but j s1 Q1" and q1: "Q1 (SemQ j) = Some []"
    using X by (simp_all add: released_def)
  have R1: "rep (links s1) Q1" and K1: "kinv s1 Q1" and F: "same_rest s0 s1" using W by (simp_all add: woken_def)
  let ?s = "upd_sem j ?f s1" and ?Q = "push (SemQ j) FreeSem Q1"
  have I: "kinv ?s ?Q" "sem_served ?s ?Q" "flg_served ?s ?Q" "top_ready ?Q = top_ready Q1"
    using del_sem_ginv [where f = ?f, OF R1 K1 b flg_served_woken [OF W S(1)] q1 j] by simp_all
  have run: "tskstat (tcbs s1 c) = TTS_RUN" if "current s1 = Some c" "\<not> msip s1" for c
  proof -
    have "tskstat (tcbs s0 c) = TTS_RUN" using S(2) that same_restD [OF F] by (simp add: sched_ok_def)
    then show ?thesis using W unfolding woken_def by (metis tskstat.distinct)
  qed
  have F1: "Q1 FreeSem \<noteq> None" using kinvD(2) [OF K1] by (simp add: static_def)
  show ?thesis
  proof (rule ok_add_tail [of _ Q1], goal_cases)
    case (6 h)
    let ?s2 = "?s\<lparr>links := h\<rparr>"
    have R2: "rep h ?Q" using 6 by simp
    obtain ns where "?Q FreeSem = Some (ns @ [SemQ j])" using F1 by (auto simp: push_def)
    then have D: "deleted_sem j ks s0 ?s2" using X list_of_rep [OF R2, of FreeSem] same_restD [OF F] by (auto simp: deleted_sem_def released_def)
    show ?case
    proof (cases "ks = []")
      case True
      then have "sched_ok ?s2 ?Q" using X S(2) I(4) by (auto simp: released_def sched_ok_def)
      then show ?thesis
        using True 6 I same_restD [OF F] D by (auto intro!: sys_invI [of _ ?Q] simp: ginv_def)
    next
      case False
      then show ?thesis
        using reschedule_ok [of ?s2 ?Q] 6 I run same_restD [OF F] deleted_sem_switch [OF D]
        by (auto intro!: sys_invI [of _ ?Q] simp: ginv_def elim!: ok_mono)
    qed
  qed (use R1 F1 q1 rep_owner_idle [OF R1 q1] in \<open>auto simp: mapped_def\<close>)
qed

lemma tk_del_sem_ok:
  assumes "sys_inv s"
  shows "ok (tk_del_sem objid s) (\<lambda>(r, s'). sys_inv s' \<and> mstatus s' = mstatus s \<and> del_sem_result objid s r s')"
  unfolding tk_del_sem_def Let_def
proof (intro ok_ifI, goal_cases)
  case ids: 2
  define j where "j = nat (objid - 1)"
  have j: "j < CFN_MAX_SEMID" using id_in_range_index [of objid CFN_MAX_SEMID] ids by (auto simp: j_def)
  show ?case
    unfolding j_def [symmetric]
  proof (rule crit_result [where P = "del_sem_result objid", OF assms], goal_cases)
    case (1 s0 Q)
    note R = 1(2) and G = 1(3)
    have K: "kinv s0 Q" and S: "sem_served s0 Q" "flg_served s0 Q" "sched_ok s0 Q" using G by (simp_all add: ginv_def)
    show ?case
    proof (cases "exists_id (semid (semcbs s0 j))")
      case False
      then show ?thesis using sys_invI [OF R G] ids by (simp add: j_def exists_id_def del_sem_result_def)
    next
      case e: True
      obtain ks where q: "Q (SemQ j) = Some (map TcbWait ks)"
        using sem_okD(5) [OF K j e] queue_tasks(1) [OF K] by blast
      have but: "served_but j s0 Q" using S(1) by (simp add: served_but_def sem_served_def)
      have D: "del_sem_result objid s0 (Return E_OK) s'" if "deleted_sem j ks s0 s'" for s'
        using that e ids list_of_rep [OF R q] by (auto simp: del_sem_result_def j_def)
      let ?f = "\<lambda>c. c\<lparr>semid := semid c OR NOEXS_MASK, sem_exinf := NULL, sematr := 0, semcnt := 0, maxsem := 0\<rparr>"
      have "ok (release_sem_waiters j False s0) (\<lambda>(e, s1). ok (on_links (tkmc_list_add_tail (SemQ j) FreeSem) (upd_sem j ?f s1))
          (\<lambda>s2. ok (if e then reschedule s2 else Some s2) (\<lambda>s'. mstatus s' = mstatus s0 \<and> sys_inv s' \<and> del_sem_result objid s0 (Return E_OK) s')))"
      proof (rule ok_mono [OF release_sem_waiters_ok [OF R K but q]], clarify, goal_cases)
        case (1 e s1 Q1)
        show ?case
          using del_sem_finish [OF 1 j S(2,3)] D by (auto simp del: ok_on_links elim!: ok_mono)
      qed
      then show ?thesis using e by (simp add: exists_id_def)
    qed
  qed (auto simp: del_sem_result_def deleted_sem_def Let_def split: if_split_asm)
qed (use assms in \<open>simp add: del_sem_result_def\<close>)

lemma tk_del_sem_call_ok:
  assumes "sys_inv s"
  shows "call_ok (tk_del_sem objid s) s"
  by (rule result_call_ok [OF tk_del_sem_ok [OF assms]])

section \<open>Waiting\<close>

definition sem_scan_from :: "nat \<Rightarrow> nat \<Rightarrow> node \<Rightarrow> kernel \<Rightarrow> (bool \<times> kernel) option" where
  "sem_scan_from c j pos s = do { n \<leftarrow> get_next pos (links s); sem_scan c j pos n s }"

lemma get_next_wait: "get_next (TcbWait i) h = Some (nxt h (TcbWait i))" "get_next (SemQ j) h = Some (nxt h (SemQ j))"
  by (simp_all add: get_next_def mapped_def)

interpretation sem_ins: insertion_scan "SemQ j" "TcbWait c"
  "\<lambda>s x. itskpri (tcbs s c) < wait_pri s x" "sem_scan_from c j" for c j
proof
  show "sem_scan_from c j (SemQ j) s = Some (False, s)" for s
    by (simp add: sem_scan_from_def get_next_wait) (subst sem_scan.simps, simp)
next
  fix x s assume "fits (SemQ j) x"
  then obtain i where x: "x = TcbWait i" using fits_wait(1) by blast
  show "sem_scan_from c j x s = do { p \<leftarrow> get_prev x (links s); s \<leftarrow> on_links (tkmc_list_add (TcbWait c) p) s;
      Some (True, s) }" if "itskpri (tcbs s c) < wait_pri s x"
    using that by (simp add: sem_scan_from_def get_next_wait x) (subst sem_scan.simps, simp)
  show "sem_scan_from c j x s = do { n \<leftarrow> get_next x (links s); sem_scan_from c j n s }"
    if "\<not> itskpri (tcbs s c) < wait_pri s x"
    using that by (simp add: sem_scan_from_def get_next_wait x) (subst sem_scan.simps, simp)
qed

abbreviation sem_before :: "kernel \<Rightarrow> nat \<Rightarrow> nat \<Rightarrow> node \<Rightarrow> bool" where
  "sem_before s c j x \<equiv> sematr (semcbs s j) AND TA_TPRI \<noteq> 0 \<and> itskpri (tcbs s c) < wait_pri s x"

lemma sem_enqueue_ok:
  assumes R: "rep (links s) Q" and T: "typed Q" and q: "Q (SemQ j) = Some ws" and n: "Q (TcbWait c) = Some []"
  shows "ok (sem_enqueue c j s) (\<lambda>s'. \<exists>h. s' = s\<lparr>links := h\<rparr> \<and> rep h (enlist (sem_before s c j) (TcbWait c) (SemQ j) Q))"
proof -
  have f: "\<forall>x \<in> set ws. fits (SemQ j) x" using q typed_in_ring [OF T, of "SemQ j"] by (auto simp: in_ring_def)
  have n': "idle_node (TcbWait c) Q" "mapped (TcbWait c)" "TcbWait c \<noteq> SemQ j"
    using rep_owner_idle [OF R n] by (simp_all add: mapped_def)
  have tail: "ok (on_links (tkmc_list_add_tail (TcbWait c) (SemQ j)) s)
      (\<lambda>s'. \<exists>h. s' = s\<lparr>links := h\<rparr> \<and> rep h (enlist P (TcbWait c) (SemQ j) Q))" if "\<forall>x \<in> set ws. \<not> P x" for P
    using that q by (intro ok_add_tail [OF R _ n'])
      (auto simp: push_def enlist_def insert_before_tail)
  show ?thesis
  proof (cases "sematr (semcbs s j) AND TA_TPRI = 0 \<or> ws = []")
    case True
    then show ?thesis
      using tail [of "sem_before s c j"] tkmc_list_empty_owner [OF R q] unfolding sem_enqueue_def by auto
  next
    case False
    have m: "get_next (hd (ws @ [SemQ j])) (links s) \<noteq> None"
      using False repD(3) [OF R q] by (cases ws) (auto simp: get_next_def)
    have "ok (sem_scan_from c j (hd (ws @ [SemQ j])) s) (\<lambda>(b, s'). ok (if b then Some s'
        else on_links (tkmc_list_add_tail (TcbWait c) (SemQ j)) s')
      (\<lambda>s'. \<exists>h. s' = s\<lparr>links := h\<rparr> \<and> rep h (enlist (sem_before s c j) (TcbWait c) (SemQ j) Q)))"
      using sem_ins.insert_ok [OF R q f n'] False by simp
    then show ?thesis
      using False tkmc_list_empty_owner [OF R q] get_next_head [OF R q]
      by (auto simp: sem_enqueue_def sem_scan_from_def elim!: ok_mono split: if_splits)
  qed
qed

lemma may_take_ok:
  assumes R: "rep (links s) Q" and T: "typed Q" and q: "Q (SemQ j) = Some ws"
  shows "may_take c j cnt s = Some (cnt \<le> semcnt (semcbs s j) \<and>
    (ws = [] \<or> \<not> takes_first s j \<or> sem_before s c j (hd ws)))"
proof (cases ws)
  case Nil
  then show ?thesis using tkmc_list_empty_owner [OF R q] by (simp add: may_take_def)
next
  case (Cons n ns)
  then have "fits (SemQ j) n" using typed_in_ring [OF T, of "SemQ j" n] q by (simp add: in_ring_def)
  then obtain i where "n = TcbWait i" using fits_wait(1) by blast
  then show ?thesis
    using Cons tkmc_list_empty_owner [OF R q] get_next_head [OF R q] by (auto simp: may_take_def)
qed

lemma served_smaller: "held_back first c rs \<Longrightarrow> c' \<le> c \<Longrightarrow> held_back first c' rs"
  by (auto simp: held_back_def intro: le_less_trans)

lemma wai_sem_take:
  assumes R: "rep (links s) Q" and G: "ginv s Q" and j: "j < CFN_MAX_SEMID" "exists_id (semid (semcbs s j))"
    and c: "0 < cnt" "cnt \<le> semcnt (semcbs s j)"
  shows "sys_inv (upd_sem j (\<lambda>cb. cb\<lparr>semcnt := semcnt cb - cnt\<rparr>) s)"
proof (rule sys_invI [of _ Q])
  let ?s = "set_semcnt j (semcnt (semcbs s j) - cnt) s"
  have K: "kinv s Q" and S: "sem_served s Q" using G by (simp_all add: ginv_def)
  have "kinv ?s Q" using sem_okD [OF K j] c by (intro kinv_set_semcnt [OF K]) auto
  moreover have "wait_req ?s = wait_req s" by (auto intro!: wait_req_cong)
  then have "sem_served ?s Q"
    using S c served_smaller [of "takes_first s j" "semcnt (semcbs s j)" _ "semcnt (semcbs s j) - cnt"]
    by (auto simp: sem_served_def)
  ultimately show "ginv (upd_sem j (\<lambda>cb. cb\<lparr>semcnt := semcnt cb - cnt\<rparr>) s) Q"
    unfolding upd_semcnt_set using G by (auto simp: ginv_def flg_served_def sched_ok_def)
qed (use R in simp)

lemma sem_join_ok:
  assumes q: "sem_queue_ok s j ws" and out: "TcbWait c \<notin> set ws" and r: "0 < cnt" "cnt \<le> maxsem (semcbs s j)"
  shows "sem_queue_ok (upd_tcb c (block_tcb (WSem cnt j) w d) s) j (insert_before (sem_before s c j) (TcbWait c) ws)"
proof -
  let ?s = "upd_tcb c (block_tcb (WSem cnt j) w d) s"
  have old: "wait_req ?s x = wait_req s x" if "x \<in> set ws" for x
    using that out by (intro wait_req_upd) auto
  have pri: "wait_pri ?s = wait_pri s"
  proof
    show "wait_pri ?s n = wait_pri s n" for n by (cases n) (simp_all add: block_tcb_def wait_tcb_def)
  qed
  have "pri_sorted ?s (insert_before (sem_before s c j) (TcbWait c) ws)" if "sematr (semcbs s j) AND TA_TPRI \<noteq> 0"
    using q that sorted_wrt_insert_before [of "wait_pri s" ws "TcbWait c"]
    by (simp add: sem_queue_ok_def pri_sorted_def pri)
  then show ?thesis
    using q r old by (auto simp: sem_queue_ok_def block_tcb_def wait_tcb_def)
qed

lemma sem_join_held_back:
  assumes S: "held_back (takes_first s j) (semcnt (semcbs s j)) (map (wait_req s) ws)"
    and out: "TcbWait c \<notin> set ws"
    and no: "\<not> (cnt \<le> semcnt (semcbs s j) \<and> (ws = [] \<or> \<not> takes_first s j \<or> sem_before s c j (hd ws)))"
  shows "held_back (takes_first s j) (semcnt (semcbs s j))
    (map (wait_req (upd_tcb c (block_tcb (WSem cnt j) w d) s)) (insert_before (sem_before s c j) (TcbWait c) ws))"
proof -
  let ?r = "wait_req (upd_tcb c (block_tcb (WSem cnt j) w d) s)"
  have new: "?r (TcbWait c) = cnt" by (simp add: block_tcb_def wait_tcb_def)
  have old: "?r x = wait_req s x" if "x \<in> set ws" for x using that out by (intro wait_req_upd) auto
  show ?thesis
  proof (cases "takes_first s j")
    case False
    then show ?thesis using S no new old by (auto simp: held_back_def)
  next
    case True
    then show ?thesis using S no new old by (cases ws) (auto simp: held_back_def)
  qed
qed

lemma wai_sem_block:
  assumes R: "rep (links s) Q" and G: "ginv s Q" and c: "running s c" and C: "clock_ok (mtime s)"
    and j: "j < CFN_MAX_SEMID" "exists_id (semid (semcbs s j))" and q: "Q (SemQ j) = Some ws"
    and r: "0 < cnt" "cnt \<le> maxsem (semcbs s j)"
    and no: "\<not> (cnt \<le> semcnt (semcbs s j) \<and> (ws = [] \<or> \<not> takes_first s j \<or> sem_before s c j (hd ws)))"
  shows "ok (on_links (tkmc_init_list_head (TcbWait c)) (upd_tcb c (\<lambda>t. t\<lparr>winfo := WSem cnt j\<rparr>) s))
    (\<lambda>s2. ok (sem_enqueue c j s2) (\<lambda>s2. ok (start_wait c TTW_SEM tmout s2)
      (\<lambda>s'. mstatus s' = mstatus s \<and> sys_inv s' \<and> blocked (SemQ j) c (WSem cnt j) TTW_SEM tmout (sem_before s c j) s s')))"
proof -
  have K: "kinv s Q" using G by (simp add: ginv_def)
  note L = running_links [OF K c]
  have fit: "fits (SemQ j) (TcbWait c)" using j L(1) by simp
  have out: "TcbWait c \<notin> set ws" using q rep_owner_loose [OF R L(3)] by (auto simp: loose_def in_ring_def)
  have qo: "sem_queue_ok s j ws" using sem_okD(5) [OF K j] q by auto
  have hb: "held_back (takes_first s j) (semcnt (semcbs s j)) (map (wait_req s) ws)"
    using G q by (simp add: ginv_def sem_served_def)
  let ?wi = "WSem cnt j" and ?P = "sem_before s c j"
  note F = block_kinv [where w = TTW_SEM and wi = ?wi and P = ?P and tm = "0 < tmout", OF R K c q fit refl]
    and F2 = block_served [where w = TTW_SEM and wi = ?wi and P = ?P and tm = "0 < tmout", OF R G c q fit refl]
  have b: "wait_pri ((upd_tcb c (\<lambda>t. t\<lparr>winfo := ?wi\<rparr>) s)\<lparr>links := h\<rparr>) = wait_pri s" for h
  proof
    show "wait_pri ((upd_tcb c (\<lambda>t. t\<lparr>winfo := ?wi\<rparr>) s)\<lparr>links := h\<rparr>) n = wait_pri s n" for n
      by (cases n) simp_all
  qed
  show ?thesis
  proof (rule block_ok [where P = ?P and q = "SemQ j", OF R K c C])
    show "ok (sem_enqueue c j ((upd_tcb c (\<lambda>t. t\<lparr>winfo := ?wi\<rparr>) s)\<lparr>links := h\<rparr>))
        (\<lambda>s'. \<exists>h'. s' = (upd_tcb c (\<lambda>t. t\<lparr>winfo := ?wi\<rparr>) s)\<lparr>links := h'\<rparr> \<and> rep h' (enlist ?P (TcbWait c) (SemQ j) Q))"
      if "rep h Q" for h
      using that by (intro ok_mono [OF sem_enqueue_ok [of _ Q j ws c]]) (auto simp: kinvD(1) [OF K] q L(3) b)
  qed (use F F2 sem_join_ok [OF qo out r] sem_join_held_back [OF hb out no] q
      wait_on_rings(3) [OF R K c q fit refl, of "0 < tmout" ?P] in auto)
qed

text \<open>
  What a wait on a semaphore does: it takes the units, is refused, or blocks its caller, who joins
  the queue where the attribute of the semaphore puts it.
\<close>

definition wai_sem_body :: "nat \<Rightarrow> int \<Rightarrow> TMO \<Rightarrow> bool \<Rightarrow> kernel \<Rightarrow> ER outcome \<Rightarrow> kernel \<Rightarrow> bool" where
  "wai_sem_body j cnt tmout can_block s r s' \<longleftrightarrow> (let cb = semcbs s j in
     if \<not> can_block then r = Return E_CTX \<and> s' = s
     else if \<not> exists_id (semid cb) then r = Return E_NOEXS \<and> s' = s
     else if cnt > maxsem cb then r = Return E_PAR \<and> s' = s
     else (case (current s, list_of (SemQ j) (links s)) of (Some c, Some ws) \<Rightarrow>
         if cnt \<le> semcnt cb \<and> (ws = [] \<or> \<not> takes_first s j \<or> sem_before s c j (hd ws))
         then r = Return E_OK \<and> s' = upd_sem j (\<lambda>cb. cb\<lparr>semcnt := semcnt cb - cnt\<rparr>) s
         else if tmout = TMO_POL then r = Return E_TMOUT \<and> s' = s
         else r = Block \<and> blocked (SemQ j) c (WSem cnt j) TTW_SEM tmout (sem_before s c j) s s'
       | _ \<Rightarrow> False))"

definition wai_sem_result :: "ID \<Rightarrow> int \<Rightarrow> TMO \<Rightarrow> kernel \<Rightarrow> ER outcome \<Rightarrow> kernel \<Rightarrow> bool" where
  "wai_sem_result objid cnt tmout s r s' \<longleftrightarrow>
     (if \<not> tkmc_id_in_range objid (int CFN_MAX_SEMID) then r = Return E_ID \<and> s' = s
      else if cnt \<le> 0 \<or> tmout < TMO_FEVR then r = Return E_PAR \<and> s' = s
      else wai_sem_body (nat (objid - 1)) cnt tmout (tkmc_can_block (mstatus s OR NOT MSTATUS_MIE) s) s r s')"

lemma wai_sem_body_unmask:
  assumes "wai_sem_body j cnt tmout b (s\<lparr>mstatus := m\<rparr>) r s'"
  shows "wai_sem_body j cnt tmout b s r (s'\<lparr>mstatus := mstatus s\<rparr>)"
proof -
  have "wait_pri (s\<lparr>mstatus := m\<rparr>) = wait_pri s" by (intro ext wait_pri_cong) simp
  then show ?thesis
    using assms unfolding wai_sem_body_def Let_def
    by (cases b; cases "exists_id (semid (semcbs s j))"; cases "current s"; cases "list_of (SemQ j) (links s)")
      (auto split: if_split_asm)
qed

lemma tk_wai_sem_ok:
  assumes I: "sys_inv s" and st: "settled s" and C: "clock_ok (mtime s)"
  shows "ok (tk_wai_sem objid cnt tmout s) (\<lambda>(r, s'). sys_inv s' \<and> mstatus s' = mstatus s \<and>
    wai_sem_result objid cnt tmout s r s')"
  unfolding tk_wai_sem_def Let_def
proof (intro ok_ifI, goal_cases)
  case ids: 3
  define j where "j = nat (objid - 1)"
  have j: "j < CFN_MAX_SEMID" using id_in_range_index [of objid CFN_MAX_SEMID] ids by (auto simp: j_def)
  let ?b = "tkmc_can_block (mstatus s OR NOT MSTATUS_MIE) s"
  have res: "wai_sem_result objid cnt tmout s r s' = wai_sem_body j cnt tmout ?b s r s'" for r s'
    using ids by (simp add: wai_sem_result_def j_def)
  show ?case
    unfolding j_def [symmetric] res
  proof (rule crit_wait [OF I st C, where P = "wai_sem_body j cnt tmout ?b", OF _ _ wai_sem_body_unmask], goal_cases)
    case (2 s0 Q c)
    note R = 2(2) and G = 2(3) and K = 2(4)
    show ?case
    proof (cases "exists_id (semid (semcbs s0 j)) \<and> cnt \<le> maxsem (semcbs s0 j)")
      case False
      then show ?thesis using sys_invI [OF R G] by (auto simp: exists_id_def wai_sem_body_def Let_def 2(1))
    next
      case True
      then obtain ws where q: "Q (SemQ j) = Some ws" using sem_okD(5) [OF K j] by blast
      let ?t = "cnt \<le> semcnt (semcbs s0 j) \<and> (ws = [] \<or> \<not> takes_first s0 j \<or> sem_before s0 c j (hd ws))"
      have t: "may_take c j cnt s0 = Some ?t" by (rule may_take_ok [OF R kinvD(1) [OF K] q])
      have cnt: "0 < cnt" and e: "exists_id (semid (semcbs s0 j))" using ids True by simp_all
      note B = wai_sem_body_def Let_def list_of_rep [OF R q]
      show ?thesis
      proof (cases "?t \<or> tmout = TMO_POL")
        case now: True
        then show ?thesis
          using True sys_invI [OF R G] wai_sem_take [OF R G j e cnt] 2(1)
          by (auto simp: exists_id_def 2(6) t B)
      next
        case False
        then have t': "may_take c j cnt s0 = Some False" and no: "\<not> ?t" using t by auto
        have "ok (on_links (tkmc_init_list_head (TcbWait c)) (upd_tcb c (\<lambda>t. t\<lparr>winfo := WSem cnt j\<rparr>) s0))
          (\<lambda>s2. ok (sem_enqueue c j s2) (\<lambda>s2. ok (start_wait c TTW_SEM tmout s2)
            (\<lambda>s'. mstatus s' = mstatus s0 \<and> sys_inv s' \<and> wai_sem_body j cnt tmout ?b s0 Block s')))"
          by (rule ok_mono [OF wai_sem_block [OF R G 2(5,7) j e q cnt _ no, of tmout]])
            (use True False 2(1,6) in \<open>auto simp: B elim!: ok_mono simp del: ok_on_links\<close>)
        then show ?thesis using True False by (simp add: exists_id_def 2(6) t' del: ok_on_links)
      qed
    qed
  qed (simp add: wai_sem_body_def)
qed (use I in \<open>auto simp: wai_sem_result_def\<close>)

lemma tk_wai_sem_call_ok:
  assumes "sys_inv s" and "settled s" and "clock_ok (mtime s)"
  shows "call_ok (tk_wai_sem objid cnt tmout s) s"
  unfolding call_ok_def by (rule ok_mono [OF tk_wai_sem_ok [OF assms]]) auto

end
