(* ===== verification/TK_EventFlag.thy ===== *)
theory TK_EventFlag
  imports TK_Semaphore
begin

text \<open>
  The event flags of \<^verbatim>\<open>kernel/event_flag.c\<close>. The pattern that
  \<^verbatim>\<open>tk_wai_flg\<close> stores through its last argument is the second component of
  its result, \<^term>\<open>None\<close> where the code stores nothing.
\<close>

section \<open>The calls\<close>

definition free_flgcb :: "nat \<Rightarrow> FLGCB" where
  "free_flgcb i = \<lparr>flgid = of_nat (i + 1) OR NOEXS_MASK, flg_exinf = NULL, flgatr = 0, flgptn = 0\<rparr>"

fun init_flgcbs :: "nat \<Rightarrow> nat \<Rightarrow> kernel \<Rightarrow> kernel option" where
  "init_flgcbs i 0 s = Some s"
| "init_flgcbs i (Suc k) s = do {
     let s = upd_flg i (\<lambda>_. free_flgcb i) s;
     s \<leftarrow> on_links (tkmc_init_list_head (FlgQ i)) s;
     s \<leftarrow> on_links (tkmc_list_add_tail (FlgQ i) FreeFlg) s;
     init_flgcbs (Suc i) k s }"

definition tkmc_init_flgcb :: "kernel \<Rightarrow> kernel option" where
  "tkmc_init_flgcb s = do {
     s \<leftarrow> on_links (tkmc_init_list_head FreeFlg) s;
     init_flgcbs 0 CFN_MAX_FLGID s }"

record T_CFLG =
  cf_exinf :: addr
  cf_flgatr :: ATR
  cf_iflgptn :: UINT

definition VALID_FLGATR :: ATR where
  "VALID_FLGATR = TA_TFIFO OR TA_TPRI OR TA_WSGL OR TA_WMUL"

definition tk_cre_flg :: "T_CFLG option \<Rightarrow> kernel \<Rightarrow> (ID outcome \<times> kernel) option" where
  "tk_cre_flg pk_cflg s = (case pk_cflg of None \<Rightarrow> Some (Return E_PAR, s)
   | Some pk \<Rightarrow>
     if cf_flgatr pk AND NOT VALID_FLGATR \<noteq> 0 then Some (Return E_RSATR, s)
     else crit (\<lambda>_ s. do {
       e \<leftarrow> tkmc_list_empty FreeFlg (links s);
       if \<not> e then do {
         n \<leftarrow> get_next FreeFlg (links s);
         j \<leftarrow> flgcb_of_link n;
         s \<leftarrow> on_links (tkmc_list_del (FlgQ j)) s;
         s \<leftarrow> on_links (tkmc_init_list_head (FlgQ j)) s;
         let new_flgid = flgid (flgcbs s j) AND NOT NOEXS_MASK;
         let s = upd_flg j (\<lambda>c. c\<lparr>flgid := new_flgid, flg_exinf := cf_exinf pk,
           flgatr := cf_flgatr pk, flgptn := cf_iflgptn pk\<rparr>) s;
         Some (Return (sint new_flgid), s) }
       else Some (Return E_LIMIT, s) }) s)"

partial_function (option) flg_scan :: "nat \<Rightarrow> nat \<Rightarrow> node \<Rightarrow> kernel \<Rightarrow> (bool \<times> kernel) option" where
  "flg_scan c j pos s =
     (if pos = FlgQ j then Some (False, s)
      else do {
        i \<leftarrow> tcb_of_wait pos;
        if itskpri (tcbs s c) < itskpri (tcbs s i) then do {
          p \<leftarrow> get_prev pos (links s);
          s \<leftarrow> on_links (tkmc_list_add (TcbWait c) p) s;
          Some (True, s) }
        else do { n \<leftarrow> get_next pos (links s); flg_scan c j n s } })"

definition flg_enqueue :: "nat \<Rightarrow> nat \<Rightarrow> kernel \<Rightarrow> kernel option" where
  "flg_enqueue c j s =
     (if flgatr (flgcbs s j) AND TA_TPRI \<noteq> 0 then do {
        e \<leftarrow> tkmc_list_empty (FlgQ j) (links s);
        if e then on_links (tkmc_list_add_tail (TcbWait c) (FlgQ j)) s
        else do {
          pos \<leftarrow> get_next (FlgQ j) (links s);
          (inserted, s) \<leftarrow> flg_scan c j pos s;
          if \<not> inserted then on_links (tkmc_list_add_tail (TcbWait c) (FlgQ j)) s
          else Some s } }
      else on_links (tkmc_list_add_tail (TcbWait c) (FlgQ j)) s)"

text \<open>What a satisfied waiter leaves of the pattern, by its mode.\<close>

definition clear_ptn :: "UINT \<Rightarrow> UINT \<Rightarrow> UINT \<Rightarrow> UINT" where
  "clear_ptn ptn wptn mode =
     (if mode AND TWF_CLR \<noteq> 0 then 0 else if mode AND TWF_BITCLR \<noteq> 0 then ptn AND NOT wptn else ptn)"

definition VALID_WFMODE :: UINT where
  "VALID_WFMODE = TWF_ANDW OR TWF_ORW OR TWF_CLR OR TWF_BITCLR"

definition tk_wai_flg :: "ID \<Rightarrow> UINT \<Rightarrow> UINT \<Rightarrow> addr \<Rightarrow> TMO \<Rightarrow> kernel \<Rightarrow>
    ((ER \<times> UINT option) outcome \<times> kernel) option" where
  "tk_wai_flg objid wptn mode p_flgptn tmout s =
     (if \<not> tkmc_id_in_range objid (int CFN_MAX_FLGID) then Some (Return (E_ID, None), s)
      else if p_flgptn = NULL \<or> wptn = 0 then Some (Return (E_PAR, None), s)
      else if mode AND NOT VALID_WFMODE \<noteq> 0 then Some (Return (E_PAR, None), s)
      else if tmout < TMO_FEVR then Some (Return (E_PAR, None), s)
      else let j = nat (objid - 1) in
        crit (\<lambda>intsts s.
          if \<not> tkmc_can_block intsts s then Some (Return (E_CTX, None), s)
          else if flgid (flgcbs s j) AND NOEXS_MASK \<noteq> 0 then Some (Return (E_NOEXS, None), s)
          else do {
            e \<leftarrow> tkmc_list_empty (FlgQ j) (links s);
            if flgatr (flgcbs s j) AND TA_WMUL = 0 \<and> \<not> e then Some (Return (E_OBJ, None), s)
            else let ptn = flgptn (flgcbs s j) in
              if check_ptn ptn wptn mode then
                Some (Return (E_OK, Some ptn), upd_flg j (\<lambda>cb. cb\<lparr>flgptn := clear_ptn ptn wptn mode\<rparr>) s)
              else if tmout = TMO_POL then Some (Return (E_TMOUT, None), s)
              else do {
                c \<leftarrow> current s;
                let s = upd_tcb c (\<lambda>t. t\<lparr>winfo := WFlg wptn mode 0\<rparr>) s;
                s \<leftarrow> on_links (tkmc_init_list_head (TcbWait c)) s;
                s \<leftarrow> flg_enqueue c j s;
                s \<leftarrow> start_wait c TTW_FLG tmout s;
                Some (Block, s) } }) s)"

text \<open>The rest of the call, once the task runs again.\<close>

definition tk_wai_flg_resume :: "kernel \<Rightarrow> ((ER \<times> UINT option) outcome \<times> kernel) option" where
  "tk_wai_flg_resume = crit (\<lambda>_ s. do {
     c \<leftarrow> current s;
     let ercd = wupcause (tcbs s c);
     got \<leftarrow> (if ercd = E_OK then
         (case winfo (tcbs s c) of WFlg a b g \<Rightarrow> Some (Some g) | _ \<Rightarrow> None)
       else Some None);
     Some (Return (ercd, got), upd_tcb c (\<lambda>t. t\<lparr>wupcause := E_OK\<rparr>) s) })"

partial_function (option) set_loop :: "nat \<Rightarrow> node \<Rightarrow> node \<Rightarrow> kernel \<Rightarrow> kernel option" where
  "set_loop j pos n s =
     (if pos = FlgQ j then Some s
      else do {
        i \<leftarrow> tcb_of_wait pos;
        (wptn, mode) \<leftarrow> (case winfo (tcbs s i) of WFlg w m _ \<Rightarrow> Some (w, m) | _ \<Rightarrow> None);
        s \<leftarrow> (if check_ptn (flgptn (flgcbs s j)) wptn mode then do {
            let s = upd_tcb i (\<lambda>t. t\<lparr>winfo := WFlg wptn mode (flgptn (flgcbs s j))\<rparr>) s;
            let s = upd_flg j (\<lambda>cb. cb\<lparr>flgptn := clear_ptn (flgptn cb) wptn mode\<rparr>) s;
            tkmc_complete_wait i E_OK s }
          else Some s);
        n' \<leftarrow> get_next n (links s);
        set_loop j n n' s })"

definition tk_set_flg :: "ID \<Rightarrow> UINT \<Rightarrow> kernel \<Rightarrow> (ER outcome \<times> kernel) option" where
  "tk_set_flg objid setptn s =
     (if \<not> tkmc_id_in_range objid (int CFN_MAX_FLGID) then Some (Return E_ID, s)
      else let j = nat (objid - 1) in
        crit (\<lambda>_ s.
          if flgid (flgcbs s j) AND NOEXS_MASK \<noteq> 0 then Some (Return E_NOEXS, s)
          else do {
            let s = upd_flg j (\<lambda>cb. cb\<lparr>flgptn := flgptn cb OR setptn\<rparr>) s;
            e \<leftarrow> tkmc_list_empty (FlgQ j) (links s);
            if \<not> e then do {
              pos \<leftarrow> get_next (FlgQ j) (links s);
              n \<leftarrow> get_next pos (links s);
              s \<leftarrow> set_loop j pos n s;
              s \<leftarrow> reschedule s;
              Some (Return E_OK, s) }
            else Some (Return E_OK, s) }) s)"

definition tk_clr_flg :: "ID \<Rightarrow> UINT \<Rightarrow> kernel \<Rightarrow> (ER outcome \<times> kernel) option" where
  "tk_clr_flg objid clrptn s =
     (if \<not> tkmc_id_in_range objid (int CFN_MAX_FLGID) then Some (Return E_ID, s)
      else let j = nat (objid - 1) in
        crit (\<lambda>_ s.
          if flgid (flgcbs s j) AND NOEXS_MASK \<noteq> 0 then Some (Return E_NOEXS, s)
          else Some (Return E_OK, upd_flg j (\<lambda>cb. cb\<lparr>flgptn := flgptn cb AND clrptn\<rparr>) s)) s)"

section \<open>Patterns\<close>

lemma and_or_absorb: "a AND b = a \<Longrightarrow> a AND (b AND c) = a AND (c :: UINT)"
  by (metis and.assoc)

text \<open>Fewer bits satisfy fewer waiters.\<close>

lemma check_ptn_mono:
  assumes "p' AND p = p'" and "check_ptn p' w m"
  shows "check_ptn p w m"
proof (cases "m AND TWF_ORW = 0")
  case True
  then have "p' AND w = w" using assms(2) by (simp add: check_ptn_def)
  then have "p AND w = w" using assms(1) by (metis and.assoc and.commute)
  then show ?thesis using True by (simp add: check_ptn_def)
next
  case False
  then have "p' AND w \<noteq> 0" using assms(2) by (simp add: check_ptn_def)
  then have "p AND w \<noteq> 0" using assms(1) by (metis and.assoc and_zero_eq)
  then show ?thesis using False by (simp add: check_ptn_def)
qed

lemma clear_ptn_sub: "clear_ptn p w m AND p = clear_ptn p w m"
  by (simp add: clear_ptn_def and.assoc and.left_commute)
    (metis and.assoc and.commute and.idem)

text \<open>
  The reference of the wake-up loop: the waiters in queue order, each with its pattern and mode;
  the result is who is woken with which pattern, and the pattern that is left.
\<close>

fun flg_match :: "UINT \<Rightarrow> (nat \<times> UINT \<times> UINT) list \<Rightarrow> (nat \<times> UINT) list \<times> UINT" where
  "flg_match p [] = ([], p)"
| "flg_match p ((i, w, m) # ws) =
     (if check_ptn p w m then
        (case flg_match (clear_ptn p w m) ws of (g, p') \<Rightarrow> ((i, p) # g, p'))
      else flg_match p ws)"

lemma flg_match_sub: "flg_match p ws = (g, p') \<Longrightarrow> p' AND p = p'"
proof (induction p ws arbitrary: g rule: flg_match.induct)
  case (2 p i w m ws)
  show ?case
  proof (cases "check_ptn p w m")
    case True
    then obtain g1 where "flg_match (clear_ptn p w m) ws = (g1, p')"
      using 2 by (auto split: prod.splits)
    then have "p' AND clear_ptn p w m = p'" using 2 True by blast
    then show ?thesis using clear_ptn_sub [of p w m] by (metis and.assoc)
  qed (use 2 in simp)
qed simp

lemma flg_match_served:
  assumes "flg_match p ws = (g, p')" and "distinct (map fst ws)"
  shows "fst ` set g \<subseteq> fst ` set ws \<and> distinct (map fst g) \<and>
    (\<forall>i w m. (i, w, m) \<in> set ws \<longrightarrow> i \<notin> fst ` set g \<longrightarrow> \<not> check_ptn p' w m) \<and>
    (\<forall>i q. (i, q) \<in> set g \<longrightarrow> (\<exists>w m. (i, w, m) \<in> set ws \<and> check_ptn q w m))"
  using assms
proof (induction p ws arbitrary: g rule: flg_match.induct)
  case (2 p i w m ws)
  have d: "distinct (map fst ws)" and i: "i \<notin> fst ` set ws" using 2(4) by simp_all
  show ?case
  proof (cases "check_ptn p w m")
    case True
    then obtain g1 where g1: "flg_match (clear_ptn p w m) ws = (g1, p')" "g = (i, p) # g1"
      using 2 by (auto split: prod.splits)
    note IH = 2(1) [OF True g1(1) d]
    have "fst ` set g1 \<subseteq> fst ` set ws" using IH by simp
    then have "i \<notin> fst ` set g1" using i by blast
    then show ?thesis using IH True unfolding g1(2) by simp blast
  next
    case False
    then have m: "flg_match p ws = (g, p')" using 2 by simp
    then have "\<not> check_ptn p' w m" using False check_ptn_mono flg_match_sub by blast
    then show ?thesis using 2(2) [OF False m d] by simp blast
  qed
qed simp

section \<open>Creating and clearing\<close>

lemma flg_okD:
  assumes K: "kinv s Q" and j: "j < CFN_MAX_FLGID" and e: "exists_id (flgid (flgcbs s j))"
  shows "\<exists>ws. Q (FlgQ j) = Some ws \<and> flg_queue_ok s j ws"
  using kinvD(6) [OF K j] e by (simp add: flg_ok_def Let_def)

lemma sem_served_upd_flg [simp]: "sem_served (upd_flg j f s) Q = sem_served s Q"
  by (rule sem_served_cong) simp_all

lemma sched_ok_upd_flg [simp]: "sched_ok (upd_flg j f s) Q = sched_ok s Q"
  by (simp add: sched_ok_def)

text \<open>What creating does: a refusal that changes nothing, or the first free control block set up as the packet says.\<close>

definition cre_flg_result :: "T_CFLG option \<Rightarrow> kernel \<Rightarrow> ID outcome \<Rightarrow> kernel \<Rightarrow> bool" where
  "cre_flg_result packet s r s' \<longleftrightarrow> (case packet of None \<Rightarrow> r = Return E_PAR \<and> s' = s
   | Some pk \<Rightarrow>
     if cf_flgatr pk AND NOT VALID_FLGATR \<noteq> 0 then r = Return E_RSATR \<and> s' = s
     else if \<forall>j < CFN_MAX_FLGID. exists_id (flgid (flgcbs s j)) then r = Return E_LIMIT \<and> s' = s
     else (\<exists>j ns. list_of FreeFlg (links s) = Some (FlgQ j # ns) \<and> list_of FreeFlg (links s') = Some ns \<and>
       j < CFN_MAX_FLGID \<and> \<not> exists_id (flgid (flgcbs s j)) \<and> r = Return (int j + 1) \<and>
       flgcbs s' = (flgcbs s)(j := \<lparr>flgid = of_nat (Suc j), flg_exinf = cf_exinf pk, flgatr = cf_flgatr pk, flgptn = cf_iflgptn pk\<rparr>) \<and>
       list_of (FlgQ j) (links s') = Some [] \<and> tcbs s' = tcbs s \<and> semcbs s' = semcbs s \<and> mbxcbs s' = mbxcbs s \<and>
       current s' = current s \<and> msip s' = msip s \<and> mtime s' = mtime s))"

lemma cre_flg_result_unmask:
  "mstatus s' = m \<Longrightarrow> cre_flg_result pk (s\<lparr>mstatus := m\<rparr>) r s' \<Longrightarrow>
    cre_flg_result pk s r (s'\<lparr>mstatus := mstatus s\<rparr>)"
  unfolding cre_flg_result_def by (cases pk) (auto split: if_split_asm)

lemma created_flg:
  assumes G: "ginv s Q" and M: "obj_move FreeFlg (FlgQ j) Q ((detach (FlgQ j) Q)(FlgQ j \<mapsto> []))" and j: "j < CFN_MAX_FLGID"
  shows "ginv (upd_flg j (\<lambda>cb. cb\<lparr>flgid := of_nat (Suc j), flg_exinf := e, flgatr := a, flgptn := p\<rparr>) s)
    ((detach (FlgQ j) Q)(FlgQ j \<mapsto> []))" (is "ginv (upd_flg j ?f s) ?Q")
proof -
  have K: "kinv s Q" and S: "sem_served s Q" using G by (simp_all add: ginv_def)
  have "flg_ok (upd_flg j ?f s) ?Q j"
    using j number_exists [of j] by (simp add: flg_ok_def flg_queue_ok_def pri_sorted_def del: of_nat_Suc)
  then have "kinv (upd_flg j ?f s) ?Q" by (intro kinv_flg_move [OF K M] typed_intros kinvD(1) [OF K])
  moreover have "flg_served (upd_flg j ?f s) ?Q" using G by (auto simp: ginv_def flg_served_def ring_simps)
  ultimately show ?thesis
    using G obj_move_served [OF M] obj_move_ready [OF M] by (auto simp: ginv_def sched_ok_def)
qed

lemma tk_cre_flg_ok:
  assumes I: "sys_inv s"
  shows "ok (tk_cre_flg pk s) (\<lambda>(r, s'). sys_inv s' \<and> mstatus s' = mstatus s \<and> cre_flg_result pk s r s')"
proof (cases pk)
  case (Some c)
  show ?thesis
    unfolding tk_cre_flg_def Let_def Some option.case
  proof (intro ok_ifI, goal_cases)
    case ids: 2
    show ?case
    proof (rule crit_result [where P = "cre_flg_result (Some c)", OF I _ cre_flg_result_unmask], goal_cases)
      case (1 s0 Q)
      show ?case
      proof (rule flgs.allocate [OF 1(2,3)], goal_cases)
        case 1
        then show ?case using ids \<open>rep (links s0) Q\<close> \<open>ginv s0 Q\<close> by (simp add: sys_invI cre_flg_result_def)
      next
        case (2 j ns h)
        show ?case
          using created_flg [OF 1(3) 2(3,1)] sys_inv_links [OF 2(2)] list_of_rep [OF 2(2), of "FlgQ j"] list_of_rep [OF 2(2,5)] 2 ids
          by (auto simp: cre_flg_result_def simp del: of_nat_Suc)
      qed
    qed
  qed (use I in \<open>auto simp: cre_flg_result_def\<close>)
qed (use I in \<open>simp add: tk_cre_flg_def cre_flg_result_def\<close>)

lemma tk_cre_flg_call_ok:
  assumes "sys_inv s"
  shows "call_ok (tk_cre_flg pk s) s"
  by (rule result_call_ok [OF tk_cre_flg_ok [OF assms]])

text \<open>Taking bits away from the pattern satisfies nobody.\<close>

lemma fewer_bits_inv:
  assumes R: "rep (links s) Q" and G: "ginv s Q" and p: "p AND flgptn (flgcbs s j) = p"
  shows "sys_inv (upd_flg j (\<lambda>cb. cb\<lparr>flgptn := p\<rparr>) s)"
proof (rule sys_invI [of _ Q])
  have "flg_served (upd_flg j (\<lambda>cb. cb\<lparr>flgptn := p\<rparr>) s) Q"
    using G check_ptn_mono [OF p] by (auto simp: ginv_def flg_served_def)
  then show "ginv (upd_flg j (\<lambda>cb. cb\<lparr>flgptn := p\<rparr>) s) Q"
    using G kinv_upd_flgptn [of s Q j "\<lambda>_. p"] by (simp add: ginv_def)
qed (use R in simp)

definition clr_flg_result :: "ID \<Rightarrow> UINT \<Rightarrow> kernel \<Rightarrow> ER outcome \<Rightarrow> kernel \<Rightarrow> bool" where
  "clr_flg_result objid clrptn s r s' \<longleftrightarrow> (let j = nat (objid - 1) in
     if \<not> tkmc_id_in_range objid (int CFN_MAX_FLGID) then r = Return E_ID \<and> s' = s
     else if \<not> exists_id (flgid (flgcbs s j)) then r = Return E_NOEXS \<and> s' = s
     else r = Return E_OK \<and> s' = upd_flg j (\<lambda>cb. cb\<lparr>flgptn := flgptn cb AND clrptn\<rparr>) s)"

lemma tk_clr_flg_ok:
  assumes "sys_inv s"
  shows "ok (tk_clr_flg objid clrptn s) (\<lambda>(r, s'). sys_inv s' \<and> mstatus s' = mstatus s \<and> clr_flg_result objid clrptn s r s')"
  unfolding tk_clr_flg_def Let_def
proof (intro ok_ifI, goal_cases)
  case ids: 2
  define j where "j = nat (objid - 1)"
  show ?case
    unfolding j_def [symmetric]
  proof (rule crit_result [where P = "clr_flg_result objid clrptn", OF assms], goal_cases)
    case (1 s0 Q)
    have "upd_flg j (\<lambda>cb. cb\<lparr>flgptn := flgptn cb AND clrptn\<rparr>) s0 =
        upd_flg j (\<lambda>cb. cb\<lparr>flgptn := flgptn (flgcbs s0 j) AND clrptn\<rparr>) s0" by (simp add: upd_flg_def)
    moreover have "sys_inv (upd_flg j (\<lambda>cb. cb\<lparr>flgptn := flgptn (flgcbs s0 j) AND clrptn\<rparr>) s0)"
      using 1 by (intro fewer_bits_inv [of _ Q]) (simp_all add: ac_simps)
    ultimately have "sys_inv (upd_flg j (\<lambda>cb. cb\<lparr>flgptn := flgptn cb AND clrptn\<rparr>) s0)" by (simp only:)
    then show ?case using sys_invI [OF 1(2,3)] ids by (simp add: j_def clr_flg_result_def exists_id_def Let_def)
  qed (auto simp: clr_flg_result_def Let_def upd_flg_def split: if_split_asm)
qed (use assms in \<open>simp add: clr_flg_result_def\<close>)

lemma tk_clr_flg_call_ok:
  assumes "sys_inv s"
  shows "call_ok (tk_clr_flg objid clrptn s) s"
  by (rule result_call_ok [OF tk_clr_flg_ok [OF assms]])

section \<open>Waiting\<close>

interpretation flg_ins: insertion_scan "FlgQ j" "TcbWait c"
  "\<lambda>s x. itskpri (tcbs s c) < wait_pri s x" "flg_scan c j" for c j
proof
  show "flg_scan c j (FlgQ j) s = Some (False, s)" for s
    by (subst flg_scan.simps) simp
next
  fix x s assume "fits (FlgQ j) x"
  then obtain i where x: "x = TcbWait i" using fits_wait(2) by blast
  show "flg_scan c j x s = do { p \<leftarrow> get_prev x (links s); s \<leftarrow> on_links (tkmc_list_add (TcbWait c) p) s;
      Some (True, s) }" if "itskpri (tcbs s c) < wait_pri s x"
    using that by (subst flg_scan.simps) (simp add: x)
  show "flg_scan c j x s = do { n \<leftarrow> get_next x (links s); flg_scan c j n s }"
    if "\<not> itskpri (tcbs s c) < wait_pri s x"
    using that by (subst flg_scan.simps) (simp add: x)
qed

abbreviation flg_before :: "kernel \<Rightarrow> nat \<Rightarrow> nat \<Rightarrow> node \<Rightarrow> bool" where
  "flg_before s c j x \<equiv> flgatr (flgcbs s j) AND TA_TPRI \<noteq> 0 \<and> itskpri (tcbs s c) < wait_pri s x"

lemma flg_enqueue_ok:
  assumes R: "rep (links s) Q" and T: "typed Q" and q: "Q (FlgQ j) = Some ws" and n: "Q (TcbWait c) = Some []"
  shows "ok (flg_enqueue c j s) (\<lambda>s'. \<exists>h. s' = s\<lparr>links := h\<rparr> \<and> rep h (enlist (flg_before s c j) (TcbWait c) (FlgQ j) Q))"
proof -
  have f: "\<forall>x \<in> set ws. fits (FlgQ j) x" using q typed_in_ring [OF T, of "FlgQ j"] by (auto simp: in_ring_def)
  have n': "idle_node (TcbWait c) Q" "mapped (TcbWait c)" "TcbWait c \<noteq> FlgQ j"
    using rep_owner_idle [OF R n] by (simp_all add: mapped_def)
  have tail: "ok (on_links (tkmc_list_add_tail (TcbWait c) (FlgQ j)) s)
      (\<lambda>s'. \<exists>h. s' = s\<lparr>links := h\<rparr> \<and> rep h (enlist P (TcbWait c) (FlgQ j) Q))" if "\<forall>x \<in> set ws. \<not> P x" for P
    using that q by (intro ok_add_tail [OF R _ n'])
      (auto simp: push_def enlist_def insert_before_tail)
  show ?thesis
  proof (cases "flgatr (flgcbs s j) AND TA_TPRI = 0 \<or> ws = []")
    case True
    then show ?thesis
      using tail [of "flg_before s c j"] tkmc_list_empty_owner [OF R q] unfolding flg_enqueue_def by auto
  next
    case False
    have "ok (flg_scan c j (hd (ws @ [FlgQ j])) s) (\<lambda>(b, s'). ok (if b then Some s'
        else on_links (tkmc_list_add_tail (TcbWait c) (FlgQ j)) s')
      (\<lambda>s'. \<exists>h. s' = s\<lparr>links := h\<rparr> \<and> rep h (enlist (flg_before s c j) (TcbWait c) (FlgQ j) Q)))"
      using flg_ins.insert_ok [OF R q f n'] False by simp
    then show ?thesis
      using False tkmc_list_empty_owner [OF R q] get_next_head [OF R q]
      by (auto simp: flg_enqueue_def elim!: ok_mono split: if_splits)
  qed
qed

lemma flg_join_ok:
  assumes q: "flg_queue_ok s j ws" and out: "TcbWait c \<notin> set ws" and m: "flgatr (flgcbs s j) AND TA_WMUL = 0 \<Longrightarrow> ws = []"
  shows "flg_queue_ok (upd_tcb c (block_tcb wi w d) s) j (insert_before (flg_before s c j) (TcbWait c) ws)"
proof -
  let ?s = "upd_tcb c (block_tcb wi w d) s"
  have pri: "wait_pri ?s = wait_pri s"
  proof
    show "wait_pri ?s n = wait_pri s n" for n by (cases n) (simp_all add: block_tcb_def wait_tcb_def)
  qed
  have "pri_sorted ?s (insert_before (flg_before s c j) (TcbWait c) ws)" if "flgatr (flgcbs s j) AND TA_TPRI \<noteq> 0"
    using q that sorted_wrt_insert_before [of "wait_pri s" ws "TcbWait c"]
    by (simp add: flg_queue_ok_def pri_sorted_def pri)
  then show ?thesis using m by (simp add: flg_queue_ok_def)
qed

lemma wai_flg_block:
  assumes R: "rep (links s) Q" and G: "ginv s Q" and c: "running s c" and C: "clock_ok (mtime s)"
    and j: "j < CFN_MAX_FLGID" "exists_id (flgid (flgcbs s j))" and q: "Q (FlgQ j) = Some ws"
    and m: "flgatr (flgcbs s j) AND TA_WMUL = 0 \<Longrightarrow> ws = []"
    and no: "\<not> check_ptn (flgptn (flgcbs s j)) wptn mode"
  shows "ok (on_links (tkmc_init_list_head (TcbWait c)) (upd_tcb c (\<lambda>t. t\<lparr>winfo := WFlg wptn mode 0\<rparr>) s))
    (\<lambda>s2. ok (flg_enqueue c j s2) (\<lambda>s2. ok (start_wait c TTW_FLG tmout s2)
      (\<lambda>s'. mstatus s' = mstatus s \<and> sys_inv s' \<and> blocked (FlgQ j) c (WFlg wptn mode 0) TTW_FLG tmout (flg_before s c j) s s')))"
proof -
  have K: "kinv s Q" using G by (simp add: ginv_def)
  note L = running_links [OF K c]
  have fit: "fits (FlgQ j) (TcbWait c)" using j L(1) by simp
  have out: "TcbWait c \<notin> set ws" using q rep_owner_loose [OF R L(3)] by (auto simp: loose_def in_ring_def)
  have qo: "flg_queue_ok s j ws" using flg_okD [OF K j] q by auto
  let ?wi = "WFlg wptn mode 0" and ?P = "flg_before s c j"
  note F = block_kinv [where w = TTW_FLG and wi = ?wi and P = ?P and tm = "0 < tmout", OF R K c q fit refl]
    and F2 = block_served [where w = TTW_FLG and wi = ?wi and P = ?P and tm = "0 < tmout", OF R G c q fit refl]
  have b: "wait_pri ((upd_tcb c (\<lambda>t. t\<lparr>winfo := ?wi\<rparr>) s)\<lparr>links := h\<rparr>) = wait_pri s" for h
  proof
    show "wait_pri ((upd_tcb c (\<lambda>t. t\<lparr>winfo := ?wi\<rparr>) s)\<lparr>links := h\<rparr>) n = wait_pri s n" for n
      by (cases n) simp_all
  qed
  show ?thesis
  proof (rule block_ok [where P = ?P and q = "FlgQ j", OF R K c C])
    show "ok (flg_enqueue c j ((upd_tcb c (\<lambda>t. t\<lparr>winfo := ?wi\<rparr>) s)\<lparr>links := h\<rparr>))
        (\<lambda>s'. \<exists>h'. s' = (upd_tcb c (\<lambda>t. t\<lparr>winfo := ?wi\<rparr>) s)\<lparr>links := h'\<rparr> \<and> rep h' (enlist ?P (TcbWait c) (FlgQ j) Q))"
      if "rep h Q" for h
      using that by (intro ok_mono [OF flg_enqueue_ok [of _ Q j ws c]]) (auto simp: kinvD(1) [OF K] q L(3) b)
  qed (use F F2 flg_join_ok [OF qo out m] no q wait_on_rings(3) [OF R K c q fit refl, of "0 < tmout" ?P] in auto)
qed

text \<open>What a wait on a flag does, once its arguments are accepted.\<close>

definition wai_flg_body :: "nat \<Rightarrow> UINT \<Rightarrow> UINT \<Rightarrow> TMO \<Rightarrow> bool \<Rightarrow> kernel \<Rightarrow> (ER \<times> UINT option) outcome \<Rightarrow> kernel \<Rightarrow> bool" where
  "wai_flg_body j wptn mode tmout can_block s r s' \<longleftrightarrow> (let cb = flgcbs s j; ptn = flgptn cb in
     if \<not> can_block then r = Return (E_CTX, None) \<and> s' = s
     else if \<not> exists_id (flgid cb) then r = Return (E_NOEXS, None) \<and> s' = s
     else (case (current s, list_of (FlgQ j) (links s)) of (Some c, Some ws) \<Rightarrow>
         if flgatr cb AND TA_WMUL = 0 \<and> ws \<noteq> [] then r = Return (E_OBJ, None) \<and> s' = s
         else if check_ptn ptn wptn mode then
           r = Return (E_OK, Some ptn) \<and> s' = upd_flg j (\<lambda>cb. cb\<lparr>flgptn := clear_ptn ptn wptn mode\<rparr>) s
         else if tmout = TMO_POL then r = Return (E_TMOUT, None) \<and> s' = s
         else r = Block \<and> blocked (FlgQ j) c (WFlg wptn mode 0) TTW_FLG tmout (flg_before s c j) s s'
       | _ \<Rightarrow> False))"

definition wai_flg_result ::
  "ID \<Rightarrow> UINT \<Rightarrow> UINT \<Rightarrow> addr \<Rightarrow> TMO \<Rightarrow> kernel \<Rightarrow> (ER \<times> UINT option) outcome \<Rightarrow> kernel \<Rightarrow> bool" where
  "wai_flg_result objid wptn mode p tmout s r s' \<longleftrightarrow>
     (if \<not> tkmc_id_in_range objid (int CFN_MAX_FLGID) then r = Return (E_ID, None) \<and> s' = s
      else if p = NULL \<or> wptn = 0 \<or> mode AND NOT VALID_WFMODE \<noteq> 0 \<or> tmout < TMO_FEVR
      then r = Return (E_PAR, None) \<and> s' = s
      else wai_flg_body (nat (objid - 1)) wptn mode tmout (tkmc_can_block (mstatus s OR NOT MSTATUS_MIE) s) s r s')"

lemma wai_flg_body_unmask:
  assumes "wai_flg_body j wptn mode tmout b (s\<lparr>mstatus := m\<rparr>) r s'"
  shows "wai_flg_body j wptn mode tmout b s r (s'\<lparr>mstatus := mstatus s\<rparr>)"
proof -
  have "wait_pri (s\<lparr>mstatus := m\<rparr>) = wait_pri s" by (intro ext wait_pri_cong) simp
  then show ?thesis
    using assms unfolding wai_flg_body_def Let_def
    by (cases b; cases "exists_id (flgid (flgcbs s j))"; cases "current s"; cases "list_of (FlgQ j) (links s)")
      (simp_all split: if_split_asm)
qed

lemma tk_wai_flg_ok:
  assumes I: "sys_inv s" and st: "settled s" and C: "clock_ok (mtime s)"
  shows "ok (tk_wai_flg objid wptn mode p tmout s) (\<lambda>(r, s'). sys_inv s' \<and> mstatus s' = mstatus s \<and>
    wai_flg_result objid wptn mode p tmout s r s')"
  unfolding tk_wai_flg_def Let_def
proof (intro ok_ifI, goal_cases)
  case ids: 5
  define j where "j = nat (objid - 1)"
  have j: "j < CFN_MAX_FLGID" using id_in_range_index [of objid CFN_MAX_FLGID] ids by (auto simp: j_def)
  let ?b = "tkmc_can_block (mstatus s OR NOT MSTATUS_MIE) s"
  have res: "wai_flg_result objid wptn mode p tmout s r s' = wai_flg_body j wptn mode tmout ?b s r s'" for r s'
    using ids by (simp add: wai_flg_result_def j_def)
  show ?case
    unfolding j_def [symmetric] res
  proof (rule crit_wait [OF I st C, where P = "wai_flg_body j wptn mode tmout ?b", OF _ _ wai_flg_body_unmask], goal_cases)
    case (2 s0 Q c)
    note R = 2(2) and G = 2(3)
    show ?case
    proof (cases "exists_id (flgid (flgcbs s0 j))")
      case False
      then show ?thesis using sys_invI [OF R G] 2(1) by (auto simp: exists_id_def wai_flg_body_def)
    next
      case e: True
      obtain ws where q: "Q (FlgQ j) = Some ws" using flg_okD [OF 2(4) j e] by blast
      note E = tkmc_list_empty_owner [OF R q] list_of_rep [OF R q] wai_flg_body_def Let_def
      let ?p = "flgptn (flgcbs s0 j)"
      have take: "sys_inv (upd_flg j (\<lambda>cb. cb\<lparr>flgptn := clear_ptn ?p wptn mode\<rparr>) s0)"
        by (rule fewer_bits_inv [OF R G clear_ptn_sub])
      show ?thesis
      proof (cases "flgatr (flgcbs s0 j) AND TA_WMUL = 0 \<and> ws \<noteq> [] \<or> check_ptn ?p wptn mode \<or> tmout = TMO_POL")
        case now: True
        then show ?thesis using e sys_invI [OF R G] take 2(1) by (auto simp: exists_id_def E 2(6))
      next
        case False
        have "ok (on_links (tkmc_init_list_head (TcbWait c)) (upd_tcb c (\<lambda>t. t\<lparr>winfo := WFlg wptn mode 0\<rparr>) s0))
          (\<lambda>s2. ok (flg_enqueue c j s2) (\<lambda>s2. ok (start_wait c TTW_FLG tmout s2)
            (\<lambda>s'. mstatus s' = mstatus s0 \<and> sys_inv s' \<and> wai_flg_body j wptn mode tmout ?b s0 Block s')))"
          by (rule ok_mono [OF wai_flg_block [OF R G 2(5,7) j e q, of wptn mode tmout]])
            (use False 2(1,6) e in \<open>auto simp: E elim!: ok_mono simp del: ok_on_links\<close>)
        then show ?thesis
          using e False by (auto simp: exists_id_def 2(6) E simp del: ok_on_links)
      qed
    qed
  qed (simp add: wai_flg_body_def)
qed (use I in \<open>auto simp: wai_flg_result_def\<close>)

lemma tk_wai_flg_call_ok:
  assumes "sys_inv s" and "settled s" and "clock_ok (mtime s)"
  shows "call_ok (tk_wai_flg objid wptn mode p tmout s) s"
  by (rule result_call_ok [OF tk_wai_flg_ok [OF assms]])

lemma tk_wai_flg_resume_call_ok:
  assumes "sys_inv s" and "current s = Some c" and "winfo (tcbs s c) = WFlg a b g"
  shows "call_ok (tk_wai_flg_resume s) s"
  unfolding tk_wai_flg_resume_def
proof (intro crit_call_ok assms, goal_cases)
  case (1 s0 Q)
  then have c: "current s0 = Some c" "winfo (tcbs s0 c) = WFlg a b g" using assms by auto
  have K: "kinv s0 Q" using 1 by (simp add: ginv_def)
  have "c < CFN_MAX_TSKID" using kinvD(3) [OF K] c by (simp add: cur_ok_def)
  then have "wupcnt (tcbs s0 c) \<le> TK_WAKEUP_MAXCNT" using kinvD(4) [OF K] by (simp add: task_ok_def)
  then show ?case using upd_plain_inv [OF 1(2,3)] c by (simp add: same_task_def same_wait_def)
qed

section \<open>Setting\<close>

definition flg_wake_tcb :: "UINT \<Rightarrow> TCB \<Rightarrow> TCB" where
  "flg_wake_tcb p t = wake_tcb E_OK (t\<lparr>winfo := WFlg (waiptn (winfo t)) (wfmode (winfo t)) p\<rparr>)"

definition flg_wakes :: "(nat \<times> UINT) list \<Rightarrow> kernel \<Rightarrow> kernel" where
  "flg_wakes = fold (\<lambda>(i, p). upd_tcb i (flg_wake_tcb p))"

definition set_flgptn :: "nat \<Rightarrow> UINT \<Rightarrow> kernel \<Rightarrow> kernel" where
  "set_flgptn j p = upd_flg j (\<lambda>cb. cb\<lparr>flgptn := p\<rparr>)"

definition flg_reqs :: "kernel \<Rightarrow> nat list \<Rightarrow> (nat \<times> UINT \<times> UINT) list" where
  "flg_reqs s is = map (\<lambda>i. (i, waiptn (winfo (tcbs s i)), wfmode (winfo (tcbs s i)))) is"

lemma flg_reqs_simps [simp]:
  "flg_reqs s [] = []"
  "flg_reqs s (i # is) = (i, waiptn (winfo (tcbs s i)), wfmode (winfo (tcbs s i))) # flg_reqs s is"
  "map fst (flg_reqs s is) = is" "fst ` set (flg_reqs s is) = set is"
  by (auto simp: flg_reqs_def comp_def image_image)

lemma flg_reqs_cong: "(\<And>i. i \<in> set is \<Longrightarrow> tcbs s' i = tcbs s i) \<Longrightarrow> flg_reqs s' is = flg_reqs s is"
  by (simp add: flg_reqs_def)

lemma flg_wakes_simps [simp]:
  "flg_wakes [] s = s" "flg_wakes ((i, p) # g) s = flg_wakes g (upd_tcb i (flg_wake_tcb p) s)"
  by (simp_all add: flg_wakes_def)

lemma set_flgptn_frame [simp]:
  "tcbs (set_flgptn j p s) = tcbs s" "links (set_flgptn j p s) = links s" "pris (set_flgptn j p s) = pris s"
  "semcbs (set_flgptn j p s) = semcbs s" "current (set_flgptn j p s) = current s" "msip (set_flgptn j p s) = msip s"
  "mstatus (set_flgptn j p s) = mstatus s" "set_flgptn j p (s\<lparr>links := h\<rparr>) = (set_flgptn j p s)\<lparr>links := h\<rparr>"
  "flgptn (flgcbs (set_flgptn j p s) k) = (if k = j then p else flgptn (flgcbs s k))"
  "set_flgptn j p (set_flgptn j p' s) = set_flgptn j p s"
  by (auto simp: set_flgptn_def upd_flg_def)

lemma set_flgptn_upd_tcb: "upd_tcb i f (set_flgptn j p s) = set_flgptn j p (upd_tcb i f s)"
  by (simp add: set_flgptn_def upd_flg_def upd_tcb_def)

lemma flg_wakes_set [simp]: "flg_wakes g (set_flgptn j p s) = set_flgptn j p (flg_wakes g s)"
  by (induction g arbitrary: s) (auto simp: set_flgptn_upd_tcb)

lemma flg_wakes_links [simp]: "flg_wakes g (s\<lparr>links := h\<rparr>) = (flg_wakes g s)\<lparr>links := h\<rparr>"
  by (induction g arbitrary: s) auto

lemma flg_wakes_frame [simp]:
  "semcbs (flg_wakes g s) = semcbs s \<and> flgcbs (flg_wakes g s) = flgcbs s \<and> current (flg_wakes g s) = current s \<and>
    msip (flg_wakes g s) = msip s \<and> mstatus (flg_wakes g s) = mstatus s"
proof (induction g arbitrary: s)
  case (Cons x g)
  then show ?case by (cases x) simp
qed simp

lemma flg_wakes_other: "k \<notin> fst ` set g \<Longrightarrow> tcbs (flg_wakes g s) k = tcbs s k"
proof (induction g arbitrary: s)
  case (Cons x g)
  then show ?case by (cases x) simp
qed simp

lemma pris_flg_wake [simp]: "pris (upd_tcb i (flg_wake_tcb p) s) = pris s"
  by (auto simp: flg_wake_tcb_def)

text \<open>Telling a waiter which pattern satisfied it does not touch the invariant.\<close>

lemma kinv_flg_got:
  assumes R: "rep h Q" and K: "kinv s Q" and w: "in_ring Q (FlgQ j) (TcbWait i)"
  shows "kinv (upd_tcb i (\<lambda>t. t\<lparr>winfo := WFlg a b p\<rparr>) s) Q"
proof -
  have i: "i < CFN_MAX_TSKID" "tskstat (tcbs s i) = TTS_WAI" "tskwait (tcbs s i) = TTW_FLG"
    using waiter_state(1,2) [OF R K w] flg_waiter [OF R K w] by simp_all
  have only: "v = FlgQ j" if "in_ring Q v (TcbWait i)" for v
    using that rep_in_ring_unique [OF R w] by auto
  have t: "task_ok ((tcbs s i)\<lparr>winfo := WFlg a b p\<rparr>) Q i"
    using kinvD(4) [OF K i(1)] i w by (auto simp: task_ok_def head_ok_def wait_ok_def)
  have pri: "pri_sorted (upd_tcb i (\<lambda>t. t\<lparr>winfo := WFlg a b p\<rparr>) s) ws = pri_sorted s ws" for ws
  proof (rule pri_sorted_cong)
    show "wait_pri (upd_tcb i (\<lambda>t. t\<lparr>winfo := WFlg a b p\<rparr>) s) n = wait_pri s n" for n
      by (cases n) simp_all
  qed
  have j: "j < CFN_MAX_FLGID" using typed_in_ring [OF kinvD(1) [OF K] w] by simp
  have "flg_queue_ok s j ws" if "Q (FlgQ j) = Some ws" for ws
  proof -
    have "exists_id (flgid (flgcbs s j))"
      using kinvD(6) [OF K j] that rep_member_not_owner [OF R, of FreeFlg "FlgQ j"]
      by (auto simp: flg_ok_def Let_def split: if_splits)
    then show ?thesis using flg_okD [OF K j] that by auto
  qed
  then have flg: "flg_queue_ok (upd_tcb i (\<lambda>t. t\<lparr>winfo := WFlg a b p\<rparr>) s) j ws" if "Q (FlgQ j) = Some ws" for ws
    using that by (simp add: flg_queue_ok_def pri)
  show ?thesis
  proof (rule kinv_moved [where i = i, OF K kinvD(1) [OF K] moved_refl])
    show "cur_ok (upd_tcb i (\<lambda>t. t\<lparr>winfo := WFlg a b p\<rparr>) s)"
      by (rule cur_ok_upd [OF kinvD(3) [OF K]]) (simp add: i)
  qed (use t only flg in auto)
qed

lemma set_step:
  fixes s :: kernel and p p' :: UINT and i j :: nat and Q :: rings
  defines "s1 \<equiv> upd_tcb i (flg_wake_tcb p) (set_flgptn j p' s)" and "Q1 \<equiv> wake_rings i (pris s i) Q"
  assumes R: "rep (links s) Q" and K: "kinv s Q" and q: "Q (FlgQ j) = Some (us @ map TcbWait (i # is))"
    and w: "winfo (tcbs s i) = WFlg a b g"
  shows "ok (tkmc_complete_wait i E_OK (set_flgptn j p' (upd_tcb i (\<lambda>t. t\<lparr>winfo := WFlg a b p\<rparr>) s)))
    (\<lambda>s'. \<exists>h. s' = s1\<lparr>links := h\<rparr> \<and> rep h Q1 \<and> kinv s1 Q1 \<and> Q1 (FlgQ j) = Some (us @ map TcbWait is))"
proof -
  let ?s0 = "upd_tcb i (\<lambda>t. t\<lparr>winfo := WFlg a b p\<rparr>) s"
  let ?s = "set_flgptn j p' ?s0"
  have m: "in_ring Q (FlgQ j) (TcbWait i)" using q by (auto simp: in_ring_def)
  note W = waiter_state(1,2) [OF R K m]
  have K': "kinv ?s Q"
    unfolding set_flgptn_def by (rule kinv_upd_flgptn [where f = "\<lambda>_. p'", OF kinv_flg_got [OF R K m]])
  have wai: "tskstat (tcbs ?s i) = TTS_WAI" using W by simp
  have eq: "upd_tcb i (wake_tcb E_OK) ?s = s1"
    using w by (simp add: s1_def set_flgptn_def upd_flg_def upd_tcb_def flg_wake_tcb_def)
  have p1: "pris ?s = pris s" by auto
  have pi: "itskpri (tcbs ?s i) = itskpri (tcbs s i)" by simp
  have K1: "kinv s1 Q1" using kinv_wake [OF K' W(1) wai, of E_OK] unfolding eq pi Q1_def .
  have q1: "Q1 (FlgQ j) = Some (us @ map TcbWait is)"
    unfolding Q1_def using q by (intro wake_rings_wait_queue [OF _ _ kinvD(1) [OF K] R]) auto
  have "\<not> hands_on ?s i E_OK" by (simp add: hands_on_def)
  from complete_wait_alone [OF _ K' W(1) wai this] R
  have "ok (tkmc_complete_wait i E_OK ?s) (\<lambda>s'. \<exists>h. rep h (wake_rings i (itskpri (tcbs ?s i)) Q) \<and>
      s' = (upd_tcb i (wake_tcb E_OK) ?s)\<lparr>links := h\<rparr>)" by simp
  then show ?thesis unfolding eq pi Q1_def [symmetric] by (rule ok_mono) (use K1 q1 in blast)
qed

lemma set_loop_ok:
  assumes "rep (links s) Q" and "kinv s Q" and "Q (FlgQ j) = Some (us @ map TcbWait is)"
    and "is \<noteq> [] \<longrightarrow> n = hd (map TcbWait (tl is) @ [FlgQ j])"
    and "flg_match (flgptn (flgcbs s j)) (flg_reqs s is) = (g, p')"
  shows "ok (set_loop j (hd (map TcbWait is @ [FlgQ j])) n s) (\<lambda>s'. \<exists>h.
    s' = (set_flgptn j p' (flg_wakes g s))\<lparr>links := h\<rparr> \<and> rep h (wake_qs (pris s) (map fst g) Q) \<and>
    kinv s' (wake_qs (pris s) (map fst g) Q))"
  using assms
proof (induction "is" arbitrary: s Q us n g)
  case Nil
  then have "g = []" "p' = flgptn (flgcbs s j)" by simp_all
  moreover from this have "set_flgptn j p' s = s" by (simp add: set_flgptn_def upd_flg_def)
  moreover have "s = s\<lparr>links := links s\<rparr>" by simp
  ultimately show ?case using Nil(1,2)
    by (subst set_loop.simps) (auto intro: exI [of _ "links s"])
next
  case (Cons i "is")
  note R = Cons.prems(1) and K = Cons.prems(2) and q = Cons.prems(3)
  have m: "in_ring Q (FlgQ j) (TcbWait i)" using q by (auto simp: in_ring_def)
  obtain a b g0 where w: "winfo (tcbs s i) = WFlg a b g0" using flg_waiter [OF R K m] by blast
  have n: "n = hd (map TcbWait is @ [FlgQ j])" using Cons.prems(4) by simp
  have ni: "i \<notin> set is" using repD(2) [OF R q] by auto
  show ?case
  proof (cases "check_ptn (flgptn (flgcbs s j)) a b")
    case False
    then have M: "flg_match (flgptn (flgcbs s j)) (flg_reqs s is) = (g, p')" using Cons.prems(5) w by simp
    have q': "Q (FlgQ j) = Some ((us @ [TcbWait i]) @ map TcbWait is)" using q by simp
    have "ok (get_next n (links s)) (\<lambda>n'. ok (set_loop j n n' s) (\<lambda>s'. \<exists>h.
      s' = (set_flgptn j p' (flg_wakes g s))\<lparr>links := h\<rparr> \<and> rep h (wake_qs (pris s) (map fst g) Q) \<and>
      kinv s' (wake_qs (pris s) (map fst g) Q)))"
      by (rule ok_mono [OF get_next_ahead [OF R q' n]]) (use Cons.IH [OF R K q' _ M] n in auto)
    then show ?thesis using False w by (subst set_loop.simps) simp
  next
    case True
    define p where "p = flgptn (flgcbs s j)"
    define s1 where "s1 = upd_tcb i (flg_wake_tcb p) (set_flgptn j (clear_ptn p a b) s)"
    define Q1 where "Q1 = wake_rings i (pris s i) Q"
    obtain g1 where g1: "flg_match (clear_ptn p a b) (flg_reqs s is) = (g1, p')" "g = (i, p) # g1"
      using Cons.prems(5) w True by (auto simp: p_def split: prod.splits)
    have pr: "pris s1 = pris s" by (simp add: s1_def del: upd_apply)
    have rq: "flg_reqs s1 is = flg_reqs s is" using ni by (intro flg_reqs_cong) (auto simp: s1_def)
    have fp: "flgptn (flgcbs s1 j) = clear_ptn p a b" by (simp add: s1_def)
    have res: "set_flgptn j p' (flg_wakes g1 s1) = set_flgptn j p' (flg_wakes g s)"
      by (simp add: s1_def g1(2) set_flgptn_upd_tcb)
    have turn: "ok (get_next n h) (\<lambda>n'. ok (set_loop j n n' (s1\<lparr>links := h\<rparr>)) (\<lambda>s'. \<exists>h.
      s' = (set_flgptn j p' (flg_wakes g s))\<lparr>links := h\<rparr> \<and> rep h (wake_qs (pris s) (map fst g) Q) \<and>
      kinv s' (wake_qs (pris s) (map fst g) Q)))"
      if h: "rep h Q1" "kinv s1 Q1" "Q1 (FlgQ j) = Some (us @ map TcbWait is)" for h
    proof (rule ok_mono [OF get_next_ahead [OF h(1,3) n]], goal_cases)
      case (1 n')
      have "flg_match (flgptn (flgcbs (s1\<lparr>links := h\<rparr>) j)) (flg_reqs (s1\<lparr>links := h\<rparr>) is) = (g1, p')"
        using g1(1) rq fp flg_reqs_cong [of "is" "s1\<lparr>links := h\<rparr>" s1] by simp
      from Cons.IH [of "s1\<lparr>links := h\<rparr>" Q1 us n' g1, OF _ _ h(3) 1 this] h(1,2)
      show ?case unfolding n by (simp add: res pr g1(2) Q1_def)
    qed
    have "ok (tkmc_complete_wait i E_OK (set_flgptn j (clear_ptn p a b) (upd_tcb i (\<lambda>t. t\<lparr>winfo := WFlg a b p\<rparr>) s)))
      (\<lambda>s2. ok (get_next n (links s2)) (\<lambda>n'. ok (set_loop j n n' s2) (\<lambda>s'. \<exists>h.
      s' = (set_flgptn j p' (flg_wakes g s))\<lparr>links := h\<rparr> \<and> rep h (wake_qs (pris s) (map fst g) Q) \<and>
      kinv s' (wake_qs (pris s) (map fst g) Q))))"
      by (rule ok_mono [OF set_step [OF R K q w]]) (use turn in \<open>auto simp: s1_def Q1_def\<close>)
    moreover have "upd_flg j (\<lambda>cb. cb\<lparr>flgptn := clear_ptn (flgptn cb) a b\<rparr>) (upd_tcb i (\<lambda>t. t\<lparr>winfo := WFlg a b p\<rparr>) s) =
      set_flgptn j (clear_ptn p a b) (upd_tcb i (\<lambda>t. t\<lparr>winfo := WFlg a b p\<rparr>) s)"
      by (simp add: set_flgptn_def upd_flg_def p_def)
    ultimately show ?thesis using True w by (subst set_loop.simps) (simp add: p_def)
  qed
qed


lemma flg_wakes_stat: "tskstat (tcbs s k) = TTS_RUN \<Longrightarrow> k \<notin> fst ` set g \<Longrightarrow> tskstat (tcbs (flg_wakes g s) k) = TTS_RUN"
  by (simp add: flg_wakes_other)

lemma set_flg_served:
  assumes R: "rep (links s) Q" and K: "kinv s Q" and q: "Q (FlgQ j) = Some (map TcbWait is)"
    and M: "flg_match (flgptn (flgcbs s j)) (flg_reqs s is) = (g, p')"
    and S: "sem_served s Q" and F: "\<And>k i. k \<noteq> j \<Longrightarrow> in_ring Q (FlgQ k) (TcbWait i) \<Longrightarrow>
      \<not> check_ptn (flgptn (flgcbs s k)) (waiptn (winfo (tcbs s i))) (wfmode (winfo (tcbs s i)))"
  defines "s' \<equiv> set_flgptn j p' (flg_wakes g s)" and "Q' \<equiv> wake_qs (pris s) (map fst g) Q"
  shows "sem_served s' Q'" and "flg_served s' Q'" and "\<And>k. k \<in> fst ` set g \<Longrightarrow> tskstat (tcbs s k) = TTS_WAI"
proof -
  have d: "distinct (map fst (flg_reqs s is))" using repD(2) [OF R q] by (simp add: distinct_map)
  note V = flg_match_served [OF M d]
  have in_j: "in_ring Q (FlgQ j) (TcbWait i)" if "i \<in> fst ` set g" for i
    using that V q by (auto simp: in_ring_def)
  show "tskstat (tcbs s k) = TTS_WAI" if "k \<in> fst ` set g" for k
    using waiter_state(2) [OF R K in_j [OF that]] .
  have apart: "i \<notin> fst ` set g" if "in_ring Q v (TcbWait i)" "v \<noteq> FlgQ j" for v i
    using that rep_in_ring_unique [OF R] in_j by blast
  have look: "in_ring Q' v (TcbWait i) \<longleftrightarrow> in_ring Q v (TcbWait i) \<and> i \<notin> fst ` set g" if "plain v" for v i
    unfolding Q'_def in_ring_def wake_qs_lookup [OF that] by (cases "Q v") (auto simp: keep_def)
  show "sem_served s' Q'"
    unfolding sem_served_def
  proof (intro allI impI)
    fix k vs assume v: "Q' (SemQ k) = Some vs"
    then obtain ws where ws: "Q (SemQ k) = Some ws"
      "vs = filter (\<lambda>n. \<forall>i \<in> set (map fst g). keep i n) ws"
      unfolding Q'_def wake_qs_lookup [OF plain_simps(2)] by blast
    obtain ks where ks: "ws = map TcbWait ks" using queue_tasks(1) [OF K ws(1)] by blast
    have out: "i \<notin> fst ` set g" if "i \<in> set ks" for i
      using apart [of "SemQ k" i] that ws(1) ks by (auto simp: in_ring_def)
    have "vs = ws" unfolding ws(2) by (rule filter_True) (use out ks in \<open>auto simp: keep_def\<close>)
    moreover have "map (wait_req s') ws = map (wait_req s) ws"
      unfolding ks by (simp add: s'_def flg_wakes_other out)
    ultimately show "held_back (takes_first s' k) (semcnt (semcbs s' k)) (map (wait_req s') vs)"
      using S ws(1) by (simp only: sem_served_def s'_def set_flgptn_frame flg_wakes_frame)
  qed
  show "flg_served s' Q'"
    unfolding flg_served_def
  proof (intro allI impI)
    fix k i assume "in_ring Q' (FlgQ k) (TcbWait i)"
    then have w: "in_ring Q (FlgQ k) (TcbWait i)" "i \<notin> fst ` set g" using look by simp_all
    show "\<not> check_ptn (flgptn (flgcbs s' k)) (waiptn (winfo (tcbs s' i))) (wfmode (winfo (tcbs s' i)))"
    proof (cases "k = j")
      case True
      then have "i \<in> set is" using w(1) q by (auto simp: in_ring_def)
      then have "(i, waiptn (winfo (tcbs s i)), wfmode (winfo (tcbs s i))) \<in> set (flg_reqs s is)"
        by (simp add: flg_reqs_def)
      then show ?thesis using V w(2) True by (simp add: s'_def flg_wakes_other)
    next
      case False
      then show ?thesis using F [OF False w(1)] w(2) by (simp add: s'_def flg_wakes_other)
    qed
  qed
qed

text \<open>
  Setting bits of a flag that exists: every waiter, in the order of the queue, gets the pattern as
  it is when its turn comes, and clears of it what its mode says, as \<^term>\<open>flg_match\<close> says.
\<close>

definition set_flg_done :: "nat \<Rightarrow> UINT \<Rightarrow> kernel \<Rightarrow> kernel \<Rightarrow> bool" where
  "set_flg_done j setptn s s' \<longleftrightarrow> (\<exists>is g p. list_of (FlgQ j) (links s) = Some (map TcbWait is) \<and>
     flg_match (flgptn (flgcbs s j) OR setptn) (flg_reqs s is) = (g, p) \<and>
     flgptn (flgcbs s' j) = p \<and> list_of (FlgQ j) (links s') = Some (map TcbWait (filter (\<lambda>i. i \<notin> fst ` set g) is)) \<and>
     (\<forall>i. tcbs s' i = (case map_of g i of Some q \<Rightarrow> flg_wake_tcb q (tcbs s i) | None \<Rightarrow> tcbs s i)))"

definition set_flg_result :: "ID \<Rightarrow> UINT \<Rightarrow> kernel \<Rightarrow> ER outcome \<Rightarrow> kernel \<Rightarrow> bool" where
  "set_flg_result objid setptn s r s' \<longleftrightarrow>
     (if \<not> tkmc_id_in_range objid (int CFN_MAX_FLGID) then r = Return E_ID \<and> s' = s
      else if \<not> exists_id (flgid (flgcbs s (nat (objid - 1)))) then r = Return E_NOEXS \<and> s' = s
      else r = Return E_OK \<and> set_flg_done (nat (objid - 1)) setptn s s')"

lemma flg_wakes_tcb:
  "distinct (map fst g) \<Longrightarrow>
    tcbs (flg_wakes g s) i = (case map_of g i of Some q \<Rightarrow> flg_wake_tcb q (tcbs s i) | None \<Rightarrow> tcbs s i)"
proof (induction g arbitrary: s)
  case (Cons a g)
  obtain k p where a: "a = (k, p)" by (cases a)
  have "map_of g k = None" using Cons.prems a by (simp add: map_of_eq_None_iff)
  then show ?case using Cons a by (simp split: option.splits)
qed simp

lemma set_flg_doneI:
  assumes R: "rep (links s) Q" and q: "Q (FlgQ j) = Some (map TcbWait is)"
    and M: "flg_match (flgptn (flgcbs s j) OR setptn) (flg_reqs s is) = (g, p)"
    and h: "rep (links s') (wake_qs f (map fst g) Q)"
    and s': "tcbs s' = tcbs (flg_wakes g s)" "flgptn (flgcbs s' j) = p"
  shows "set_flg_done j setptn s s'"
proof -
  have "distinct is" using repD(2) [OF R q] by (simp add: distinct_map)
  then have "distinct (map fst g)" using flg_match_served [OF M] by simp
  moreover have "filter (\<lambda>n. \<forall>i \<in> set (map fst g). keep i n) (map TcbWait is) = map TcbWait (filter (\<lambda>i. i \<notin> fst ` set g) is)"
    by (induction "is") auto
  then have "wake_qs f (map fst g) Q (FlgQ j) = Some (map TcbWait (filter (\<lambda>i. i \<notin> fst ` set g) is))"
    using q by (simp only: wake_qs_lookup [OF plain_simps(3)] option.map)
  ultimately show ?thesis
    unfolding set_flg_done_def
    unfolding s' using M list_of_rep [OF R q] list_of_rep [OF h]
    by (intro exI [of _ "is"] exI [of _ g] exI [of _ p]) (simp add: flg_wakes_tcb)
qed

lemma set_flg_done_unmask [simp]:
  "set_flg_done j setptn (s\<lparr>mstatus := m\<rparr>) s' = set_flg_done j setptn s s'"
  "set_flg_done j setptn s (s'\<lparr>mstatus := m\<rparr>) = set_flg_done j setptn s s'"
  unfolding set_flg_done_def flg_reqs_def by (simp_all cong: option.case_cong)

lemma set_flg_result_unmask:
  "set_flg_result objid setptn (s\<lparr>mstatus := m\<rparr>) r s' \<Longrightarrow>
    set_flg_result objid setptn s r (s'\<lparr>mstatus := mstatus s\<rparr>)"
  by (simp add: set_flg_result_def split: if_split_asm)

lemma flg_wakes_tcbs_cong: "tcbs s = tcbs s' \<Longrightarrow> tcbs (flg_wakes g s) = tcbs (flg_wakes g s')"
proof (induction g arbitrary: s s')
  case (Cons x g)
  then show ?case by (cases x) (simp add: upd_tcb_def)
qed simp

lemma set_flg_finish:
  fixes s0 :: kernel and j :: nat and setptn :: UINT
  defines "s1 \<equiv> upd_flg j (\<lambda>cb. cb\<lparr>flgptn := flgptn cb OR setptn\<rparr>) s0"
  assumes R: "rep (links s0) Q" and G: "ginv s0 Q" and q: "Q (FlgQ j) = Some (map TcbWait ks)"
    and M: "flg_match (flgptn (flgcbs s1 j)) (flg_reqs s1 ks) = (g, p')"
    and s': "s' = (set_flgptn j p' (flg_wakes g s1))\<lparr>links := h\<rparr>" and h: "rep h (wake_qs (pris s1) (map fst g) Q)"
    and K2: "kinv s' (wake_qs (pris s1) (map fst g) Q)"
  shows "ok (reschedule s') (\<lambda>s'. mstatus s' = mstatus s0 \<and> sys_inv s' \<and> set_flg_done j setptn s0 s')"
proof -
  have S: "sem_served s0 Q" "flg_served s0 Q" "sched_ok s0 Q" and K1: "kinv s1 Q"
    using G kinv_upd_flgptn unfolding s1_def by (auto simp: ginv_def)
  have R1: "rep (links s1) Q" using R by (simp add: s1_def)
  have M0: "flg_match (flgptn (flgcbs s0 j) OR setptn) (flg_reqs s0 ks) = (g, p')" using M by (simp add: flg_reqs_def s1_def)
  note V = set_flg_served [OF R1 K1 q M]
  let ?Q = "wake_qs (pris s1) (map fst g) Q"
  have F: "sem_served s' ?Q" "flg_served s' ?Q" and w: "c \<in> fst ` set g \<Longrightarrow> tskstat (tcbs s0 c) = TTS_WAI" for c
    using V(1-3) S by (simp_all add: s' s1_def flg_served_def)
  have run: "tskstat (tcbs s' c) = TTS_RUN" if "current s' = Some c" "\<not> msip s'" for c
  proof -
    have c: "tskstat (tcbs s0 c) = TTS_RUN" using S(3) that by (simp add: s' s1_def sched_ok_def)
    then have "c \<notin> fst ` set g" using w [of c] by auto
    then show ?thesis using c by (simp add: s' s1_def flg_wakes_other)
  qed
  have h': "rep (links s') ?Q" and p: "flgptn (flgcbs s' j) = p'" and t: "tcbs s' = tcbs (flg_wakes g s0)"
    using h flg_wakes_tcbs_cong [of s1 s0 g] by (simp_all add: s' s1_def)
  show ?thesis
  proof (rule ok_mono [OF reschedule_ok [OF h' K2 run]], goal_cases)
    case (3 s2)
    then have "ginv s2 ?Q" using F K2 by (auto simp: ginv_def)
    moreover have "set_flg_done j setptn s0 s2"
      using 3 h' p t by (intro set_flg_doneI [OF R q M0]) simp_all
    ultimately show ?case using 3 h' s' by (auto simp: s1_def intro!: sys_invI)
  qed auto
qed

lemma tk_set_flg_ok:
  assumes I: "sys_inv s"
  shows "ok (tk_set_flg objid setptn s) (\<lambda>(r, s'). sys_inv s' \<and> mstatus s' = mstatus s \<and> set_flg_result objid setptn s r s')"
  unfolding tk_set_flg_def Let_def
proof (intro ok_ifI, goal_cases)
  case ids: 2
  define j where "j = nat (objid - 1)"
  have j: "j < CFN_MAX_FLGID" using id_in_range_index [of objid CFN_MAX_FLGID] ids by (auto simp: j_def)
  show ?case
    unfolding j_def [symmetric]
  proof (rule crit_result [where P = "set_flg_result objid setptn", OF I _ set_flg_result_unmask], goal_cases)
    case (1 s0 Q)
    note R = 1(2) and G = 1(3)
    have K: "kinv s0 Q" and S: "sem_served s0 Q" "flg_served s0 Q" "sched_ok s0 Q" using G by (simp_all add: ginv_def)
    have res: "set_flg_result objid setptn s0 (Return E_OK) s' \<longleftrightarrow> set_flg_done j setptn s0 s'"
      if "exists_id (flgid (flgcbs s0 j))" for s'
      using ids that by (simp add: set_flg_result_def j_def)
    show ?case
    proof (cases "exists_id (flgid (flgcbs s0 j))")
      case False
      then show ?thesis using sys_invI [OF R G] ids by (simp add: j_def exists_id_def set_flg_result_def)
    next
      case e: True
      let ?s = "upd_flg j (\<lambda>cb. cb\<lparr>flgptn := flgptn cb OR setptn\<rparr>) s0"
      obtain ks where q: "Q (FlgQ j) = Some (map TcbWait ks)" using flg_okD [OF K j e] queue_tasks(2) [OF K] by blast
      have K1: "kinv ?s Q" by (rule kinv_upd_flgptn [OF K])
      have R1: "rep (links ?s) Q" using R by simp
      obtain g p' where M: "flg_match (flgptn (flgcbs ?s j)) (flg_reqs ?s ks) = (g, p')" by fastforce
      show ?thesis
      proof (cases "ks = []")
        case True
        have "flg_served ?s Q" using S(2) q True by (auto simp: flg_served_def in_ring_def)
        then have "ginv ?s Q" using K1 S by (simp add: ginv_def)
        moreover have "set_flg_done j setptn s0 ?s"
          unfolding set_flg_done_def using list_of_rep [OF R q] True by (intro exI [of _ "[]"]) auto
        ultimately show ?thesis
          using e sys_invI [OF R1] tkmc_list_empty_owner [OF R1 q] True by (simp add: exists_id_def res)
      next
        case False
        have nx: "get_next (hd (map TcbWait ks @ [FlgQ j])) (links s0) = Some (hd (map TcbWait (tl ks) @ [FlgQ j]))"
          using get_next_member [OF R, of "FlgQ j" "[]" "TcbWait (hd ks)" "map TcbWait (tl ks)"] q False by (cases ks) simp_all
        have "ok (set_loop j (hd (map TcbWait ks @ [FlgQ j])) (hd (map TcbWait (tl ks) @ [FlgQ j])) ?s)
            (\<lambda>s1. ok (reschedule s1) (\<lambda>s'. mstatus s' = mstatus s0 \<and> sys_inv s' \<and> set_flg_done j setptn s0 s'))"
          by (rule ok_mono [OF set_loop_ok [OF R1 K1 _ _ M, of "[]"]]) (use q set_flg_finish [OF R G q M] in auto)
        then show ?thesis
          using e tkmc_list_empty_owner [OF R q] get_next_head [OF R q] nx False
          by (simp add: exists_id_def res)
      qed
    qed
  qed
qed (use I in \<open>simp add: set_flg_result_def\<close>)

lemma tk_set_flg_call_ok:
  assumes "sys_inv s"
  shows "call_ok (tk_set_flg objid setptn s) s"
  by (rule result_call_ok [OF tk_set_flg_ok [OF assms]])

end
