(* ===== verification/TK_Mailbox.thy ===== *)
theory TK_Mailbox
  imports TK_EventFlag
begin

text \<open>
  The mailboxes of \<^verbatim>\<open>kernel/mailbox.c\<close>. A message is known by its address; its
  link is the node \<open>MsgLink\<close> and its priority field is \<open>msgpri\<close> of the state. The message that
  \<^verbatim>\<open>tk_rcv_mbx\<close> stores through its second argument is the second component of the
  result.
\<close>

section \<open>The queues of a mailbox\<close>

definition insert_msg_fifo :: "nat \<Rightarrow> addr \<Rightarrow> kernel \<Rightarrow> kernel option" where
  "insert_msg_fifo j m = on_links (tkmc_list_add_tail (MsgLink m) (MbxMsgQ j))"

partial_function (option) msg_scan :: "addr \<Rightarrow> nat \<Rightarrow> node \<Rightarrow> kernel \<Rightarrow> (bool \<times> kernel) option" where
  "msg_scan m j pos s =
     (if pos = MbxMsgQ j then Some (False, s)
      else do {
        queued \<leftarrow> msg_from_link pos;
        if msgpri s m < msgpri s queued then do {
          p \<leftarrow> get_prev pos (links s);
          s \<leftarrow> on_links (tkmc_list_add (MsgLink m) p) s;
          Some (True, s) }
        else do { n \<leftarrow> get_next pos (links s); msg_scan m j n s } })"

definition insert_msg_pri :: "nat \<Rightarrow> addr \<Rightarrow> kernel \<Rightarrow> kernel option" where
  "insert_msg_pri j m s = do {
     pos \<leftarrow> get_next (MbxMsgQ j) (links s);
     e \<leftarrow> tkmc_list_empty (MbxMsgQ j) (links s);
     at_tail \<leftarrow> (if \<not> e then do {
         l \<leftarrow> get_prev (MbxMsgQ j) (links s);
         last_msg \<leftarrow> msg_from_link l;
         Some (msgpri s m \<ge> msgpri s last_msg) }
       else Some False);
     if at_tail then on_links (tkmc_list_add_tail (MsgLink m) (MbxMsgQ j)) s
     else do {
       (inserted, s) \<leftarrow> msg_scan m j pos s;
       if inserted then Some s else on_links (tkmc_list_add_tail (MsgLink m) (MbxMsgQ j)) s } }"

partial_function (option) mbx_scan :: "nat \<Rightarrow> nat \<Rightarrow> node \<Rightarrow> kernel \<Rightarrow> (bool \<times> kernel) option" where
  "mbx_scan c j pos s =
     (if pos = MbxWaitQ j then Some (False, s)
      else do {
        i \<leftarrow> tcb_of_wait pos;
        if itskpri (tcbs s c) < itskpri (tcbs s i) then do {
          p \<leftarrow> get_prev pos (links s);
          s \<leftarrow> on_links (tkmc_list_add (TcbWait c) p) s;
          Some (True, s) }
        else do { n \<leftarrow> get_next pos (links s); mbx_scan c j n s } })"

definition insert_waiter :: "nat \<Rightarrow> nat \<Rightarrow> kernel \<Rightarrow> kernel option" where
  "insert_waiter j c s = do {
     (inserted, s) \<leftarrow> (if mbxatr (mbxcbs s j) AND TA_TPRI \<noteq> 0 then do {
         pos \<leftarrow> get_next (MbxWaitQ j) (links s);
         mbx_scan c j pos s }
       else Some (False, s));
     if inserted then Some s else on_links (tkmc_list_add_tail (TcbWait c) (MbxWaitQ j)) s }"

partial_function (option) pop_waiting_receiver :: "nat \<Rightarrow> kernel \<Rightarrow> (nat option \<times> kernel) option" where
  "pop_waiting_receiver j s = do {
     e \<leftarrow> tkmc_list_empty (MbxWaitQ j) (links s);
     if \<not> e then do {
       n \<leftarrow> get_next (MbxWaitQ j) (links s);
       i \<leftarrow> tcb_of_wait n;
       s \<leftarrow> on_links (tkmc_list_del (TcbWait i)) s;
       s \<leftarrow> on_links (tkmc_init_list_head (TcbWait i)) s;
       if tskstat (tcbs s i) = TTS_WAI \<and> tskwait (tcbs s i) = TTW_MBX then Some (Some i, s)
       else pop_waiting_receiver j s }
     else Some (None, s) }"

definition make_waiter_ready :: "nat \<Rightarrow> ER \<Rightarrow> addr \<Rightarrow> kernel \<Rightarrow> kernel option" where
  "make_waiter_ready i cause msg s =
     tkmc_complete_wait i cause (upd_tcb i (\<lambda>t. t\<lparr>winfo := WMbx msg\<rparr>) s)"

definition dispatch_if_needed :: "kernel \<Rightarrow> kernel option" where
  "dispatch_if_needed s = (if current s = None then Some s else reschedule s)"

section \<open>The calls\<close>

definition free_mbxcb :: "nat \<Rightarrow> MBXCB" where
  "free_mbxcb i = \<lparr>mbxid = of_nat (i + 1) OR NOEXS_MASK, mbx_exinf = NULL, mbxatr = 0\<rparr>"

fun init_mbxcbs :: "nat \<Rightarrow> nat \<Rightarrow> kernel \<Rightarrow> kernel option" where
  "init_mbxcbs i 0 s = Some s"
| "init_mbxcbs i (Suc k) s = do {
     let s = upd_mbx i (\<lambda>_. free_mbxcb i) s;
     s \<leftarrow> on_links (tkmc_init_list_head (MbxWaitQ i)) s;
     s \<leftarrow> on_links (tkmc_init_list_head (MbxMsgQ i)) s;
     s \<leftarrow> on_links (tkmc_list_add_tail (MbxWaitQ i) FreeMbx) s;
     init_mbxcbs (Suc i) k s }"

definition tkmc_init_mbxcb :: "kernel \<Rightarrow> kernel option" where
  "tkmc_init_mbxcb s = do {
     s \<leftarrow> on_links (tkmc_init_list_head FreeMbx) s;
     init_mbxcbs 0 CFN_MAX_MBXID s }"

record T_CMBX =
  cm_exinf :: addr
  cm_mbxatr :: ATR

definition VALID_MBXATR :: ATR where
  "VALID_MBXATR = TA_TFIFO OR TA_TPRI OR TA_MFIFO OR TA_MPRI"

definition tk_cre_mbx :: "T_CMBX option \<Rightarrow> kernel \<Rightarrow> (ID outcome \<times> kernel) option" where
  "tk_cre_mbx pk_cmbx s = (case pk_cmbx of None \<Rightarrow> Some (Return E_PAR, s)
   | Some pk \<Rightarrow>
     if cm_mbxatr pk AND NOT VALID_MBXATR \<noteq> 0 then Some (Return E_RSATR, s)
     else crit (\<lambda>_ s. do {
       e \<leftarrow> tkmc_list_empty FreeMbx (links s);
       if \<not> e then do {
         n \<leftarrow> get_next FreeMbx (links s);
         j \<leftarrow> mbxcb_of_link n;
         s \<leftarrow> on_links (tkmc_list_del (MbxWaitQ j)) s;
         s \<leftarrow> on_links (tkmc_init_list_head (MbxWaitQ j)) s;
         s \<leftarrow> on_links (tkmc_init_list_head (MbxMsgQ j)) s;
         let new_mbxid = mbxid (mbxcbs s j) AND NOT NOEXS_MASK;
         let s = upd_mbx j (\<lambda>c. c\<lparr>mbxid := new_mbxid, mbx_exinf := cm_exinf pk,
           mbxatr := cm_mbxatr pk\<rparr>) s;
         Some (Return (sint new_mbxid), s) }
       else Some (Return E_LIMIT, s) }) s)"

partial_function (option) release_receivers :: "nat \<Rightarrow> kernel \<Rightarrow> kernel option" where
  "release_receivers j s = do {
     (r, s) \<leftarrow> pop_waiting_receiver j s;
     (case r of Some i \<Rightarrow> do {
         s \<leftarrow> make_waiter_ready i E_DLT NULL s;
         release_receivers j s }
      | None \<Rightarrow> Some s) }"

definition tk_del_mbx :: "ID \<Rightarrow> kernel \<Rightarrow> (ER outcome \<times> kernel) option" where
  "tk_del_mbx objid s =
     (if \<not> tkmc_id_in_range objid (int CFN_MAX_MBXID) then Some (Return E_ID, s)
      else let j = nat (objid - 1) in
        crit (\<lambda>_ s.
          if mbxid (mbxcbs s j) AND NOEXS_MASK \<noteq> 0 then Some (Return E_NOEXS, s)
          else do {
            s \<leftarrow> release_receivers j s;
            let s = upd_mbx j (\<lambda>c. c\<lparr>mbxid := word_of_int objid OR NOEXS_MASK, mbx_exinf := NULL, mbxatr := 0\<rparr>) s;
            s \<leftarrow> on_links (tkmc_init_list_head (MbxWaitQ j)) s;
            s \<leftarrow> on_links (tkmc_init_list_head (MbxMsgQ j)) s;
            s \<leftarrow> on_links (tkmc_list_add_tail (MbxWaitQ j) FreeMbx) s;
            s \<leftarrow> dispatch_if_needed s;
            Some (Return E_OK, s) }) s)"

definition tk_snd_mbx :: "ID \<Rightarrow> addr \<Rightarrow> kernel \<Rightarrow> (ER outcome \<times> kernel) option" where
  "tk_snd_mbx objid pk_msg s =
     (if \<not> tkmc_id_in_range objid (int CFN_MAX_MBXID) then Some (Return E_ID, s)
      else if pk_msg = NULL then Some (Return E_PAR, s)
      else let j = nat (objid - 1) in
        crit (\<lambda>_ s.
          if mbxid (mbxcbs s j) AND NOEXS_MASK \<noteq> 0 then Some (Return E_NOEXS, s)
          else if mbxatr (mbxcbs s j) AND TA_MPRI \<noteq> 0 \<and> msgpri s pk_msg \<le> 0 then Some (Return E_PAR, s)
          else do {
            (r, s) \<leftarrow> pop_waiting_receiver j s;
            s \<leftarrow> (case r of
                Some i \<Rightarrow> do {
                  s \<leftarrow> make_waiter_ready i E_OK pk_msg s;
                  dispatch_if_needed s }
              | None \<Rightarrow>
                  if mbxatr (mbxcbs s j) AND TA_MPRI \<noteq> 0 then insert_msg_pri j pk_msg s
                  else insert_msg_fifo j pk_msg s);
            Some (Return E_OK, s) }) s)"

definition tk_rcv_mbx :: "ID \<Rightarrow> addr \<Rightarrow> TMO \<Rightarrow> kernel \<Rightarrow> ((ER \<times> addr option) outcome \<times> kernel) option" where
  "tk_rcv_mbx objid ppk_msg tmout s =
     (if \<not> tkmc_id_in_range objid (int CFN_MAX_MBXID) then Some (Return (E_ID, None), s)
      else if ppk_msg = NULL \<or> tmout < TMO_FEVR then Some (Return (E_PAR, None), s)
      else let j = nat (objid - 1) in
        crit (\<lambda>intsts s.
          if \<not> tkmc_can_block intsts s then Some (Return (E_CTX, None), s)
          else if mbxid (mbxcbs s j) AND NOEXS_MASK \<noteq> 0 then Some (Return (E_NOEXS, None), s)
          else do {
            e \<leftarrow> tkmc_list_empty (MbxMsgQ j) (links s);
            if \<not> e then do {
              l \<leftarrow> get_next (MbxMsgQ j) (links s);
              m \<leftarrow> msg_from_link l;
              s \<leftarrow> on_links (tkmc_list_del l) s;
              s \<leftarrow> on_links (tkmc_init_list_head l) s;
              Some (Return (E_OK, Some m), s) }
            else if tmout = TMO_POL then Some (Return (E_TMOUT, None), s)
            else do {
              c \<leftarrow> current s;
              let s = upd_tcb c (\<lambda>t. t\<lparr>winfo := WMbx NULL\<rparr>) s;
              s \<leftarrow> on_links (tkmc_init_list_head (TcbWait c)) s;
              s \<leftarrow> insert_waiter j c s;
              s \<leftarrow> start_wait c TTW_MBX tmout s;
              Some (Block, s) } }) s)"

text \<open>The rest of the call, once the task runs again.\<close>

definition tk_rcv_mbx_resume :: "kernel \<Rightarrow> ((ER \<times> addr option) outcome \<times> kernel) option" where
  "tk_rcv_mbx_resume = crit (\<lambda>_ s. do {
     c \<leftarrow> current s;
     let ercd = wupcause (tcbs s c);
     e \<leftarrow> tkmc_list_empty (TcbWait c) (links s);
     s \<leftarrow> (if \<not> e then do {
             s \<leftarrow> on_links (tkmc_list_del (TcbWait c)) s;
             on_links (tkmc_init_list_head (TcbWait c)) s }
           else Some s);
     got \<leftarrow> (if ercd = E_OK then
         (case winfo (tcbs s c) of WMbx m \<Rightarrow> Some (Some m) | _ \<Rightarrow> None)
       else Some None);
     Some (Return (ercd, got), upd_tcb c (\<lambda>t. t\<lparr>winfo := WMbx NULL, wupcause := E_OK,
       delay_ticks := 0, tskwait := TTW_NONE\<rparr>) s) })"

section \<open>Messages\<close>

interpretation msg_ins: insertion_scan "MbxMsgQ j" "MsgLink m"
  "\<lambda>s x. msgpri s m < msg_pri (msgpri s) x" "msg_scan m j" for m j
proof
  show "msg_scan m j (MbxMsgQ j) s = Some (False, s)" for s
    by (subst msg_scan.simps) simp
next
  fix x s assume "fits (MbxMsgQ j) x"
  then obtain i where x: "x = MsgLink i" by (auto split: node.splits)
  show "msg_scan m j x s = do { p \<leftarrow> get_prev x (links s); s \<leftarrow> on_links (tkmc_list_add (MsgLink m) p) s;
      Some (True, s) }" if "msgpri s m < msg_pri (msgpri s) x"
    using that by (subst msg_scan.simps) (simp add: x)
  show "msg_scan m j x s = do { n \<leftarrow> get_next x (links s); msg_scan m j n s }"
    if "\<not> msgpri s m < msg_pri (msgpri s) x"
    using that by (subst msg_scan.simps) (simp add: x)
qed

text \<open>
  On a queue in order the shortcut through the last message and the scan build the same list: the
  message goes behind every message of the same or a better priority.
\<close>

lemma insert_msg_pri_ok:
  assumes R: "rep (links s) Q" and T: "typed Q" and q: "Q (MbxMsgQ j) = Some ms"
    and n: "idle_node (MsgLink m) Q" and srt: "msgs_sorted (msgpri s) ms"
  shows "ok (insert_msg_pri j m s) (\<lambda>s'. \<exists>h. s' = s\<lparr>links := h\<rparr> \<and>
    rep h (enlist (\<lambda>x. msgpri s m < msg_pri (msgpri s) x) (MsgLink m) (MbxMsgQ j) Q))"
proof -
  let ?P = "\<lambda>x. msgpri s m < msg_pri (msgpri s) x"
  have f: "\<forall>x \<in> set ms. fits (MbxMsgQ j) x" using q typed_in_ring [OF T, of "MbxMsgQ j"] by (auto simp: in_ring_def)
  have n': "idle_node (MsgLink m) Q" "mapped (MsgLink m)" "MsgLink m \<noteq> MbxMsgQ j"
    using n by (simp_all add: mapped_def)
  have scan: "ok (msg_scan m j (hd (ms @ [MbxMsgQ j])) s) (\<lambda>(b, s'). ok (if b then Some s'
        else on_links (tkmc_list_add_tail (MsgLink m) (MbxMsgQ j)) s')
      (\<lambda>s'. \<exists>h. s' = s\<lparr>links := h\<rparr> \<and> rep h (enlist ?P (MsgLink m) (MbxMsgQ j) Q)))"
    using msg_ins.insert_ok [OF R q f n'] by simp
  show ?thesis
  proof (cases "ms = []")
    case True
    then show ?thesis using scan tkmc_list_empty_owner [OF R q] get_next_head [OF R q]
      by (simp add: insert_msg_pri_def split_def)
  next
    case False
    then obtain us l where ms: "ms = us @ [MsgLink l]"
      using f by (cases ms rule: rev_cases) (auto split: node.splits)
    have lst: "get_prev (MbxMsgQ j) (links s) = Some (MsgLink l)" using get_prev_head [OF R q] ms by simp
    have tail: "ok (on_links (tkmc_list_add_tail (MsgLink m) (MbxMsgQ j)) s)
        (\<lambda>s'. \<exists>h. s' = s\<lparr>links := h\<rparr> \<and> rep h (enlist ?P (MsgLink m) (MbxMsgQ j) Q))" if "msgpri s l \<le> msgpri s m"
    proof (rule ok_add_tail [OF R _ n'])
      have "\<forall>x \<in> set ms. \<not> ?P x"
        using srt that unfolding ms msgs_sorted_def by (auto simp: sorted_wrt_append not_less)
      then have "push (MsgLink m) (MbxMsgQ j) Q = enlist ?P (MsgLink m) (MbxMsgQ j) Q"
        using q by (simp add: push_def enlist_def insert_before_tail)
      then show "rep h (push (MsgLink m) (MbxMsgQ j) Q) \<Longrightarrow> \<exists>h'. s\<lparr>links := h\<rparr> = s\<lparr>links := h'\<rparr> \<and>
        rep h' (enlist ?P (MsgLink m) (MbxMsgQ j) Q)" for h by auto
    qed (use q in simp)
    show ?thesis
      using False scan tail tkmc_list_empty_owner [OF R q] get_next_head [OF R q]
      by (simp add: insert_msg_pri_def lst split_def)
  qed
qed

lemma insert_msg_fifo_ok:
  assumes R: "rep (links s) Q" and q: "Q (MbxMsgQ j) = Some ms" and n: "idle_node (MsgLink m) Q"
  shows "ok (insert_msg_fifo j m s) (\<lambda>s'. \<exists>h. s' = s\<lparr>links := h\<rparr> \<and> rep h (push (MsgLink m) (MbxMsgQ j) Q))"
  unfolding insert_msg_fifo_def
  by (rule ok_add_tail [OF R]) (use q n in \<open>auto simp: mapped_def\<close>)

lemma mbx_okD:
  assumes K: "kinv s Q" and j: "j < CFN_MAX_MBXID" and e: "exists_id (mbxid (mbxcbs s j))"
  shows "\<exists>ws. Q (MbxWaitQ j) = Some ws \<and> mbx_queue_ok s Q j ws"
  using kinvD(7) [OF K j] e by (simp add: mbx_ok_def Let_def)

section \<open>Changes of a message queue\<close>

definition msg_move :: "nat \<Rightarrow> rings \<Rightarrow> rings \<Rightarrow> bool" where
  "msg_move j Q Q' \<longleftrightarrow> (\<forall>n. n \<noteq> MbxMsgQ j \<longrightarrow> (\<forall>m. n \<noteq> MsgLink m) \<longrightarrow> Q' n = Q n) \<and> Q' (MbxMsgQ j) \<noteq> None"

lemma msg_move_in_ring:
  assumes M: "msg_move j Q Q'" and T: "typed Q" "typed Q'" and n: "\<And>m. n \<noteq> MsgLink m"
  shows "in_ring Q' v n = in_ring Q v n"
proof (cases "v = MbxMsgQ j \<or> (\<exists>m. v = MsgLink m)")
  case True
  then have "\<not> fits v n" using n by (cases n) auto
  then show ?thesis using T typed_in_ring by blast
next
  case False
  then have "Q' v = Q v" using M by (simp add: msg_move_def)
  then show ?thesis by (simp add: in_ring_def)
qed

lemma kinv_msg_move:
  assumes K: "kinv s Q" and M: "msg_move j Q Q'" and T: "typed Q'"
    and j: "if exists_id (mbxid (mbxcbs s j)) then \<exists>ws. Q (MbxWaitQ j) = Some ws \<and> mbx_queue_ok s Q' j ws
      else Q' (MbxMsgQ j) = Some []"
  shows "kinv s Q'"
proof -
  note I = msg_move_in_ring [OF M kinvD(1) [OF K] T]
  have eq: "Q' n = Q n" if "n \<noteq> MbxMsgQ j" "\<And>m. n \<noteq> MsgLink m" for n using M that by (simp add: msg_move_def)
  have "Q' (MbxMsgQ k) \<noteq> None" if "k < CFN_MAX_MBXID" for k
    using that kinvD(2) [OF K] M by (cases "k = j") (simp_all add: static_def msg_move_def)
  then have "static Q'" using kinvD(2) [OF K] by (simp add: static_def eq)
  moreover have "task_ok (tcbs s i) Q' i" if "i < CFN_MAX_TSKID" for i
  proof -
    have "task_ok (tcbs s i) Q' i = task_ok (tcbs s i) Q i" by (rule task_ok_rings) (simp_all add: I eq)
    then show ?thesis using kinvD(4) [OF K that] by simp
  qed
  moreover have "sem_ok s Q' k" if "k < CFN_MAX_SEMID" for k
    using kinvD(5) [OF K that] by (simp add: sem_ok_def Let_def I eq)
  moreover have "flg_ok s Q' k" if "k < CFN_MAX_FLGID" for k
    using kinvD(6) [OF K that] by (simp add: flg_ok_def Let_def I eq)
  moreover have "mbx_ok s Q' k" if "k < CFN_MAX_MBXID" for k
    using kinvD(7) [OF K that] j by (cases "k = j") (auto simp: mbx_ok_def I eq mbx_queue_ok_def Let_def split: if_splits)
  ultimately show ?thesis using T kinvD(3) [OF K] by (simp add: kinv_def)
qed

lemma served_msg_move:
  assumes M: "msg_move j Q Q'"
  shows "sem_served s Q' = sem_served s Q" and "flg_served s Q' = flg_served s Q" and "sched_ok s Q' = sched_ok s Q"
proof -
  have eq: "Q' n = Q n" if "n \<noteq> MbxMsgQ j" "\<And>m. n \<noteq> MsgLink m" for n using M that by (simp add: msg_move_def)
  have "top_ready Q' = top_ready Q" by (rule top_ready_cong) (simp add: eq)
  then show "sem_served s Q' = sem_served s Q" "flg_served s Q' = flg_served s Q" "sched_ok s Q' = sched_ok s Q"
    by (simp_all add: sem_served_def flg_served_def sched_ok_def in_ring_def eq)
qed

lemma ginv_msg_move:
  "ginv s Q \<Longrightarrow> msg_move j Q Q' \<Longrightarrow> kinv s Q' \<Longrightarrow> ginv s Q'"
  by (simp add: ginv_def served_msg_move)

text \<open>A message joins the queue of a mailbox nobody waits on.\<close>

lemma msg_join_inv:
  assumes R: "rep h (enlist P (MsgLink m) (MbxMsgQ j) Q)" and G: "ginv s Q" and j: "j < CFN_MAX_MBXID"
    and e: "exists_id (mbxid (mbxcbs s j))" and q: "Q (MbxWaitQ j) = Some []" "Q (MbxMsgQ j) = Some ms"
    and m: "m \<noteq> NULL" and srt: "mbxatr (mbxcbs s j) AND TA_MPRI \<noteq> 0 \<Longrightarrow> msgs_sorted (msgpri s) (insert_before P (MsgLink m) ms)"
  shows "sys_inv (s\<lparr>links := h\<rparr>)"
proof -
  have K: "kinv s Q" using G by (simp add: ginv_def)
  let ?Q = "enlist P (MsgLink m) (MbxMsgQ j) Q"
  have M: "msg_move j Q ?Q" using q by (auto simp: msg_move_def ring_simps)
  have T: "typed ?Q" using kinvD(1) [OF K] q j m by (intro typed_intros) auto
  have "mbx_queue_ok s ?Q j []" using srt q by (simp add: mbx_queue_ok_def pri_sorted_def ring_simps)
  then have "kinv s ?Q" using e q by (intro kinv_msg_move [OF K M T]) simp
  then show ?thesis using ginv_msg_move [OF G M] sys_inv_links [OF R] by blast
qed

section \<open>Handing a message or an error to a waiting receiver\<close>

lemma pop_none:
  assumes R: "rep (links s) Q" and q: "Q (MbxWaitQ j) = Some []"
  shows "pop_waiting_receiver j s = Some (None, s)"
  using tkmc_list_empty_owner [OF R q] by (subst pop_waiting_receiver.simps) simp

lemma pop_first:
  assumes R: "rep (links s) Q" and K: "kinv s Q" and q: "Q (MbxWaitQ j) = Some (TcbWait i # ws)"
  shows "ok (pop_waiting_receiver j s) (\<lambda>(r, s'). \<exists>h. r = Some i \<and> s' = s\<lparr>links := h\<rparr> \<and>
    rep h ((detach (TcbWait i) Q)(TcbWait i \<mapsto> [])))"
proof -
  have m: "in_ring Q (MbxWaitQ j) (TcbWait i)" using q by (simp add: in_ring_def)
  note W = waiter_state(2) [OF R K m] mbx_waiter [OF R K m]
  show ?thesis
    using tkmc_list_empty_owner [OF R q] get_next_head [OF R q]
    by (subst pop_waiting_receiver.simps)
      (simp del: ok_on_links, intro ok_park [OF R m], use W in auto)
qed

lemma kinv_mbx_got:
  assumes R: "rep h Q" and K: "kinv s Q" and w: "in_ring Q (MbxWaitQ j) (TcbWait i)"
  shows "kinv (upd_tcb i (\<lambda>t. t\<lparr>winfo := WMbx m\<rparr>) s) Q"
proof -
  have i: "i < CFN_MAX_TSKID" "tskstat (tcbs s i) = TTS_WAI" "tskwait (tcbs s i) = TTW_MBX"
    using waiter_state(1,2) [OF R K w] mbx_waiter [OF R K w] by simp_all
  have only: "v = MbxWaitQ j" if "in_ring Q v (TcbWait i)" for v
    using that rep_in_ring_unique [OF R w] by auto
  have t: "task_ok ((tcbs s i)\<lparr>winfo := WMbx m\<rparr>) Q i"
    using kinvD(4) [OF K i(1)] i w by (auto simp: task_ok_def head_ok_def wait_ok_def)
  have pri: "pri_sorted (upd_tcb i (\<lambda>t. t\<lparr>winfo := WMbx m\<rparr>) s) ws = pri_sorted s ws" for ws
  proof (rule pri_sorted_cong)
    show "wait_pri (upd_tcb i (\<lambda>t. t\<lparr>winfo := WMbx m\<rparr>) s) n = wait_pri s n" for n
      by (cases n) simp_all
  qed
  have j: "j < CFN_MAX_MBXID" using typed_in_ring [OF kinvD(1) [OF K] w] by simp
  have mbx: "mbx_queue_ok (upd_tcb i (\<lambda>t. t\<lparr>winfo := WMbx m\<rparr>) s) Q j ws" if q: "Q (MbxWaitQ j) = Some ws" for ws
  proof -
    have "exists_id (mbxid (mbxcbs s j))"
      using kinvD(7) [OF K j] q rep_member_not_owner [OF R, of FreeMbx "MbxWaitQ j"]
      by (auto simp: mbx_ok_def Let_def split: if_splits)
    then show ?thesis using mbx_okD [OF K j] q by (auto simp: mbx_queue_ok_def pri)
  qed
  show ?thesis
  proof (rule kinv_moved [where i = i, OF K kinvD(1) [OF K] moved_refl])
    show "cur_ok (upd_tcb i (\<lambda>t. t\<lparr>winfo := WMbx m\<rparr>) s)"
      by (rule cur_ok_upd [OF kinvD(3) [OF K]]) (simp add: i)
  qed (use t only mbx in auto)
qed

lemma served_mbx_got:
  assumes R: "rep h Q" and K: "kinv s Q" and w: "in_ring Q (MbxWaitQ j) (TcbWait i)"
  shows "sem_served (upd_tcb i (\<lambda>t. t\<lparr>winfo := WMbx m\<rparr>) s) Q = sem_served s Q"
    and "flg_served (upd_tcb i (\<lambda>t. t\<lparr>winfo := WMbx m\<rparr>) s) Q = flg_served s Q"
    and "sched_ok (upd_tcb i (\<lambda>t. t\<lparr>winfo := WMbx m\<rparr>) s) Q = sched_ok s Q"
proof -
  have only: "v = MbxWaitQ j" if "in_ring Q v (TcbWait i)" for v
    using that rep_in_ring_unique [OF R w] by auto
  have "map (wait_req (upd_tcb i (\<lambda>t. t\<lparr>winfo := WMbx m\<rparr>) s)) ws = map (wait_req s) ws"
    if "Q (SemQ k) = Some ws" for k ws
    using only [of "SemQ k"] that by (auto intro!: wait_req_upd simp: in_ring_def)
  then show "sem_served (upd_tcb i (\<lambda>t. t\<lparr>winfo := WMbx m\<rparr>) s) Q = sem_served s Q"
    by (simp add: sem_served_def cong: map_cong)
  have "i \<noteq> k" if "in_ring Q (FlgQ f) (TcbWait k)" for f k using only [of "FlgQ f"] that by auto
  then show "flg_served (upd_tcb i (\<lambda>t. t\<lparr>winfo := WMbx m\<rparr>) s) Q = flg_served s Q"
    unfolding flg_served_def by (metis upd_tcb_frame(3) upd_apply(1) fun_upd_other)
  have "tskstat (tcbs (upd_tcb i (\<lambda>t. t\<lparr>winfo := WMbx m\<rparr>) s) k) = tskstat (tcbs s k)" for k by simp
  then show "sched_ok (upd_tcb i (\<lambda>t. t\<lparr>winfo := WMbx m\<rparr>) s) Q = sched_ok s Q"
    by (simp only: sched_ok_def upd_tcb_frame)
qed

lemma wake_rings_parked: "wake_rings i p ((detach (TcbWait i) Q)(TcbWait i \<mapsto> [])) = wake_rings i p Q"
proof
  show "wake_rings i p ((detach (TcbWait i) Q)(TcbWait i \<mapsto> [])) q = wake_rings i p Q q" for q
    by (cases "Q q"; cases "Q (ready_node p)") (auto simp: wake_rings_def ring_simps intro!: filter_cong)
qed

text \<open>The receiver leaves the queue, gets its message and its cause, and is ready.\<close>

lemma receiver_ready:
  assumes R: "rep (links s) Q" and K: "kinv s Q" and q: "Q (MbxWaitQ j) = Some (TcbWait i # ws)"
  shows "ok (pop_waiting_receiver j s) (\<lambda>(r, s1). r = Some i \<and> ok (make_waiter_ready i cause m s1)
    (\<lambda>s'. \<exists>h. s' = (upd_tcb i (wake_tcb cause) (upd_tcb i (\<lambda>t. t\<lparr>winfo := WMbx m\<rparr>) s))\<lparr>links := h\<rparr> \<and>
      rep h (wake_rings i (pris s i) Q)))"
proof -
  have m: "in_ring Q (MbxWaitQ j) (TcbWait i)" using q by (simp add: in_ring_def)
  note W = waiter_state(1,2) [OF R K m] mbx_waiter [OF R K m]
  let ?Q = "(detach (TcbWait i) Q)(TcbWait i \<mapsto> [])"
  have ready: "ok (make_waiter_ready i cause m (s\<lparr>links := h\<rparr>)) (\<lambda>s'. \<exists>h.
      s' = (upd_tcb i (wake_tcb cause) (upd_tcb i (\<lambda>t. t\<lparr>winfo := WMbx m\<rparr>) s))\<lparr>links := h\<rparr> \<and>
      rep h (wake_rings i (pris s i) Q))" if h: "rep h ?Q" for h
  proof -
    let ?s = "(upd_tcb i (\<lambda>t. t\<lparr>winfo := WMbx m\<rparr>) s)\<lparr>links := h\<rparr>"
    have "tkmc_complete_wait i cause ?s = end_wait i cause ?s"
      using W(3) by (simp add: tkmc_complete_wait_def complete_wait_with_def)
    moreover have "ok (end_wait i cause ?s) (\<lambda>s'. \<exists>h. rep h (wake_rings i (itskpri (tcbs ?s i)) ?Q) \<and>
        s' = (upd_tcb i (wake_tcb cause) ?s)\<lparr>links := h\<rparr>)"
    proof (rule end_wait_ok [where q = TimerQ and v = "TcbWait i"])
      show "rep (links ?s) ?Q" using h by simp
      show "in_ring ?Q TimerQ (TcbHead i) \<or> ?Q (TcbHead i) = Some []"
        using waiter_links(1) [OF K W(1,2)] by (auto simp: ring_simps)
      show "?Q (ready_node (itskpri (tcbs ?s i))) \<noteq> None"
        using kinv_ready [OF K W(1)] W(2) by (simp add: ring_simps)
    qed (use task_pri [OF K W(1)] W(2) in auto)
    ultimately show ?thesis
      unfolding make_waiter_ready_def by (auto simp: wake_rings_parked elim!: ok_mono)
  qed
  show ?thesis by (rule ok_mono [OF pop_first [OF R K q]]) (use ready in auto)
qed

lemma receiver_woken:
  fixes m :: addr
  assumes R: "rep (links s) Q" and G: "ginv s Q" and q: "Q (MbxWaitQ j) = Some (TcbWait i # ws)"
    and h: "rep h (wake_rings i (pris s i) Q)"
  defines "s0 \<equiv> upd_tcb i (\<lambda>t. t\<lparr>winfo := WMbx m\<rparr>) s" and "Q' \<equiv> wake_rings i (pris s i) Q"
  shows "ginv s0 Q" and "woken s0 Q ((upd_tcb i (wake_tcb cause) s0)\<lparr>links := h\<rparr>) Q'"
    and "sem_served ((upd_tcb i (wake_tcb cause) s0)\<lparr>links := h\<rparr>) Q'"
proof -
  have K: "kinv s Q" using G by (simp add: ginv_def)
  have m: "in_ring Q (MbxWaitQ j) (TcbWait i)" using q by (simp add: in_ring_def)
  note W = waiter_state(1,2) [OF R K m] mbx_waiter [OF R K m]
  show G0: "ginv s0 Q"
    using G kinv_mbx_got [OF R K m] served_mbx_got [OF R K m] by (simp add: ginv_def s0_def)
  then have K0: "kinv s0 Q" by (simp add: ginv_def)
  have p: "itskpri (tcbs s0 i) = pris s i" "tskstat (tcbs s0 i) = TTS_WAI" "tskwait (tcbs s0 i) \<noteq> TTW_SEM"
    using W by (simp_all add: s0_def)
  show "woken s0 Q ((upd_tcb i (wake_tcb cause) s0)\<lparr>links := h\<rparr>) Q'"
    using woken_wake [OF _ K0 W(1) p(2), of h cause] h by (simp add: p(1) Q'_def)
  have "rep (links s0) Q" using R by (simp add: s0_def)
  then show "sem_served ((upd_tcb i (wake_tcb cause) s0)\<lparr>links := h\<rparr>) Q'"
    unfolding Q'_def using G0 by (intro sem_served_wake [OF _ K0 p(3)]) (simp_all add: ginv_def)
qed

lemma dispatch_woken_inv:
  assumes W: "woken s Q s' Q'" and G: "ginv s Q" and S: "sem_served s' Q'"
  shows "ok (dispatch_if_needed s') (\<lambda>s''. mstatus s'' = mstatus s \<and> sys_inv s'' \<and> tcbs s'' = tcbs s' \<and> links s'' = links s')"
proof (cases "current s'")
  case None
  have "rep (links s') Q'" "kinv s' Q'" "same_rest s s'" using W by (simp_all add: woken_def)
  moreover have "flg_served s' Q'" using flg_served_woken [OF W] G by (simp add: ginv_def)
  moreover have "sched_ok s' Q'" using None by (simp add: sched_ok_def)
  ultimately show ?thesis using None S same_restD by (simp add: dispatch_if_needed_def sys_invI ginv_def)
next
  case (Some c)
  have "ok (reschedule s') (\<lambda>s''. mstatus s'' = mstatus s \<and> sys_inv s'' \<and> tcbs s'' = tcbs s' \<and> links s'' = links s')"
    by (rule ok_mono [OF woken_reschedule [OF W _ _ S]]) (use G in \<open>auto simp: ginv_def intro: sys_invI\<close>)
  then show ?thesis using Some by (simp add: dispatch_if_needed_def)
qed

section \<open>Sending\<close>

text \<open>A message goes to the first receiver that waits, or else to its place in the message queue.\<close>

definition handed_over :: "nat \<Rightarrow> addr \<Rightarrow> kernel \<Rightarrow> kernel \<Rightarrow> bool" where
  "handed_over j m s s' \<longleftrightarrow> (\<exists>i ws. list_of (MbxWaitQ j) (links s) = Some (TcbWait i # ws) \<and>
     list_of (MbxWaitQ j) (links s') = Some ws \<and>
     tcbs s' = (tcbs s)(i := wake_tcb E_OK ((tcbs s i)\<lparr>winfo := WMbx m\<rparr>)))"

definition msg_queued :: "nat \<Rightarrow> addr \<Rightarrow> kernel \<Rightarrow> kernel \<Rightarrow> bool" where
  "msg_queued j m s s' \<longleftrightarrow> (\<exists>ms. list_of (MbxMsgQ j) (links s) = Some ms \<and>
     list_of (MbxMsgQ j) (links s') = Some (if mbxatr (mbxcbs s j) AND TA_MPRI \<noteq> 0
       then insert_before (\<lambda>x. msgpri s m < msg_pri (msgpri s) x) (MsgLink m) ms else ms @ [MsgLink m]) \<and>
     s' = s\<lparr>links := links s'\<rparr>)"

definition snd_mbx_result :: "ID \<Rightarrow> addr \<Rightarrow> kernel \<Rightarrow> ER outcome \<Rightarrow> kernel \<Rightarrow> bool" where
  "snd_mbx_result objid m s r s' \<longleftrightarrow> (let j = nat (objid - 1); cb = mbxcbs s j in
     if \<not> tkmc_id_in_range objid (int CFN_MAX_MBXID) then r = Return E_ID \<and> s' = s
     else if m = NULL then r = Return E_PAR \<and> s' = s
     else if \<not> exists_id (mbxid cb) then r = Return E_NOEXS \<and> s' = s
     else if mbxatr cb AND TA_MPRI \<noteq> 0 \<and> msgpri s m \<le> 0 then r = Return E_PAR \<and> s' = s
     else r = Return E_OK \<and>
       (if list_of (MbxWaitQ j) (links s) = Some [] then msg_queued j m s s' else handed_over j m s s'))"

lemma relinked_unmask:
  "s' = s\<lparr>mstatus := k, links := links s'\<rparr> \<Longrightarrow> s'\<lparr>mstatus := mstatus s\<rparr> = s\<lparr>links := links s'\<rparr>"
  by (drule arg_cong [where f = "\<lambda>x. x\<lparr>mstatus := mstatus s\<rparr>"]) simp

lemma snd_mbx_result_unmask:
  assumes "snd_mbx_result objid m (s\<lparr>mstatus := k\<rparr>) r s'"
  shows "snd_mbx_result objid m s r (s'\<lparr>mstatus := mstatus s\<rparr>)"
proof -
  have "msg_queued j m s (s'\<lparr>mstatus := mstatus s\<rparr>)" if "msg_queued j m (s\<lparr>mstatus := k\<rparr>) s'" for j
    using that unfolding msg_queued_def by (elim exE conjE) (simp add: relinked_unmask)
  moreover have "handed_over j m s (s'\<lparr>mstatus := mstatus s\<rparr>)" if "handed_over j m (s\<lparr>mstatus := k\<rparr>) s'" for j
    using that by (simp add: handed_over_def)
  ultimately show ?thesis using assms by (simp add: snd_mbx_result_def Let_def split: if_split_asm)
qed

lemma snd_mbx_hand_over:
  assumes R: "rep (links s) Q" and G: "ginv s Q" and q: "Q (MbxWaitQ j) = Some (TcbWait i # ws)"
  shows "ok (pop_waiting_receiver j s) (\<lambda>(r, s1). r = Some i \<and>
    ok (make_waiter_ready i E_OK m s1) (\<lambda>s2. ok (dispatch_if_needed s2)
      (\<lambda>s'. mstatus s' = mstatus s \<and> sys_inv s' \<and> handed_over j m s s')))"
proof -
  have K: "kinv s Q" using G by (simp add: ginv_def)
  let ?s = "upd_tcb i (\<lambda>t. t\<lparr>winfo := WMbx m\<rparr>) s"
  have fin: "ok (dispatch_if_needed ((upd_tcb i (wake_tcb E_OK) ?s)\<lparr>links := h\<rparr>))
      (\<lambda>s'. mstatus s' = mstatus s \<and> sys_inv s' \<and> handed_over j m s s')"
    if h: "rep h (wake_rings i (pris s i) Q)" for h
  proof -
    have "wake_rings i (pris s i) Q (MbxWaitQ j) = Some ws"
      using wake_rings_wait_queue [of Q "MbxWaitQ j" "[]" i ws] q kinvD(1) [OF K] R by simp
    then have "list_of (MbxWaitQ j) h = Some ws" by (rule list_of_rep [OF h])
    then show ?thesis
      using list_of_rep [OF R q]
      by (intro ok_mono [OF dispatch_woken_inv [OF receiver_woken(2,1,3) [OF R G q h]]])
        (auto simp: handed_over_def)
  qed
  show ?thesis
    by (rule ok_mono [OF receiver_ready [where cause = E_OK and m = m, OF R K q]])
      (use fin in \<open>auto elim!: ok_mono\<close>)
qed

lemma snd_mbx_queue:
  assumes R: "rep (links s) Q" and G: "ginv s Q" and j: "j < CFN_MAX_MBXID" and e: "exists_id (mbxid (mbxcbs s j))"
    and q: "Q (MbxWaitQ j) = Some []" and il: "idle_node (MsgLink m) Q" and m: "m \<noteq> NULL"
  shows "ok (if mbxatr (mbxcbs s j) AND TA_MPRI \<noteq> 0 then insert_msg_pri j m s else insert_msg_fifo j m s)
    (\<lambda>s'. mstatus s' = mstatus s \<and> sys_inv s' \<and> msg_queued j m s s')"
proof -
  have K: "kinv s Q" using G by (simp add: ginv_def)
  obtain ms where ms: "Q (MbxMsgQ j) = Some ms" using kinvD(2) [OF K] j by (auto simp: static_def)
  let ?P = "\<lambda>x. msgpri s m < msg_pri (msgpri s) x"
  note join = msg_join_inv [OF _ G j e q ms m]
  have lists: "list_of (MbxMsgQ j) h = Some (insert_before P (MsgLink m) ms)"
    if "rep h (enlist P (MsgLink m) (MbxMsgQ j) Q)" for h P
    using list_of_rep [OF that, of "MbxMsgQ j"] ms by (simp add: ring_simps)
  show ?thesis
  proof (cases "mbxatr (mbxcbs s j) AND TA_MPRI = 0")
    case fifo: True
    have "ok (insert_msg_fifo j m s) (\<lambda>s'. mstatus s' = mstatus s \<and> sys_inv s' \<and> msg_queued j m s s')"
      by (rule ok_mono [OF insert_msg_fifo_ok [OF R ms il]])
        (use join fifo lists [of _ "\<lambda>_. False"] list_of_rep [OF R ms]
          in \<open>auto simp: push_enlist msg_queued_def insert_before_tail\<close>)
    then show ?thesis using fifo by simp
  next
    case pri: False
    obtain ws where "Q (MbxWaitQ j) = Some ws" "mbx_queue_ok s Q j ws" using mbx_okD [OF K j e] by blast
    then have srt: "msgs_sorted (msgpri s) ms" using ms pri by (simp add: mbx_queue_ok_def)
    have "msgs_sorted (msgpri s) (insert_before ?P (MsgLink m) ms)"
      using sorted_wrt_insert_before [of "msg_pri (msgpri s)" ms "MsgLink m"] srt by (simp add: msgs_sorted_def)
    then have "ok (insert_msg_pri j m s) (\<lambda>s'. mstatus s' = mstatus s \<and> sys_inv s' \<and> msg_queued j m s s')"
      by (intro ok_mono [OF insert_msg_pri_ok [OF R kinvD(1) [OF K] ms il srt]])
        (use join pri lists [of _ ?P] list_of_rep [OF R ms] in \<open>auto simp: msg_queued_def\<close>)
    then show ?thesis using pri by simp
  qed
qed

lemma tk_snd_mbx_ok:
  assumes I: "sys_inv s" and idle: "\<And>Q. rep (links s) Q \<Longrightarrow> ginv s Q \<Longrightarrow> idle_node (MsgLink m) Q"
  shows "ok (tk_snd_mbx objid m s) (\<lambda>(r, s'). sys_inv s' \<and> mstatus s' = mstatus s \<and> snd_mbx_result objid m s r s')"
  unfolding tk_snd_mbx_def Let_def
proof (intro ok_ifI, goal_cases)
  case ids: 3
  define j where "j = nat (objid - 1)"
  have j: "j < CFN_MAX_MBXID" using id_in_range_index [of objid CFN_MAX_MBXID] ids by (auto simp: j_def)
  show ?case
    unfolding j_def [symmetric]
  proof (rule crit_result [where P = "snd_mbx_result objid m", OF I _ snd_mbx_result_unmask], goal_cases)
    case (1 s0 Q)
    note R = 1(2) and G = 1(3)
    have K: "kinv s0 Q" using G by (simp add: ginv_def)
    have il: "idle_node (MsgLink m) Q" using idle [of Q] 1 by simp
    show ?case
    proof (cases "exists_id (mbxid (mbxcbs s0 j)) \<and> \<not> (mbxatr (mbxcbs s0 j) AND TA_MPRI \<noteq> 0 \<and> msgpri s0 m \<le> 0)")
      case False
      then show ?thesis
        using sys_invI [OF R G] ids by (auto simp: exists_id_def snd_mbx_result_def j_def [symmetric])
    next
      case True
      then have e: "exists_id (mbxid (mbxcbs s0 j))" by simp
      have res: "snd_mbx_result objid m s0 (Return E_OK) s' \<longleftrightarrow>
          (if list_of (MbxWaitQ j) (links s0) = Some [] then msg_queued j m s0 s' else handed_over j m s0 s')" for s'
        using True ids by (auto simp: snd_mbx_result_def j_def [symmetric])
      obtain ws where q: "Q (MbxWaitQ j) = Some ws" using mbx_okD [OF K j e] by blast
      note lw = list_of_rep [OF R q]
      show ?thesis
      proof (cases ws)
        case (Cons n ns)
        then obtain i where n: "ws = TcbWait i # ns" using queue_tasks(3) [OF K q] by auto
        then show ?thesis
          using True q lw snd_mbx_hand_over [OF R G, of j i ns m]
          by (auto simp: exists_id_def res elim!: ok_mono)
      next
        case Nil
        then have q0: "Q (MbxWaitQ j) = Some []" using q by simp
        have "ok (if mbxatr (mbxcbs s0 j) AND TA_MPRI \<noteq> 0 then insert_msg_pri j m s0 else insert_msg_fifo j m s0)
          (\<lambda>s'. mstatus s' = mstatus s0 \<and> sys_inv s' \<and> snd_mbx_result objid m s0 (Return E_OK) s')"
          by (rule ok_mono [OF snd_mbx_queue [OF R G j e q0 il]]) (use ids lw Nil res in auto)
        then show ?thesis using True by (auto simp: exists_id_def pop_none [OF R q0])
      qed
    qed
  qed
qed (use I in \<open>auto simp: snd_mbx_result_def\<close>)

lemma tk_snd_mbx_call_ok:
  assumes "sys_inv s" and "\<And>Q. rep (links s) Q \<Longrightarrow> ginv s Q \<Longrightarrow> idle_node (MsgLink m) Q"
  shows "call_ok (tk_snd_mbx objid m s) s"
  by (rule result_call_ok [OF tk_snd_mbx_ok [OF assms]])

section \<open>Receiving\<close>

interpretation mbx_ins: insertion_scan "MbxWaitQ j" "TcbWait c"
  "\<lambda>s x. itskpri (tcbs s c) < wait_pri s x" "mbx_scan c j" for c j
proof
  show "mbx_scan c j (MbxWaitQ j) s = Some (False, s)" for s
    by (subst mbx_scan.simps) simp
next
  fix x s assume "fits (MbxWaitQ j) x"
  then obtain i where x: "x = TcbWait i" using fits_wait(3) by blast
  show "mbx_scan c j x s = do { p \<leftarrow> get_prev x (links s); s \<leftarrow> on_links (tkmc_list_add (TcbWait c) p) s;
      Some (True, s) }" if "itskpri (tcbs s c) < wait_pri s x"
    using that by (subst mbx_scan.simps) (simp add: x)
  show "mbx_scan c j x s = do { n \<leftarrow> get_next x (links s); mbx_scan c j n s }"
    if "\<not> itskpri (tcbs s c) < wait_pri s x"
    using that by (subst mbx_scan.simps) (simp add: x)
qed

abbreviation mbx_before :: "kernel \<Rightarrow> nat \<Rightarrow> nat \<Rightarrow> node \<Rightarrow> bool" where
  "mbx_before s c j x \<equiv> mbxatr (mbxcbs s j) AND TA_TPRI \<noteq> 0 \<and> itskpri (tcbs s c) < wait_pri s x"

lemma insert_waiter_ok:
  assumes R: "rep (links s) Q" and T: "typed Q" and q: "Q (MbxWaitQ j) = Some ws" and n: "Q (TcbWait c) = Some []"
  shows "ok (insert_waiter j c s) (\<lambda>s'. \<exists>h. s' = s\<lparr>links := h\<rparr> \<and> rep h (enlist (mbx_before s c j) (TcbWait c) (MbxWaitQ j) Q))"
proof -
  have f: "\<forall>x \<in> set ws. fits (MbxWaitQ j) x" using q typed_in_ring [OF T, of "MbxWaitQ j"] by (auto simp: in_ring_def)
  have n': "idle_node (TcbWait c) Q" "mapped (TcbWait c)" "TcbWait c \<noteq> MbxWaitQ j"
    using rep_owner_idle [OF R n] by (simp_all add: mapped_def)
  show ?thesis
  proof (cases "mbxatr (mbxcbs s j) AND TA_TPRI = 0")
    case True
    have "ok (on_links (tkmc_list_add_tail (TcbWait c) (MbxWaitQ j)) s)
      (\<lambda>s'. \<exists>h. s' = s\<lparr>links := h\<rparr> \<and> rep h (enlist (mbx_before s c j) (TcbWait c) (MbxWaitQ j) Q))"
      using True q by (intro ok_add_tail [OF R _ n']) (auto simp: push_enlist)
    then show ?thesis using True by (simp add: insert_waiter_def)
  next
    case False
    have "ok (mbx_scan c j (hd (ws @ [MbxWaitQ j])) s) (\<lambda>(b, s'). ok (if b then Some s'
        else on_links (tkmc_list_add_tail (TcbWait c) (MbxWaitQ j)) s')
      (\<lambda>s'. \<exists>h. s' = s\<lparr>links := h\<rparr> \<and> rep h (enlist (mbx_before s c j) (TcbWait c) (MbxWaitQ j) Q)))"
      using mbx_ins.insert_ok [OF R q f n'] False by simp
    then show ?thesis
      using False get_next_head [OF R q] by (simp add: insert_waiter_def split_def)
  qed
qed

lemma mbx_join_ok:
  assumes q: "mbx_queue_ok s Q j ws" and Q': "Q' (MbxMsgQ j) = Some []"
  shows "mbx_queue_ok (upd_tcb c (block_tcb wi w d) s) Q' j (insert_before (mbx_before s c j) (TcbWait c) ws)"
proof -
  let ?s = "upd_tcb c (block_tcb wi w d) s"
  have pri: "wait_pri ?s = wait_pri s"
  proof
    show "wait_pri ?s n = wait_pri s n" for n by (cases n) (simp_all add: block_tcb_def wait_tcb_def)
  qed
  have "pri_sorted ?s (insert_before (mbx_before s c j) (TcbWait c) ws)" if "mbxatr (mbxcbs s j) AND TA_TPRI \<noteq> 0"
    using q that sorted_wrt_insert_before [of "wait_pri s" ws "TcbWait c"]
    by (simp add: mbx_queue_ok_def pri_sorted_def pri)
  then show ?thesis using Q' by (simp add: mbx_queue_ok_def msgs_sorted_def)
qed

lemma rcv_mbx_block:
  assumes R: "rep (links s) Q" and G: "ginv s Q" and c: "running s c" and C: "clock_ok (mtime s)"
    and j: "j < CFN_MAX_MBXID" "exists_id (mbxid (mbxcbs s j))" and q: "Q (MbxWaitQ j) = Some ws"
    and e: "Q (MbxMsgQ j) = Some []"
  shows "ok (on_links (tkmc_init_list_head (TcbWait c)) (upd_tcb c (\<lambda>t. t\<lparr>winfo := WMbx NULL\<rparr>) s))
    (\<lambda>s2. ok (insert_waiter j c s2) (\<lambda>s2. ok (start_wait c TTW_MBX tmout s2)
      (\<lambda>s'. mstatus s' = mstatus s \<and> sys_inv s' \<and> blocked (MbxWaitQ j) c (WMbx NULL) TTW_MBX tmout (mbx_before s c j) s s')))"
proof -
  have K: "kinv s Q" using G by (simp add: ginv_def)
  note L = running_links [OF K c]
  have fit: "fits (MbxWaitQ j) (TcbWait c)" using j L(1) by simp
  have qo: "mbx_queue_ok s Q j ws" using mbx_okD [OF K j] q by auto
  let ?wi = "WMbx NULL" and ?P = "mbx_before s c j"
  let ?E = "wait_rings c (0 < tmout) (enlist ?P (TcbWait c) (MbxWaitQ j) Q)"
  note F = block_kinv [where w = TTW_MBX and wi = ?wi and P = ?P and tm = "0 < tmout", OF R K c q fit refl]
    and F2 = block_served [where w = TTW_MBX and wi = ?wi and P = ?P and tm = "0 < tmout", OF R G c q fit refl]
  have "?E (MbxMsgQ j) = Some []" using wait_on_rings(5) [OF R K c q fit refl, of "MbxMsgQ j"] e by simp
  note join = mbx_join_ok [where Q' = ?E, OF qo this]
  have b: "wait_pri ((upd_tcb c (\<lambda>t. t\<lparr>winfo := ?wi\<rparr>) s)\<lparr>links := h\<rparr>) = wait_pri s" for h
  proof
    show "wait_pri ((upd_tcb c (\<lambda>t. t\<lparr>winfo := ?wi\<rparr>) s)\<lparr>links := h\<rparr>) n = wait_pri s n" for n
      by (cases n) simp_all
  qed
  show ?thesis
  proof (rule block_ok [where P = ?P and q = "MbxWaitQ j", OF R K c C])
    show "ok (insert_waiter j c ((upd_tcb c (\<lambda>t. t\<lparr>winfo := ?wi\<rparr>) s)\<lparr>links := h\<rparr>))
        (\<lambda>s'. \<exists>h'. s' = (upd_tcb c (\<lambda>t. t\<lparr>winfo := ?wi\<rparr>) s)\<lparr>links := h'\<rparr> \<and> rep h' (enlist ?P (TcbWait c) (MbxWaitQ j) Q))"
      if "rep h Q" for h
      using that by (intro ok_mono [OF insert_waiter_ok [of _ Q j ws c]]) (auto simp: kinvD(1) [OF K] q L(3) b)
  qed (use F F2 join q wait_on_rings(3) [OF R K c q fit refl, of "0 < tmout" ?P] in auto)
qed

definition msg_taken :: "nat \<Rightarrow> addr \<Rightarrow> kernel \<Rightarrow> kernel \<Rightarrow> bool" where
  "msg_taken j m s s' \<longleftrightarrow> (\<exists>ms. list_of (MbxMsgQ j) (links s) = Some (MsgLink m # ms) \<and>
     list_of (MbxMsgQ j) (links s') = Some ms \<and> s' = s\<lparr>links := links s'\<rparr>)"

lemma rcv_mbx_take:
  assumes R: "rep (links s) Q" and G: "ginv s Q" and j: "j < CFN_MAX_MBXID" "exists_id (mbxid (mbxcbs s j))"
    and q: "Q (MbxMsgQ j) = Some (MsgLink m # ms)"
  shows "ok (on_links (tkmc_list_del (MsgLink m)) s) (\<lambda>s1. ok (on_links (tkmc_init_list_head (MsgLink m)) s1)
    (\<lambda>s'. mstatus s' = mstatus s \<and> sys_inv s' \<and> msg_taken j m s s'))"
proof (rule ok_park [OF R])
  show "in_ring Q (MbxMsgQ j) (MsgLink m)" using q by (simp add: in_ring_def)
  fix h assume h: "rep h ((detach (MsgLink m) Q)(MsgLink m \<mapsto> []))" (is "rep h ?Q")
  have K: "kinv s Q" using G by (simp add: ginv_def)
  have only: "MsgLink m \<notin> set xs" if "Q v = Some xs" "v \<noteq> MbxMsgQ j" for v xs
    using rep_in_ring_unique [OF R, of v "MsgLink m" "MbxMsgQ j"] that q by (auto simp: in_ring_def)
  have nq: "?Q (MbxMsgQ j) = Some ms" using q repD(2) [OF R q] by (simp add: ring_simps)
  have M: "msg_move j Q ?Q"
    unfolding msg_move_def
  proof (intro conjI allI impI)
    fix n assume "n \<noteq> MbxMsgQ j" "\<forall>m. n \<noteq> MsgLink m"
    then show "?Q n = Q n" using only [of n] by (cases "Q n") (auto simp: ring_simps)
  qed (use nq in simp)
  have T: "typed ?Q" by (intro typed_intros kinvD(1) [OF K])
  obtain ws where w: "Q (MbxWaitQ j) = Some ws" "mbx_queue_ok s Q j ws" using mbx_okD [OF K j] by blast
  then have "mbx_queue_ok s ?Q j ws"
    using q nq by (simp add: mbx_queue_ok_def msgs_sorted_def pri_sorted_def)
  then have "kinv s ?Q" using w j by (intro kinv_msg_move [OF K M T]) simp
  then show "mstatus (s\<lparr>links := h\<rparr>) = mstatus s \<and> sys_inv (s\<lparr>links := h\<rparr>) \<and> msg_taken j m s (s\<lparr>links := h\<rparr>)"
    using ginv_msg_move [OF G M] sys_inv_links [OF h] list_of_rep [OF R q] list_of_rep [OF h nq]
    by (simp add: msg_taken_def)
qed

text \<open>What receiving does, once its arguments are accepted.\<close>

definition rcv_mbx_body :: "nat \<Rightarrow> TMO \<Rightarrow> bool \<Rightarrow> kernel \<Rightarrow> (ER \<times> addr option) outcome \<Rightarrow> kernel \<Rightarrow> bool" where
  "rcv_mbx_body j tmout can_block s r s' \<longleftrightarrow>
     (if \<not> can_block then r = Return (E_CTX, None) \<and> s' = s
      else if \<not> exists_id (mbxid (mbxcbs s j)) then r = Return (E_NOEXS, None) \<and> s' = s
      else if list_of (MbxMsgQ j) (links s) \<noteq> Some [] then
        (\<exists>m. r = Return (E_OK, Some m) \<and> msg_taken j m s s')
      else if tmout = TMO_POL then r = Return (E_TMOUT, None) \<and> s' = s
      else r = Block \<and> (\<exists>c. current s = Some c \<and> blocked (MbxWaitQ j) c (WMbx NULL) TTW_MBX tmout (mbx_before s c j) s s'))"

definition rcv_mbx_result :: "ID \<Rightarrow> addr \<Rightarrow> TMO \<Rightarrow> kernel \<Rightarrow> (ER \<times> addr option) outcome \<Rightarrow> kernel \<Rightarrow> bool" where
  "rcv_mbx_result objid p tmout s r s' \<longleftrightarrow>
     (if \<not> tkmc_id_in_range objid (int CFN_MAX_MBXID) then r = Return (E_ID, None) \<and> s' = s
      else if p = NULL \<or> tmout < TMO_FEVR then r = Return (E_PAR, None) \<and> s' = s
      else rcv_mbx_body (nat (objid - 1)) tmout (tkmc_can_block (mstatus s OR NOT MSTATUS_MIE) s) s r s')"

lemma rcv_mbx_body_unmask:
  assumes "rcv_mbx_body j tmout b (s\<lparr>mstatus := k\<rparr>) r s'"
  shows "rcv_mbx_body j tmout b s r (s'\<lparr>mstatus := mstatus s\<rparr>)"
proof -
  have "wait_pri (s\<lparr>mstatus := k\<rparr>) = wait_pri s" by (intro ext wait_pri_cong) simp
  moreover have "msg_taken j m s (s'\<lparr>mstatus := mstatus s\<rparr>)" if "msg_taken j m (s\<lparr>mstatus := k\<rparr>) s'" for m
    using that unfolding msg_taken_def by (elim exE conjE) (simp add: relinked_unmask)
  ultimately show ?thesis
    using assms unfolding rcv_mbx_body_def by (auto split: if_split_asm)
qed

lemma tk_rcv_mbx_ok:
  assumes I: "sys_inv s" and st: "settled s" and C: "clock_ok (mtime s)"
  shows "ok (tk_rcv_mbx objid p tmout s) (\<lambda>(r, s'). sys_inv s' \<and> mstatus s' = mstatus s \<and>
    rcv_mbx_result objid p tmout s r s')"
  unfolding tk_rcv_mbx_def Let_def
proof (intro ok_ifI, goal_cases)
  case ids: 3
  define j where "j = nat (objid - 1)"
  have j: "j < CFN_MAX_MBXID" using id_in_range_index [of objid CFN_MAX_MBXID] ids by (auto simp: j_def)
  let ?b = "tkmc_can_block (mstatus s OR NOT MSTATUS_MIE) s"
  have res: "rcv_mbx_result objid p tmout s r s' = rcv_mbx_body j tmout ?b s r s'" for r s'
    using ids by (simp add: rcv_mbx_result_def j_def)
  show ?case
    unfolding j_def [symmetric] res
  proof (rule crit_wait [OF I st C, where P = "rcv_mbx_body j tmout ?b", OF _ _ rcv_mbx_body_unmask], goal_cases)
    case (2 s0 Q c)
    note R = 2(2) and G = 2(3) and K = 2(4)
    show ?case
    proof (cases "exists_id (mbxid (mbxcbs s0 j))")
      case False
      then show ?thesis using sys_invI [OF R G] 2(1) by (auto simp: exists_id_def rcv_mbx_body_def)
    next
      case e: True
      obtain ws ms where q: "Q (MbxWaitQ j) = Some ws" and ms: "Q (MbxMsgQ j) = Some ms"
        using mbx_okD [OF K j e] kinvD(2) [OF K] j by (auto simp: static_def)
      note E = tkmc_list_empty_owner [OF R ms] get_next_head [OF R ms] list_of_rep [OF R ms] rcv_mbx_body_def
      show ?thesis
      proof (cases ms)
        case (Cons n ns)
        then have "fits (MbxMsgQ j) n" using typed_in_ring [OF kinvD(1) [OF K], of "MbxMsgQ j" n] ms by (simp add: in_ring_def)
        then obtain m where n: "n = MsgLink m" by (auto split: node.splits)
        have "ok (on_links (tkmc_list_del (MsgLink m)) s0) (\<lambda>s1. ok (on_links (tkmc_init_list_head (MsgLink m)) s1)
          (\<lambda>s'. mstatus s' = mstatus s0 \<and> sys_inv s' \<and> rcv_mbx_body j tmout ?b s0 (Return (E_OK, Some m)) s'))"
          by (rule ok_mono [OF rcv_mbx_take [OF R G j e, of m ns]])
            (use ms Cons n e 2(1) in \<open>auto simp: E elim!: ok_mono simp del: ok_on_links\<close>)
        then show ?thesis using e E Cons n by (simp add: exists_id_def del: ok_on_links)
      next
        case Nil
        have "ok (on_links (tkmc_init_list_head (TcbWait c)) (upd_tcb c (\<lambda>t. t\<lparr>winfo := WMbx NULL\<rparr>) s0))
          (\<lambda>s2. ok (insert_waiter j c s2) (\<lambda>s2. ok (start_wait c TTW_MBX tmout s2)
            (\<lambda>s'. mstatus s' = mstatus s0 \<and> sys_inv s' \<and> rcv_mbx_body j tmout ?b s0 Block s')))" if "tmout \<noteq> TMO_POL"
          by (rule ok_mono [OF rcv_mbx_block [OF R G 2(5,7) j e q, of tmout]])
            (use ms Nil e 2(1,6) that in \<open>auto simp: E elim!: ok_mono simp del: ok_on_links\<close>)
        then show ?thesis
          using e Nil sys_invI [OF R G] 2(1,6)
          by (cases "tmout = TMO_POL") (simp_all add: exists_id_def E del: ok_on_links)
      qed
    qed
  qed (simp add: rcv_mbx_body_def)
qed (use I in \<open>auto simp: rcv_mbx_result_def\<close>)

lemma tk_rcv_mbx_call_ok:
  assumes "sys_inv s" and "settled s" and "clock_ok (mtime s)"
  shows "call_ok (tk_rcv_mbx objid p tmout s) s"
  by (rule result_call_ok [OF tk_rcv_mbx_ok [OF assms]])

lemma tk_rcv_mbx_resume_call_ok:
  assumes "sys_inv s" and c: "running s c" and w: "winfo (tcbs s c) = WMbx m"
  shows "call_ok (tk_rcv_mbx_resume s) s"
  unfolding tk_rcv_mbx_resume_def
proof (intro crit_call_ok assms, goal_cases)
  case (1 s0 Q)
  note R = 1(2) and G = 1(3)
  have c0: "running s0 c" "current s0 = Some c" "winfo (tcbs s0 c) = WMbx m"
    using 1(1) c w by (auto simp: running_def)
  have K: "kinv s0 Q" using G by (simp add: ginv_def)
  note L = running_links [OF K c0(1)]
  let ?f = "\<lambda>t. t\<lparr>winfo := WMbx NULL, wupcause := E_OK, delay_ticks := 0, tskwait := TTW_NONE\<rparr>"
  have out: "\<not> in_ring Q q (TcbWait c)" for q using rep_owner_loose [OF R L(3)] by (simp add: loose_def)
  have t: "task_ok (?f (tcbs s0 c)) Q c"
    using kinvD(4) [OF K L(1)] c0(1) by (simp add: task_ok_def head_ok_def wait_ok_def running_def)
  note P = task_moved [where f = ?f, OF R K L(1,3) kinvD(1) [OF K] moved_refl out t]
  have "ginv (upd_tcb c ?f s0) Q"
    using G P c0(2) by (auto simp: ginv_def sched_ok_def)
  then show ?case
    using sys_invI [of "upd_tcb c ?f s0" Q] R c0 tkmc_list_empty_owner [OF R L(3)] by simp
qed

section \<open>Deleting\<close>

text \<open>What releasing the receivers leaves behind.\<close>

definition receivers_gone :: "nat \<Rightarrow> nat list \<Rightarrow> kernel \<Rightarrow> kernel \<Rightarrow> rings \<Rightarrow> bool" where
  "receivers_gone j is s s' Q' \<longleftrightarrow> rep (links s') Q' \<and> kinv s' Q' \<and> sem_served s' Q' \<and> flg_served s' Q' \<and>
     Q' (MbxWaitQ j) = Some [] \<and> mbxcbs s' = mbxcbs s \<and> current s' = current s \<and> msip s' = msip s \<and>
     mstatus s' = mstatus s \<and> semcbs s' = semcbs s \<and> flgcbs s' = flgcbs s \<and>
     (\<forall>k \<in> set is. tskstat (tcbs s k) = TTS_WAI) \<and>
     (\<forall>k. tcbs s' k = (if k \<in> set is then wake_tcb E_DLT ((tcbs s k)\<lparr>winfo := WMbx NULL\<rparr>) else tcbs s k))"

lemma release_receivers_ok:
  assumes "rep (links s) Q" and "kinv s Q" and "sem_served s Q" and "flg_served s Q"
    and "Q (MbxWaitQ j) = Some (map TcbWait is)"
  shows "ok (release_receivers j s) (\<lambda>s'. \<exists>Q'. receivers_gone j is s s' Q')"
  using assms
proof (induction "is" arbitrary: s Q)
  case Nil
  then show ?case
    by (subst release_receivers.simps) (auto simp: pop_none [OF Nil(1)] receivers_gone_def)
next
  case (Cons i "is")
  note R = Cons.prems(1) and K = Cons.prems(2) and S = Cons.prems(3,4)
  have q: "Q (MbxWaitQ j) = Some (TcbWait i # map TcbWait is)" using Cons.prems(5) by simp
  have m: "in_ring Q (MbxWaitQ j) (TcbWait i)" using q by (simp add: in_ring_def)
  have out: "i \<notin> set is" using repD(2) [OF R q] by auto
  note W = waiter_state(1,2) [OF R K m] mbx_waiter [OF R K m]
  let ?s0 = "upd_tcb i (\<lambda>t. t\<lparr>winfo := WMbx NULL\<rparr>) s" and ?Q = "wake_rings i (pris s i) Q"
  let ?s1 = "upd_tcb i (wake_tcb E_DLT) ?s0"
  have K0: "kinv ?s0 Q" and S0: "sem_served ?s0 Q" "flg_served ?s0 Q"
    using kinv_mbx_got [OF R K m] served_mbx_got [OF R K m] S by simp_all
  have R0: "rep (links ?s0) Q" using R by simp
  have p: "itskpri (tcbs ?s0 i) = pris s i" "tskstat (tcbs ?s0 i) = TTS_WAI" "tskwait (tcbs ?s0 i) \<noteq> TTW_SEM"
    using W by simp_all
  have turn: "ok (release_receivers j (?s1\<lparr>links := h\<rparr>)) (\<lambda>s'. \<exists>Q'. receivers_gone j (i # is) s s' Q')"
    if h: "rep h ?Q" for h
  proof -
    have V: "woken ?s0 Q (?s1\<lparr>links := h\<rparr>) ?Q"
      using woken_wake [OF _ K0 W(1) p(2), of h E_DLT] h by (simp add: p(1))
    have "?Q (MbxWaitQ j) = Some (map TcbWait is)"
      using wake_rings_wait_queue [of Q "MbxWaitQ j" "[]" i "map TcbWait is"] q kinvD(1) [OF K] R by simp
    moreover have "sem_served (?s1\<lparr>links := h\<rparr>) ?Q" by (rule sem_served_wake [OF R0 K0 p(3) S0(1)])
    moreover have "flg_served (?s1\<lparr>links := h\<rparr>) ?Q" by (rule flg_served_woken [OF V S0(2)])
    ultimately have "ok (release_receivers j (?s1\<lparr>links := h\<rparr>)) (\<lambda>s'. \<exists>Q'. receivers_gone j is (?s1\<lparr>links := h\<rparr>) s' Q')"
      using V by (intro Cons.IH [where Q = ?Q]) (simp_all add: woken_def)
    then show ?thesis
    proof (rule ok_mono)
      fix s' assume "\<exists>Q'. receivers_gone j is (?s1\<lparr>links := h\<rparr>) s' Q'"
      then show "\<exists>Q'. receivers_gone j (i # is) s s' Q'" using out W(2) by (auto simp: receivers_gone_def split: if_split_asm)
    qed
  qed
  have "ok (pop_waiting_receiver j s) (\<lambda>(r, s1). r = Some i \<and> ok (make_waiter_ready i E_DLT NULL s1)
      (\<lambda>s2. ok (release_receivers j s2) (\<lambda>s'. \<exists>Q'. receivers_gone j (i # is) s s' Q')))"
    by (rule ok_mono [OF receiver_ready [where cause = E_DLT and m = NULL, OF R K q]])
      (use turn in \<open>auto elim!: ok_mono\<close>)
  then show ?case
    by (subst release_receivers.simps) (auto elim!: ok_mono)
qed


lemma del_mbx_kinv:
  assumes R: "rep h Q" and K: "kinv s Q" and S: "sem_served s Q" "flg_served s Q"
    and q: "Q (MbxWaitQ j) = Some []" and j: "j < CFN_MAX_MBXID"
    and f: "\<not> exists_id (mbxid (f (mbxcbs s j)))"
      "mbxid (f (mbxcbs s j)) AND NOT NOEXS_MASK = mbxid (mbxcbs s j) AND NOT NOEXS_MASK"
    and e: "exists_id (mbxid (mbxcbs s j))"
  defines "Q' \<equiv> push (MbxWaitQ j) FreeMbx (Q(MbxMsgQ j \<mapsto> []))"
  shows "kinv (upd_mbx j f s) Q'" and "sem_served (upd_mbx j f s) Q'" and "flg_served (upd_mbx j f s) Q'"
proof -
  let ?Q = "Q(MbxMsgQ j \<mapsto> [])"
  have M1: "msg_move j Q ?Q" by (simp add: msg_move_def)
  have T1: "typed ?Q" by (intro typed_intros kinvD(1) [OF K])
  have "mbx_queue_ok s ?Q j []" by (simp add: mbx_queue_ok_def pri_sorted_def msgs_sorted_def)
  then have K1: "kinv s ?Q" using e q by (intro kinv_msg_move [OF K M1 T1]) simp
  have F: "?Q FreeMbx \<noteq> None" using kinvD(2) [OF K] by (simp add: static_def)
  then have M2: "obj_move FreeMbx (MbxWaitQ j) ?Q Q'" using q unfolding Q'_def by (intro obj_move_free) auto
  have T2: "typed Q'" using F j unfolding Q'_def by (intro typed_intros kinvD(1) [OF K]) auto
  have "mbx_ok (upd_mbx j f s) Q' j"
    using kinvD(7) [OF K j] f F by (simp add: mbx_ok_def Let_def Q'_def ring_simps)
  then show "kinv (upd_mbx j f s) Q'" by (rule kinv_mbx_move [OF K1 M2 T2])
  have "wait_req (upd_mbx j f s) = wait_req s" by (auto intro!: wait_req_cong)
  then show "sem_served (upd_mbx j f s) Q'"
    using S(1) by (simp add: sem_served_def Q'_def ring_simps)
  show "flg_served (upd_mbx j f s) Q'"
    using S(2) F by (simp add: flg_served_def Q'_def ring_simps)
qed

lemma dispatch_if_needed_inv:
  assumes R: "rep (links s) Q" and K: "kinv s Q" and S: "sem_served s Q" "flg_served s Q"
    and run: "\<And>c. current s = Some c \<Longrightarrow> \<not> msip s \<Longrightarrow> tskstat (tcbs s c) = TTS_RUN"
  shows "ok (dispatch_if_needed s) (\<lambda>s'. mstatus s' = mstatus s \<and> sys_inv s' \<and> (\<exists>n b. s' = s\<lparr>next_tsk := n, msip := b\<rparr>))"
proof (cases "current s")
  case None
  then have "sched_ok s Q" by (simp add: sched_ok_def)
  moreover have "\<exists>n b. s = s\<lparr>next_tsk := n, msip := b\<rparr>" by (intro exI [of _ "next_tsk s"] exI [of _ "msip s"]) simp
  ultimately show ?thesis using None assms by (simp add: dispatch_if_needed_def sys_invI ginv_def)
next
  case (Some c)
  then show ?thesis
    using reschedule_ok [OF R K run] R K S by (auto simp: dispatch_if_needed_def ginv_def intro!: sys_invI [of _ Q] elim!: ok_mono)
qed

text \<open>What deleting does: the receivers are made ready with E_DLT and no message, both queues are emptied, and the control
  block is cleared and goes to the end of the free list.\<close>

definition deleted_mbx :: "nat \<Rightarrow> nat list \<Rightarrow> kernel \<Rightarrow> kernel \<Rightarrow> bool" where
  "deleted_mbx j is s s' \<longleftrightarrow>
     (\<forall>k. tcbs s' k = (if k \<in> set is then wake_tcb E_DLT ((tcbs s k)\<lparr>winfo := WMbx NULL\<rparr>) else tcbs s k)) \<and>
     mbxcbs s' = (mbxcbs s)(j := \<lparr>mbxid = of_nat (Suc j) OR NOEXS_MASK, mbx_exinf = NULL, mbxatr = 0\<rparr>) \<and>
     list_of (MbxMsgQ j) (links s') = Some [] \<and> (\<exists>ns. list_of FreeMbx (links s') = Some (ns @ [MbxWaitQ j])) \<and>
     semcbs s' = semcbs s \<and> flgcbs s' = flgcbs s \<and> current s' = current s"

definition del_mbx_result :: "ID \<Rightarrow> kernel \<Rightarrow> ER outcome \<Rightarrow> kernel \<Rightarrow> bool" where
  "del_mbx_result objid s r s' \<longleftrightarrow> (let j = nat (objid - 1) in
     if \<not> tkmc_id_in_range objid (int CFN_MAX_MBXID) then r = Return E_ID \<and> s' = s
     else if \<not> exists_id (mbxid (mbxcbs s j)) then r = Return E_NOEXS \<and> s' = s
     else r = Return E_OK \<and> (\<exists>is. list_of (MbxWaitQ j) (links s) = Some (map TcbWait is) \<and> deleted_mbx j is s s'))"

lemma del_mbx_finish:
  assumes X: "receivers_gone j ks s0 s1 Q1" and j: "j < CFN_MAX_MBXID" "objid = int j + 1" and e: "exists_id (mbxid (mbxcbs s0 j))"
    and S: "sched_ok s0 Q"
  shows "ok (on_links (tkmc_init_list_head (MbxWaitQ j))
      (upd_mbx j (\<lambda>c. c\<lparr>mbxid := word_of_int objid OR NOEXS_MASK, mbx_exinf := NULL, mbxatr := 0\<rparr>) s1))
    (\<lambda>s2. ok (on_links (tkmc_init_list_head (MbxMsgQ j)) s2)
    (\<lambda>s2. ok (on_links (tkmc_list_add_tail (MbxWaitQ j) FreeMbx) s2)
    (\<lambda>s2. ok (dispatch_if_needed s2) (\<lambda>s'. mstatus s' = mstatus s0 \<and> sys_inv s' \<and> deleted_mbx j ks s0 s'))))"
proof -
  let ?f = "\<lambda>c. c\<lparr>mbxid := word_of_int objid OR NOEXS_MASK, mbx_exinf := NULL, mbxatr := 0\<rparr>"
  have R1: "rep (links s1) Q1" and K1: "kinv s1 Q1" and S1: "sem_served s1 Q1" "flg_served s1 Q1"
    and q1: "Q1 (MbxWaitQ j) = Some []" and mb: "mbxcbs s1 = mbxcbs s0"
    using X by (simp_all add: receivers_gone_def)
  obtain ms where ms: "Q1 (MbxMsgQ j) = Some ms" using kinvD(2) [OF K1] j by (auto simp: static_def)
  have id: "mbxid (mbxcbs s1 j) AND NOT NOEXS_MASK = of_nat (Suc j)"
    using kinvD(7) [OF K1 j(1)] by (simp add: mbx_ok_def Let_def)
  have ob: "word_of_int objid = (of_nat (Suc j) :: UW)" using j(2) by simp
  have "(word_of_int objid OR NOEXS_MASK) AND NOT NOEXS_MASK = mbxid (mbxcbs s1 j) AND NOT NOEXS_MASK"
    unfolding ob id [symmetric] by simp
  then have I: "kinv (upd_mbx j ?f s1) (push (MbxWaitQ j) FreeMbx (Q1(MbxMsgQ j \<mapsto> [])))"
    "sem_served (upd_mbx j ?f s1) (push (MbxWaitQ j) FreeMbx (Q1(MbxMsgQ j \<mapsto> [])))"
    "flg_served (upd_mbx j ?f s1) (push (MbxWaitQ j) FreeMbx (Q1(MbxMsgQ j \<mapsto> [])))"
    using del_mbx_kinv [where f = ?f, OF R1 K1 S1 q1 j(1)] e mb by simp_all
  have run: "tskstat (tcbs s1 c) = TTS_RUN" if "current s1 = Some c" "\<not> msip s1" for c
  proof -
    have "tskstat (tcbs s0 c) = TTS_RUN" using S that X by (simp add: sched_ok_def receivers_gone_def)
    then show ?thesis using X by (auto simp: receivers_gone_def)
  qed
  have Q0: "Q1(MbxWaitQ j \<mapsto> []) = Q1" using q1 by auto
  have F: "Q1 FreeMbx \<noteq> None" using kinvD(2) [OF K1] by (simp add: static_def)
  have fin: "ok (dispatch_if_needed ((upd_mbx j ?f s1)\<lparr>links := h\<rparr>)) (\<lambda>s'. mstatus s' = mstatus s0 \<and> sys_inv s' \<and> deleted_mbx j ks s0 s')"
    if h: "rep h (push (MbxWaitQ j) FreeMbx (Q1(MbxMsgQ j \<mapsto> [])))" for h
  proof -
    let ?Q = "push (MbxWaitQ j) FreeMbx (Q1(MbxMsgQ j \<mapsto> []))"
    obtain ns where "?Q FreeMbx = Some (ns @ [MbxWaitQ j])" "?Q (MbxMsgQ j) = Some []" using F by (auto simp: push_def)
    then have "deleted_mbx j ks s0 ((upd_mbx j ?f s1)\<lparr>links := h, next_tsk := n, msip := b\<rparr>)" for n b
      using X ob list_of_rep [OF h, of FreeMbx] list_of_rep [OF h, of "MbxMsgQ j"]
      by (auto simp: deleted_mbx_def receivers_gone_def upd_mbx_def simp del: of_nat_Suc)
    then show ?thesis
      using dispatch_if_needed_inv [of "(upd_mbx j ?f s1)\<lparr>links := h\<rparr>" "push (MbxWaitQ j) FreeMbx (Q1(MbxMsgQ j \<mapsto> []))"]
        h I run X by (auto simp: receivers_gone_def elim!: ok_mono)
  qed
  have tl: "ok (on_links (tkmc_list_add_tail (MbxWaitQ j) FreeMbx) ((upd_mbx j ?f s1)\<lparr>links := h\<rparr>))
      (\<lambda>s2. ok (dispatch_if_needed s2) (\<lambda>s'. mstatus s' = mstatus s0 \<and> sys_inv s' \<and> deleted_mbx j ks s0 s'))"
    if h: "rep h (Q1(MbxMsgQ j \<mapsto> []))" for h
    by (rule ok_add_tail [of _ "Q1(MbxMsgQ j \<mapsto> [])"])
      (use h F fin rep_owner_idle [OF h, of "MbxWaitQ j"] q1 in \<open>auto simp: mapped_def\<close>)
  have mq: "ok (on_links (tkmc_init_list_head (MbxMsgQ j)) ((upd_mbx j ?f s1)\<lparr>links := h\<rparr>))
      (\<lambda>s2. ok (on_links (tkmc_list_add_tail (MbxWaitQ j) FreeMbx) s2)
      (\<lambda>s2. ok (dispatch_if_needed s2) (\<lambda>s'. mstatus s' = mstatus s0 \<and> sys_inv s' \<and> deleted_mbx j ks s0 s')))"
    if h: "rep h Q1" for h
    by (rule ok_init [of _ Q1]) (use h tl rep_owner_loose [OF h ms] in \<open>auto simp: mapped_def\<close>)
  show ?thesis
    by (rule ok_init [of _ Q1]) (use R1 Q0 mq rep_owner_loose [OF R1 q1] in \<open>auto simp: mapped_def\<close>)
qed

lemma tk_del_mbx_ok:
  assumes "sys_inv s"
  shows "ok (tk_del_mbx objid s) (\<lambda>(r, s'). sys_inv s' \<and> mstatus s' = mstatus s \<and> del_mbx_result objid s r s')"
  unfolding tk_del_mbx_def Let_def
proof (intro ok_ifI, goal_cases)
  case ids: 2
  define j where "j = nat (objid - 1)"
  have j: "j < CFN_MAX_MBXID" "objid = int j + 1"
    using id_in_range_index [of objid CFN_MAX_MBXID] ids by (auto simp: j_def)
  show ?case
    unfolding j_def [symmetric]
  proof (rule crit_result [where P = "del_mbx_result objid", OF assms], goal_cases)
    case (1 s0 Q)
    note R = 1(2) and G = 1(3)
    have K: "kinv s0 Q" and S: "sem_served s0 Q" "flg_served s0 Q" "sched_ok s0 Q" using G by (simp_all add: ginv_def)
    show ?case
    proof (cases "exists_id (mbxid (mbxcbs s0 j))")
      case False
      then show ?thesis using sys_invI [OF R G] ids by (simp add: j_def exists_id_def del_mbx_result_def)
    next
      case e: True
      obtain ks where q: "Q (MbxWaitQ j) = Some (map TcbWait ks)" using mbx_okD [OF K j(1) e] queue_tasks(3) [OF K] by blast
      have D: "del_mbx_result objid s0 (Return E_OK) s'" if "deleted_mbx j ks s0 s'" for s'
        using that e ids list_of_rep [OF R q] by (auto simp: del_mbx_result_def j_def)
      let ?f = "\<lambda>c. c\<lparr>mbxid := word_of_int objid OR NOEXS_MASK, mbx_exinf := NULL, mbxatr := 0\<rparr>"
      have "ok (release_receivers j s0) (\<lambda>s1. ok (on_links (tkmc_init_list_head (MbxWaitQ j)) (upd_mbx j ?f s1))
          (\<lambda>s2. ok (on_links (tkmc_init_list_head (MbxMsgQ j)) s2)
          (\<lambda>s2. ok (on_links (tkmc_list_add_tail (MbxWaitQ j) FreeMbx) s2)
          (\<lambda>s2. ok (dispatch_if_needed s2) (\<lambda>s'. mstatus s' = mstatus s0 \<and> sys_inv s' \<and> deleted_mbx j ks s0 s')))))"
        by (rule ok_mono [OF release_receivers_ok [OF R K S(1,2) q]]) (use del_mbx_finish [OF _ j e S(3)] in blast)
      then show ?thesis using e D by (auto simp: exists_id_def simp del: ok_on_links elim!: ok_mono)
    qed
  qed (auto simp: del_mbx_result_def deleted_mbx_def Let_def split: if_split_asm)
qed (use assms in \<open>simp add: del_mbx_result_def\<close>)

lemma tk_del_mbx_call_ok:
  assumes "sys_inv s"
  shows "call_ok (tk_del_mbx objid s) s"
  by (rule result_call_ok [OF tk_del_mbx_ok [OF assms]])

section \<open>Creating\<close>

text \<open>What creating does: a refusal that changes nothing, or the first free control block set up as the packet says.\<close>

definition cre_mbx_result :: "T_CMBX option \<Rightarrow> kernel \<Rightarrow> ID outcome \<Rightarrow> kernel \<Rightarrow> bool" where
  "cre_mbx_result packet s r s' \<longleftrightarrow> (case packet of None \<Rightarrow> r = Return E_PAR \<and> s' = s
   | Some pk \<Rightarrow>
     if cm_mbxatr pk AND NOT VALID_MBXATR \<noteq> 0 then r = Return E_RSATR \<and> s' = s
     else if \<forall>j < CFN_MAX_MBXID. exists_id (mbxid (mbxcbs s j)) then r = Return E_LIMIT \<and> s' = s
     else (\<exists>j ns. list_of FreeMbx (links s) = Some (MbxWaitQ j # ns) \<and> list_of FreeMbx (links s') = Some ns \<and>
       j < CFN_MAX_MBXID \<and> \<not> exists_id (mbxid (mbxcbs s j)) \<and> r = Return (int j + 1) \<and>
       mbxcbs s' = (mbxcbs s)(j := \<lparr>mbxid = of_nat (Suc j), mbx_exinf = cm_exinf pk, mbxatr = cm_mbxatr pk\<rparr>) \<and>
       list_of (MbxWaitQ j) (links s') = Some [] \<and> list_of (MbxMsgQ j) (links s') = Some [] \<and>
       tcbs s' = tcbs s \<and> semcbs s' = semcbs s \<and> flgcbs s' = flgcbs s \<and>
       current s' = current s \<and> msip s' = msip s \<and> mtime s' = mtime s))"

lemma cre_mbx_result_unmask:
  "mstatus s' = m \<Longrightarrow> cre_mbx_result pk (s\<lparr>mstatus := m\<rparr>) r s' \<Longrightarrow>
    cre_mbx_result pk s r (s'\<lparr>mstatus := mstatus s\<rparr>)"
  unfolding cre_mbx_result_def by (cases pk) (auto split: if_split_asm)

lemma created_mbx:
  assumes G: "ginv s Q" and M: "obj_move FreeMbx (MbxWaitQ j) Q ((detach (MbxWaitQ j) Q)(MbxWaitQ j \<mapsto> []))" and j: "j < CFN_MAX_MBXID"
    and x: "\<not> exists_id (mbxid (mbxcbs s j))"
  shows "((detach (MbxWaitQ j) Q)(MbxWaitQ j \<mapsto> [])) (MbxMsgQ j) = Some []"
    and "ginv (upd_mbx j (\<lambda>cb. cb\<lparr>mbxid := of_nat (Suc j), mbx_exinf := e, mbxatr := a\<rparr>) s) ((detach (MbxWaitQ j) Q)(MbxWaitQ j \<mapsto> []))"
      (is "ginv (upd_mbx j ?f s) ?Q")
proof -
  have K: "kinv s Q" and S: "sem_served s Q" using G by (simp_all add: ginv_def)
  have "Q (MbxMsgQ j) = Some []" using kinvD(7) [OF K j] x by (simp add: mbx_ok_def Let_def)
  then show m: "?Q (MbxMsgQ j) = Some []" by (simp add: ring_simps)
  have "mbx_ok (upd_mbx j ?f s) ?Q j"
    using j m number_exists [of j] by (simp add: mbx_ok_def mbx_queue_ok_def pri_sorted_def msgs_sorted_def del: of_nat_Suc)
  then have "kinv (upd_mbx j ?f s) ?Q" by (intro kinv_mbx_move [OF K M] typed_intros kinvD(1) [OF K])
  moreover have "flg_served (upd_mbx j ?f s) ?Q" using G by (auto simp: ginv_def flg_served_def ring_simps)
  moreover have "sem_served (upd_mbx j ?f s) ?Q" using obj_move_served [OF M _ _ S] by (subst sem_served_cong [of _ s]) simp_all
  ultimately show "ginv (upd_mbx j ?f s) ?Q" using G obj_move_ready [OF M] by (auto simp: ginv_def sched_ok_def)
qed

lemma tk_cre_mbx_ok:
  assumes I: "sys_inv s"
  shows "ok (tk_cre_mbx pk s) (\<lambda>(r, s'). sys_inv s' \<and> mstatus s' = mstatus s \<and> cre_mbx_result pk s r s')"
proof (cases pk)
  case (Some c)
  show ?thesis
    unfolding tk_cre_mbx_def Let_def Some option.case
  proof (intro ok_ifI, goal_cases)
    case ids: 2
    show ?case
    proof (rule crit_result [where P = "cre_mbx_result (Some c)", OF I _ cre_mbx_result_unmask], goal_cases)
      case (1 s0 Q)
      show ?case
      proof (rule mbxs.allocate [OF 1(2,3)], goal_cases)
        case 1
        then show ?case using ids \<open>rep (links s0) Q\<close> \<open>ginv s0 Q\<close> by (simp add: sys_invI cre_mbx_result_def)
      next
        case (2 j ns h)
        let ?Q = "(detach (MbxWaitQ j) Q)(MbxWaitQ j \<mapsto> [])"
        note C = created_mbx [OF 1(3) 2(3,1,6)]
        have Q0: "?Q(MbxMsgQ j \<mapsto> []) = ?Q" using C(1) by (rule map_upd_triv)
        show ?case
          unfolding ok_bind
        proof (rule ok_init [of _ ?Q], goal_cases)
          case (4 h')
          then have R: "rep h' ?Q" by (simp only: Q0)
          show ?case
            using sys_inv_links [OF R C(2)] list_of_rep [OF R, of "MbxWaitQ j"] list_of_rep [OF R C(1)] list_of_rep [OF R 2(5)] 2 ids
            by (auto simp: cre_mbx_result_def simp del: of_nat_Suc)
        qed (use 2(2) in \<open>simp_all add: mapped_def rep_owner_loose [OF 2(2) C(1)]\<close>)
      qed
    qed
  qed (use I in \<open>auto simp: cre_mbx_result_def\<close>)
qed (use I in \<open>simp add: tk_cre_mbx_def cre_mbx_result_def\<close>)

lemma tk_cre_mbx_call_ok:
  assumes "sys_inv s"
  shows "call_ok (tk_cre_mbx pk s) s"
  by (rule result_call_ok [OF tk_cre_mbx_ok [OF assms]])

end
