(* ===== verification/TK_IntCtl.thy ===== *)
theory TK_IntCtl
  imports TK_Sched
begin

text \<open>
  The interrupt controller of \<^verbatim>\<open>kernel/intctl.c\<close>: the table of handlers and the
  registers of the PLIC (\<^verbatim>\<open>kernel/asm/rv32/address.h\<close>), the calls that define a
  handler and switch a source, and the external interrupt. The handler an application defines is
  code outside the kernel, so it is a parameter of the external interrupt; the number that a
  read of the claim register gives is chosen by the device, so it is an argument.
\<close>

section \<open>State\<close>

text \<open>
  A completion is logged with the enable bit that its source and the threshold that the controller
  has at that moment: the device ignores the completion of a source that is off, and what it raises
  next is compared with the threshold.
\<close>

record intctl =
  s_handlers :: "nat \<Rightarrow> addr"
  plic_priority :: "nat \<Rightarrow> UW"
  plic_enable :: "nat \<Rightarrow> UW"
  plic_threshold :: UW
  plic_completions :: "(UINT \<times> bool \<times> UW) list"

definition PLIC_SOURCE_COUNT :: nat where "PLIC_SOURCE_COUNT = 96"
definition PLIC_MAX_PRIORITY :: int where "PLIC_MAX_PRIORITY = 7"

section \<open>Operations\<close>

definition is_intno :: "UINT \<Rightarrow> bool" where
  "is_intno intno \<longleftrightarrow> intno \<ge> 1 \<and> intno < of_nat CFN_MAX_INTNO"

definition is_enabled :: "UINT \<Rightarrow> intctl \<Rightarrow> bool" where
  "is_enabled src ic \<longleftrightarrow> drop_bit (unat (src mod 32)) (plic_enable ic (unat (src div 32))) AND 1 \<noteq> 0"

definition set_enabled :: "UINT \<Rightarrow> bool \<Rightarrow> intctl \<Rightarrow> intctl" where
  "set_enabled src on ic = (let word = plic_enable ic (unat (src div 32)); b = push_bit (unat (src mod 32)) 1 in
     ic\<lparr>plic_enable := (plic_enable ic)(unat (src div 32) := if on then word OR b else word AND NOT b)\<rparr>)"

fun init_handlers :: "nat \<Rightarrow> nat \<Rightarrow> intctl \<Rightarrow> intctl" where
  "init_handlers i 0 ic = ic"
| "init_handlers i (Suc k) ic = init_handlers (Suc i) k (ic\<lparr>s_handlers := (s_handlers ic)(i := NULL)\<rparr>)"

fun init_priorities :: "nat \<Rightarrow> nat \<Rightarrow> intctl \<Rightarrow> intctl" where
  "init_priorities i 0 ic = ic"
| "init_priorities i (Suc k) ic = init_priorities (Suc i) k (ic\<lparr>plic_priority := (plic_priority ic)(i := 0)\<rparr>)"

fun init_enables :: "nat \<Rightarrow> nat \<Rightarrow> intctl \<Rightarrow> intctl" where
  "init_enables i 0 ic = ic"
| "init_enables i (Suc k) ic = init_enables (Suc i) k (ic\<lparr>plic_enable := (plic_enable ic)((32 * i) div 32 := 0)\<rparr>)"

definition tkmc_init_intctl :: "intctl \<Rightarrow> intctl" where
  "tkmc_init_intctl ic = (let
       ic = init_handlers 0 CFN_MAX_INTNO ic;
       ic = init_priorities 1 (PLIC_SOURCE_COUNT - 1) ic;
       ic = init_enables 0 ((PLIC_SOURCE_COUNT + 31) div 32) ic
     in ic\<lparr>plic_threshold := 0\<rparr>)"

record T_DINT =
  intatr :: ATR
  inthdr :: addr

definition tk_def_int :: "UINT \<Rightarrow> T_DINT option \<Rightarrow> kernel \<times> intctl \<Rightarrow> ER \<times> kernel \<times> intctl" where
  "tk_def_int intno pk_dint st = (case st of (s, ic) \<Rightarrow> case DI s of (intsts, s) \<Rightarrow>
     let (ercd, ic) =
       (if isDI intsts \<or> tkmc_in_isr s then (E_CTX, ic)
        else if \<not> is_intno intno then (E_PAR, ic)
        else (case pk_dint of
            None \<Rightarrow> (E_OK, ic\<lparr>s_handlers := (s_handlers ic)(unat intno := NULL)\<rparr>)
          | Some d \<Rightarrow>
              if intatr d \<noteq> TA_HLNG then (E_RSATR, ic)
              else if inthdr d = NULL then (E_PAR, ic)
              else (E_OK, ic\<lparr>s_handlers := (s_handlers ic)(unat intno := inthdr d)\<rparr>)))
     in (ercd, EI intsts s, ic))"

definition EnableInt :: "UINT \<Rightarrow> int \<Rightarrow> kernel \<times> intctl \<Rightarrow> kernel \<times> intctl" where
  "EnableInt intno level st = (case st of (s, ic) \<Rightarrow>
     if \<not> is_intno intno \<or> level < 1 \<or> level > PLIC_MAX_PRIORITY then (s, ic)
     else case DI s of (intsts, s) \<Rightarrow>
       let ic = ic\<lparr>plic_priority := (plic_priority ic)(unat intno := word_of_int level)\<rparr>;
           ic = set_enabled intno True ic;
           ic = ic\<lparr>plic_threshold := plic_threshold ic\<rparr>
       in (EI intsts s, ic))"

definition DisableInt :: "UINT \<Rightarrow> kernel \<times> intctl \<Rightarrow> kernel \<times> intctl" where
  "DisableInt intno st = (case st of (s, ic) \<Rightarrow>
     if \<not> is_intno intno then (s, ic)
     else case DI s of (intsts, s) \<Rightarrow> (EI intsts s, set_enabled intno False ic))"

definition complete :: "UINT \<Rightarrow> intctl \<Rightarrow> intctl" where
  "complete intno ic = ic\<lparr>plic_completions := plic_completions ic @ [(intno, is_enabled intno ic, plic_threshold ic)]\<rparr>"

definition tkmc_external_interrupt ::
  "(addr \<Rightarrow> UINT \<Rightarrow> kernel \<times> intctl \<Rightarrow> kernel \<times> intctl) \<Rightarrow> UINT \<Rightarrow> kernel \<times> intctl \<Rightarrow> kernel \<times> intctl" where
  "tkmc_external_interrupt run intno st =
     (if intno = 0 then st
      else let
        handler = (if is_intno intno then s_handlers (snd st) (unat intno) else NULL);
        (s, ic) = (if handler \<noteq> NULL then let
            (s, ic) = st;
            threshold = plic_threshold ic;
            ic = ic\<lparr>plic_threshold := plic_priority ic (unat intno)\<rparr>;
            (s, ic) = run handler intno (s, ic)
          in (s, ic\<lparr>plic_threshold := threshold\<rparr>) else st);
        stays_on = (handler \<noteq> NULL \<and> is_enabled intno ic);
        ic = set_enabled intno True ic;
        ic = complete intno ic
      in (s, if \<not> stays_on then set_enabled intno False ic else ic))"

section \<open>Enable bits\<close>

lemma is_enabled_bit: "is_enabled src ic \<longleftrightarrow> bit (plic_enable ic (unat (src div 32))) (unat (src mod 32))"
  by (simp add: is_enabled_def and_one_eq bit_iff_odd_drop_bit odd_iff_mod_2_eq_one)

lemma src_split: "(src :: UINT) = src' \<longleftrightarrow> unat (src div 32) = unat (src' div 32) \<and> unat (src mod 32) = unat (src' mod 32)"
proof
  assume "unat (src div 32) = unat (src' div 32) \<and> unat (src mod 32) = unat (src' mod 32)"
  then have "src div 32 = src' div 32" "src mod 32 = src' mod 32" by (simp_all only: word_unat_eq_iff)
  then show "src = src'" by (metis div_mult_mod_eq)
qed simp

lemma src_bit_lt: "unat ((src :: UINT) mod 32) < 32"
  using unat_mod [of src 32] by simp

lemma is_enabled_set:
  "is_enabled src (set_enabled src' on ic) \<longleftrightarrow> (if src = src' then on else is_enabled src ic)"
proof (cases "unat (src div 32) = unat (src' div 32)")
  case True
  then show ?thesis
    using src_bit_lt [of src] src_split [of src src']
    by (auto simp: is_enabled_bit set_enabled_def Let_def bit_simps)
next
  case False
  then show ?thesis using src_split [of src src'] by (auto simp: is_enabled_bit set_enabled_def Let_def)
qed

lemma set_enabled_frame [simp]:
  "s_handlers (set_enabled src on ic) = s_handlers ic"
  "plic_priority (set_enabled src on ic) = plic_priority ic"
  "plic_threshold (set_enabled src on ic) = plic_threshold ic"
  "plic_completions (set_enabled src on ic) = plic_completions ic"
  by (simp_all add: set_enabled_def Let_def)

section \<open>The external interrupt\<close>

lemma is_enabled_frame [simp]:
  "is_enabled src (ic\<lparr>plic_threshold := t\<rparr>) = is_enabled src ic"
  "is_enabled src (ic\<lparr>plic_priority := p\<rparr>) = is_enabled src ic"
  "is_enabled src (ic\<lparr>plic_completions := c\<rparr>) = is_enabled src ic"
  "is_enabled src (ic\<lparr>s_handlers := g\<rparr>) = is_enabled src ic"
  by (simp_all add: is_enabled_def)

lemma complete_frame [simp]:
  "is_enabled src (complete intno ic) = is_enabled src ic"
  "s_handlers (complete intno ic) = s_handlers ic"
  "plic_priority (complete intno ic) = plic_priority ic"
  "plic_threshold (complete intno ic) = plic_threshold ic"
  "plic_completions (complete intno ic) = plic_completions ic @ [(intno, is_enabled intno ic, plic_threshold ic)]"
  by (simp_all add: complete_def)

lemma external_no_source: "tkmc_external_interrupt run 0 st = st"
  by (simp add: tkmc_external_interrupt_def)

lemma external_default:
  assumes "intno \<noteq> 0" and "\<not> is_intno intno \<or> s_handlers ic (unat intno) = NULL"
  shows "tkmc_external_interrupt run intno (s, ic) =
    (s, set_enabled intno False (complete intno (set_enabled intno True ic)))"
  using assms by (auto simp: tkmc_external_interrupt_def Let_def)

lemma external_served:
  assumes "intno \<noteq> 0" and "is_intno intno" and "s_handlers ic (unat intno) = f" and "f \<noteq> NULL"
    and r: "run f intno (s, ic\<lparr>plic_threshold := plic_priority ic (unat intno)\<rparr>) = (s', ic')"
  shows "tkmc_external_interrupt run intno (s, ic) = (s',
    let ic2 = complete intno (set_enabled intno True (ic'\<lparr>plic_threshold := plic_threshold ic\<rparr>)) in
    if is_enabled intno ic' then ic2 else set_enabled intno False ic2)"
  using assms by (simp add: tkmc_external_interrupt_def Let_def)

section \<open>Initialisation\<close>

lemma init_handlers_eq:
  "s_handlers (init_handlers i k ic) j = (if i \<le> j \<and> j < i + k then 0 else s_handlers ic j) \<and>
    plic_priority (init_handlers i k ic) = plic_priority ic \<and>
    plic_enable (init_handlers i k ic) = plic_enable ic \<and>
    plic_threshold (init_handlers i k ic) = plic_threshold ic \<and>
    plic_completions (init_handlers i k ic) = plic_completions ic"
  by (induction k arbitrary: i ic) auto

lemma init_priorities_eq:
  "plic_priority (init_priorities i k ic) j = (if i \<le> j \<and> j < i + k then 0 else plic_priority ic j) \<and>
    s_handlers (init_priorities i k ic) = s_handlers ic \<and>
    plic_enable (init_priorities i k ic) = plic_enable ic \<and>
    plic_threshold (init_priorities i k ic) = plic_threshold ic \<and>
    plic_completions (init_priorities i k ic) = plic_completions ic"
  by (induction k arbitrary: i ic) auto

lemma init_enables_eq:
  "plic_enable (init_enables i k ic) j = (if i \<le> j \<and> j < i + k then 0 else plic_enable ic j) \<and>
    s_handlers (init_enables i k ic) = s_handlers ic \<and>
    plic_priority (init_enables i k ic) = plic_priority ic \<and>
    plic_threshold (init_enables i k ic) = plic_threshold ic \<and>
    plic_completions (init_enables i k ic) = plic_completions ic"
  by (induction k arbitrary: i ic) auto

lemma init_intctl_clean:
  shows "n < CFN_MAX_INTNO \<Longrightarrow> s_handlers (tkmc_init_intctl ic) n = NULL"
    and "1 \<le> n \<Longrightarrow> n < PLIC_SOURCE_COUNT \<Longrightarrow> plic_priority (tkmc_init_intctl ic) n = 0"
    and "unat src < PLIC_SOURCE_COUNT \<Longrightarrow> \<not> is_enabled src (tkmc_init_intctl ic)"
    and "plic_threshold (tkmc_init_intctl ic) = 0"
proof -
  show "n < CFN_MAX_INTNO \<Longrightarrow> s_handlers (tkmc_init_intctl ic) n = NULL"
    and "1 \<le> n \<Longrightarrow> n < PLIC_SOURCE_COUNT \<Longrightarrow> plic_priority (tkmc_init_intctl ic) n = 0"
    and "plic_threshold (tkmc_init_intctl ic) = 0"
    by (simp_all add: tkmc_init_intctl_def Let_def init_handlers_eq init_priorities_eq init_enables_eq)
  assume "unat src < PLIC_SOURCE_COUNT"
  then have "unat (src div 32) < 3" by (simp add: PLIC_SOURCE_COUNT_def unat_div)
  then show "\<not> is_enabled src (tkmc_init_intctl ic)"
    by (simp add: is_enabled_bit tkmc_init_intctl_def Let_def init_enables_eq PLIC_SOURCE_COUNT_def)
qed

section \<open>Properties\<close>

definition handled :: "UINT \<Rightarrow> intctl \<Rightarrow> bool" where
  "handled intno ic \<longleftrightarrow> is_intno intno \<and> s_handlers ic (unat intno) \<noteq> NULL"

definition after_handler ::
  "(addr \<Rightarrow> UINT \<Rightarrow> kernel \<times> intctl \<Rightarrow> kernel \<times> intctl) \<Rightarrow> UINT \<Rightarrow> kernel \<times> intctl \<Rightarrow> kernel \<times> intctl" where
  "after_handler run intno st = (case st of (s, ic) \<Rightarrow>
     if handled intno ic then run (s_handlers ic (unat intno)) intno (s, ic\<lparr>plic_threshold := plic_priority ic (unat intno)\<rparr>)
     else st)"

lemma external_cases:
  assumes "intno \<noteq> 0"
  obtains s1 ic1 where "after_handler run intno (s, ic) = (s1, ic1)"
    and "tkmc_external_interrupt run intno (s, ic) = (s1,
      let ic2 = complete intno (set_enabled intno True (ic1\<lparr>plic_threshold := plic_threshold ic\<rparr>)) in
      if handled intno ic \<and> is_enabled intno ic1 then ic2 else set_enabled intno False ic2)"
proof (cases "handled intno ic")
  case True
  obtain s1 ic1 where r: "run (s_handlers ic (unat intno)) intno (s, ic\<lparr>plic_threshold := plic_priority ic (unat intno)\<rparr>) = (s1, ic1)"
    by (cases "run (s_handlers ic (unat intno)) intno (s, ic\<lparr>plic_threshold := plic_priority ic (unat intno)\<rparr>)")
  show ?thesis
    by (rule that [of s1 ic1])
      (use True r assms external_served [of intno ic _ run s s1 ic1] in \<open>auto simp: handled_def after_handler_def Let_def\<close>)
next
  case False
  then have e: "tkmc_external_interrupt run intno (s, ic) =
      (s, set_enabled intno False (complete intno (set_enabled intno True ic)))"
    by (intro external_default assms) (auto simp: handled_def)
  show ?thesis
    by (rule that [of s ic]) (use False e in \<open>auto simp: after_handler_def Let_def\<close>)
qed

definition sample_ic :: intctl where
  "sample_ic = \<lparr>s_handlers = (\<lambda>_. 0x80000400), plic_priority = (\<lambda>_. 2), plic_enable = (\<lambda>_. 0xff),
     plic_threshold = 0, plic_completions = []\<rparr>"

text \<open>
  C37: an external interrupt is completed exactly once: after its handler, with the threshold of the
  interrupted code put back, and while its source is on, so the controller takes the completion
  and compares what it raises next with that threshold. Only after the completion is the source
  switched off, which it is unless it has a handler that left it on; the enable bits of the other
  sources are as the handler left them.
\<close>

theorem external_interrupt_completes:
  assumes "intno \<noteq> 0" and "after_handler run intno (s, ic) = (s1, ic1)"
  shows "\<exists>ic'. tkmc_external_interrupt run intno (s, ic) = (s1, ic') \<and>
    plic_completions ic' = plic_completions ic1 @ [(intno, True, plic_threshold ic)] \<and> plic_threshold ic' = plic_threshold ic \<and>
    (is_enabled intno ic' \<longleftrightarrow> handled intno ic \<and> is_enabled intno ic1) \<and>
    (\<forall>src. src \<noteq> intno \<longrightarrow> is_enabled src ic' = is_enabled src ic1)"
proof -
  let ?ic = "complete intno (set_enabled intno True (ic1\<lparr>plic_threshold := plic_threshold ic\<rparr>))"
  have "tkmc_external_interrupt run intno (s, ic) =
      (s1, if handled intno ic \<and> is_enabled intno ic1 then ?ic else set_enabled intno False ?ic)"
    by (rule external_cases [OF assms(1), of run s ic]) (use assms(2) in \<open>simp add: Let_def\<close>)
  then show ?thesis by (simp add: is_enabled_set)
qed

theorem external_interrupt_completes_witness:
  "\<forall>s. \<exists>ic'. tkmc_external_interrupt (\<lambda>_ _ (s, ic). (s, set_enabled 3 False ic)) 3 (s, sample_ic) = (s, ic') \<and>
    plic_completions ic' = [(3, True, 0)] \<and> plic_threshold ic' = 0 \<and> \<not> is_enabled 3 ic' \<and> is_enabled 4 ic'"
proof
  fix s
  have "after_handler (\<lambda>_ _ (s, ic). (s, set_enabled 3 False ic)) 3 (s, sample_ic) =
      (s, set_enabled 3 False (sample_ic\<lparr>plic_threshold := 2\<rparr>))"
    by (simp add: after_handler_def handled_def is_intno_def sample_ic_def)
  moreover have "is_enabled 4 sample_ic" "plic_completions sample_ic = []" "plic_threshold sample_ic = 0"
    by (simp_all add: sample_ic_def is_enabled_def)
  ultimately show "\<exists>ic'. tkmc_external_interrupt (\<lambda>_ _ (s, ic). (s, set_enabled 3 False ic)) 3 (s, sample_ic) = (s, ic') \<and>
      plic_completions ic' = [(3, True, 0)] \<and> plic_threshold ic' = 0 \<and> \<not> is_enabled 3 ic' \<and> is_enabled 4 ic'"
    using external_interrupt_completes [of 3 "\<lambda>_ _ (s, ic). (s, set_enabled 3 False ic)" s sample_ic s]
    by (auto simp: is_enabled_set)
qed

text \<open>A served interrupt runs its handler on the state it finds, with the threshold at the priority of the source.\<close>

lemma external_runs:
  assumes "is_intno intno" and "s_handlers ic (unat intno) \<noteq> NULL"
  shows "fst (tkmc_external_interrupt run intno (s, ic)) =
    fst (run (s_handlers ic (unat intno)) intno (s, ic\<lparr>plic_threshold := plic_priority ic (unat intno)\<rparr>))"
proof -
  have "intno \<noteq> 0" using assms(1) by (auto simp: is_intno_def)
  then show ?thesis
    using assms by (cases "run (s_handlers ic (unat intno)) intno (s, ic\<lparr>plic_threshold := plic_priority ic (unat intno)\<rparr>)")
      (simp add: external_served)
qed

lemma external_switches_off:
  assumes "is_intno intno" and "s_handlers ic (unat intno) = NULL"
  shows "fst (tkmc_external_interrupt run intno (s, ic)) = s \<and> \<not> is_enabled intno (snd (tkmc_external_interrupt run intno (s, ic)))"
proof -
  have "intno \<noteq> 0" using assms(1) by (auto simp: is_intno_def)
  then show ?thesis using assms by (simp add: external_default is_enabled_set)
qed

lemma def_int_cases:
  assumes "tk_def_int intno pk (s, ic) = (ercd, s', ic')"
  obtains (refused) "s' = s" and "ic' = ic" and "ercd = (if mstatus s AND MSTATUS_MIE = 0 \<or> tkmc_in_isr s then E_CTX
      else if is_intno intno \<and> (\<exists>d. pk = Some d \<and> intatr d \<noteq> TA_HLNG) then E_RSATR else E_PAR)"
    and "mstatus s AND MSTATUS_MIE = 0 \<or> tkmc_in_isr s \<or> \<not> is_intno intno \<or> (\<exists>d. pk = Some d \<and> (intatr d \<noteq> TA_HLNG \<or> inthdr d = NULL))"
  | (accepted) "s' = s" and "ercd = E_OK" and "ic' = ic\<lparr>s_handlers := (s_handlers ic)(unat intno := case pk of None \<Rightarrow> NULL | Some d \<Rightarrow> inthdr d)\<rparr>"
    and "mstatus s AND MSTATUS_MIE \<noteq> 0" and "\<not> tkmc_in_isr s" and "is_intno intno" and "\<forall>d. pk = Some d \<longrightarrow> intatr d = TA_HLNG \<and> inthdr d \<noteq> NULL"
  using assms
  by (cases pk) (auto simp: tk_def_int_def DI_def Let_def EI_restores tkmc_in_isr_def split: if_split_asm)

text \<open>
  C38: what \<^verbatim>\<open>tk_def_int\<close> answers and what it changes, for a definition and for the call that cancels one.
  It succeeds exactly for a number of the table, from a task with interrupts on, with no packet or
  one that has the attribute of a C handler and an address. With interrupts masked or in a handler it
  fails with E_CTX; elsewhere with E_RSATR if the number is in the table and the packet has other
  attributes, and else with E_PAR. A refusal leaves the table as it was; a success changes the entry of that
  number only, and so that the next interrupt of that number runs the handler of the packet, or
  after a cancellation runs none and switches the source off. The interrupt state is left as it was.
\<close>

theorem def_int_result:
  assumes "tk_def_int intno pk (s, ic) = (ercd, s', ic')"
  shows "s' = s \<and> ercd \<in> {E_OK, E_CTX, E_RSATR, E_PAR} \<and>
    (ercd = E_OK \<longleftrightarrow> mstatus s AND MSTATUS_MIE \<noteq> 0 \<and> \<not> tkmc_in_isr s \<and> is_intno intno \<and>
      (\<forall>d. pk = Some d \<longrightarrow> intatr d = TA_HLNG \<and> inthdr d \<noteq> NULL)) \<and>
    (ercd = E_CTX \<longleftrightarrow> mstatus s AND MSTATUS_MIE = 0 \<or> tkmc_in_isr s) \<and>
    (ercd = E_RSATR \<longleftrightarrow> mstatus s AND MSTATUS_MIE \<noteq> 0 \<and> \<not> tkmc_in_isr s \<and> is_intno intno \<and> (\<exists>d. pk = Some d \<and> intatr d \<noteq> TA_HLNG)) \<and>
    ic' = ic\<lparr>s_handlers := s_handlers ic'\<rparr> \<and>
    (\<forall>n. ercd \<noteq> E_OK \<or> n \<noteq> unat intno \<longrightarrow> s_handlers ic' n = s_handlers ic n) \<and>
    (ercd = E_OK \<longrightarrow> (case pk of
        Some d \<Rightarrow> fst (tkmc_external_interrupt run intno (t, ic')) =
          fst (run (inthdr d) intno (t, ic'\<lparr>plic_threshold := plic_priority ic' (unat intno)\<rparr>))
      | None \<Rightarrow> fst (tkmc_external_interrupt run intno (t, ic')) = t \<and>
          \<not> is_enabled intno (snd (tkmc_external_interrupt run intno (t, ic')))))"
  using assms
proof (cases rule: def_int_cases)
  case accepted
  then show ?thesis
    using external_runs [of intno ic' run t] external_switches_off [of intno ic' run t]
    by (cases pk) (simp_all add: er_defs)
qed (auto simp: er_defs)

theorem def_int_result_witness:
  "\<forall>s run t. \<exists>ic'. tk_def_int 3 (Some \<lparr>intatr = TA_HLNG, inthdr = 0x80000500\<rparr>) (s\<lparr>mstatus := 8, isr_depth := 0\<rparr>, sample_ic) =
     (E_OK, s\<lparr>mstatus := 8, isr_depth := 0\<rparr>, ic') \<and> s_handlers ic' 4 = 0x80000400 \<and>
     fst (tkmc_external_interrupt run 3 (t, ic')) = fst (run 0x80000500 3 (t, ic'\<lparr>plic_threshold := 2\<rparr>))"
proof (intro allI)
  fix s :: kernel and run t
  let ?pk = "Some \<lparr>intatr = TA_HLNG, inthdr = 0x80000500\<rparr>" and ?s = "s\<lparr>mstatus := 8, isr_depth := 0\<rparr>"
  obtain ercd s' ic' where r: "tk_def_int 3 ?pk (?s, sample_ic) = (ercd, s', ic')" by (rule prod_cases3)
  have u: "is_intno 3" "mstatus ?s AND MSTATUS_MIE \<noteq> 0" "\<not> tkmc_in_isr ?s" by (simp_all add: is_intno_def MSTATUS_MIE_def tkmc_in_isr_def)
  note D = def_int_result [OF r, of run t]
  have e: "ercd = E_OK" using D u by simp
  have "plic_priority ic' = plic_priority sample_ic" using D by (metis intctl.select_convs(2) intctl.surjective intctl.update_convs(1))
  then show "\<exists>ic'. tk_def_int 3 ?pk (?s, sample_ic) = (E_OK, ?s, ic') \<and> s_handlers ic' 4 = 0x80000400 \<and>
      fst (tkmc_external_interrupt run 3 (t, ic')) = fst (run 0x80000500 3 (t, ic'\<lparr>plic_threshold := 2\<rparr>))"
    using D r e by (auto simp: sample_ic_def)
qed

text \<open>
  \<^verbatim>\<open>EnableInt\<close> and \<^verbatim>\<open>DisableInt\<close> switch one source and no other, give it the level asked for, and ignore
  a number outside the table or a level the controller does not have.
\<close>

lemma enable_disable_int:
  "(case EnableInt intno level (s, ic) of (s', ic') \<Rightarrow> s' = s \<and>
     (if is_intno intno \<and> 1 \<le> level \<and> level \<le> PLIC_MAX_PRIORITY
      then (\<forall>src. is_enabled src ic' \<longleftrightarrow> src = intno \<or> is_enabled src ic) \<and> plic_priority ic' (unat intno) = word_of_int level
      else ic' = ic)) \<and>
   (case DisableInt intno (s, ic) of (s', ic') \<Rightarrow> s' = s \<and>
     (if is_intno intno then (\<forall>src. is_enabled src ic' \<longleftrightarrow> src \<noteq> intno \<and> is_enabled src ic) else ic' = ic))"
  by (auto simp: EnableInt_def DisableInt_def DI_def Let_def EI_restores is_enabled_set)

end
