(* ===== verification/TK_Start.thy ===== *)
theory TK_Start
  imports TK_Mailbox TK_IntCtl
begin

text \<open>
  The start of the kernel, \<^verbatim>\<open>kernel/start.c\<close>, with the fatal stop of
  \<^verbatim>\<open>kernel/panic.c\<close>: clearing the data section, the initialisation of every table, the
  two first tasks, and the switch from one task to another (\<^verbatim>\<open>schedule\<close>) with the
  trap entries of \<^verbatim>\<open>kernel/asm/rv32/start.S\<close> that call it. The addresses the linker
  chooses (the stacks and the entry points) are parameters.
\<close>

section \<open>Starting\<close>

definition zero_tcb :: TCB where
  "zero_tcb = \<lparr>tskid = 0, itskpri = 0, tskstat = TTS_NOEXS, tskwait = TTW_NONE, sp = NULL, initial_sp = NULL,
     task = NULL, exinf = NULL, delay_ticks = 0, wupcause = E_OK, wupcnt = 0, winfo = WZero\<rparr>"

definition clear_bss :: "kernel \<Rightarrow> kernel" where
  "clear_bss s = s\<lparr>links := \<lparr>nxt = (\<lambda>_. Null), prv = (\<lambda>_. Null)\<rparr>, tcbs := (\<lambda>_. zero_tcb),
     semcbs := (\<lambda>_. \<lparr>semid = 0, sem_exinf = NULL, sematr = 0, semcnt = 0, maxsem = 0\<rparr>),
     flgcbs := (\<lambda>_. \<lparr>flgid = 0, flg_exinf = NULL, flgatr = 0, flgptn = 0\<rparr>),
     mbxcbs := (\<lambda>_. \<lparr>mbxid = 0, mbx_exinf = NULL, mbxatr = 0\<rparr>),
     current := None, next_tsk := None, isr_depth := 0, s_mtimecmp := 0,
     last_context_failure := (TKMC_CONTEXT_NONE, E_OK), last_startup_failure := (TKMC_STARTUP_NONE, E_OK)\<rparr>"

partial_function (option) tkmc_startup_panic :: "startup_stage \<Rightarrow> ER \<Rightarrow> kernel \<Rightarrow> kernel option" where
  "tkmc_startup_panic stage error s = tkmc_startup_panic stage error s"

lemma startup_panic_stops: "tkmc_startup_panic stage error s = None"
  by (cases "tkmc_startup_panic stage error s") (auto dest: tkmc_startup_panic.raw_induct [rotated, where P = "\<lambda>_ _ _ _. False"])

definition tkmc_fatal_startup :: "startup_stage \<Rightarrow> ER \<Rightarrow> kernel \<Rightarrow> (unit outcome \<times> kernel) option" where
  "tkmc_fatal_startup stage error s =
     Some (Halt, (snd (DI s))\<lparr>last_startup_failure := (stage, error)\<rparr>)"

record image =
  ini_tsk_stack :: addr
  idl_tsk_stack :: addr
  ini_entry :: addr
  idl_entry :: addr

definition STACK_BYTES :: int where "STACK_BYTES = 512"

definition ini_ctsk :: "image \<Rightarrow> T_CTSK" where
  "ini_ctsk im = \<lparr>c_exinf = NULL, c_tskatr = TA_USERBUF, c_task = ini_entry im, c_itskpri = 1,
     c_stksz = STACK_BYTES, c_bufptr = ini_tsk_stack im\<rparr>"

definition idl_ctsk :: "image \<Rightarrow> T_CTSK" where
  "idl_ctsk im = \<lparr>c_exinf = NULL, c_tskatr = TA_USERBUF, c_task = idl_entry im, c_itskpri = int CFN_MAX_PRI,
     c_stksz = STACK_BYTES, c_bufptr = idl_tsk_stack im\<rparr>"

definition init_tables :: "kernel \<Rightarrow> kernel option" where
  "init_tables s = do {
     s \<leftarrow> tkmc_init_tcb s;
     s \<leftarrow> tkmc_init_flgcb s;
     s \<leftarrow> tkmc_init_semcb s;
     s \<leftarrow> tkmc_init_timer s;
     tkmc_init_mbxcb s }"

text \<open>Creating and starting one of the two first tasks; a refusal stops the system.\<close>

definition start_task :: "startup_stage \<Rightarrow> startup_stage \<Rightarrow> T_CTSK \<Rightarrow> int \<Rightarrow> kernel \<Rightarrow> (unit outcome \<times> kernel) option" where
  "start_task cre sta pk a0 s = do {
     (r, s) \<leftarrow> tk_cre_tsk (Some pk) s;
     (case r of Return objid \<Rightarrow>
         if objid \<le> 0 then tkmc_fatal_startup cre objid s
         else do {
           (r, s) \<leftarrow> tk_sta_tsk objid a0 s;
           (case r of Return error \<Rightarrow>
               if error \<noteq> E_OK then tkmc_fatal_startup sta error s else Some (Return (), s)
            | _ \<Rightarrow> None) }
      | _ \<Rightarrow> None) }"

definition tkmc_start :: "image \<Rightarrow> int \<Rightarrow> kernel \<times> intctl \<Rightarrow> (unit outcome \<times> kernel \<times> intctl) option" where
  "tkmc_start im a0 st = (case st of (s, ic) \<Rightarrow> do {
     let s = clear_bss s;
     s \<leftarrow> init_tables s;
     let ic = tkmc_init_intctl ic;
     (r, s) \<leftarrow> start_task TKMC_STARTUP_INITIAL_CREATE TKMC_STARTUP_INITIAL_START (ini_ctsk im) a0 s;
     if r = Halt then Some (Halt, s, ic)
     else do {
       (r, s) \<leftarrow> start_task TKMC_STARTUP_IDLE_CREATE TKMC_STARTUP_IDLE_START (idl_ctsk im) a0 s;
       if r = Halt then Some (Halt, s, ic)
       else do {
         t \<leftarrow> tkmc_get_highest_priority_task s;
         tcb \<leftarrow> t;
         let s = upd_tcb tcb (\<lambda>t. t\<lparr>tskstat := TTS_RUN\<rparr>) s;
         let s = s\<lparr>current := Some tcb\<rparr>;
         s \<leftarrow> tkmc_start_timer s;
         Some (Return (), EI 0 s, ic) } } })"

section \<open>Switching tasks\<close>

definition schedule :: "addr \<Rightarrow> kernel \<Rightarrow> (addr \<times> kernel) option" where
  "schedule frame s = do {
     tmp \<leftarrow> current s;
     let s = upd_tcb tmp (\<lambda>t. t\<lparr>sp := frame\<rparr>) s;
     let s = (if tskstat (tcbs s tmp) = TTS_RUN then upd_tcb tmp (\<lambda>t. t\<lparr>tskstat := TTS_RDY\<rparr>) s else s);
     n \<leftarrow> next_tsk s;
     let s = upd_tcb n (\<lambda>t. t\<lparr>tskstat := TTS_RUN\<rparr>) s;
     let s = s\<lparr>current := next_tsk s\<rparr>;
     Some (sp (tcbs s n), s) }"

definition enter_isr :: "kernel \<Rightarrow> kernel" where
  "enter_isr s = s\<lparr>isr_depth := isr_depth s + 1\<rparr>"

definition leave_isr :: "kernel \<Rightarrow> kernel" where
  "leave_isr s = s\<lparr>isr_depth := isr_depth s - 1\<rparr>"

text \<open>The software interrupt, and the end of the two other traps, which serve a pending switch.\<close>

definition mtrap_handler :: "addr \<Rightarrow> kernel \<Rightarrow> (addr \<times> kernel) option" where
  "mtrap_handler frame s = do {
     let s = enter_isr s;
     let s = s\<lparr>msip := False\<rparr>;
     (frame, s) \<leftarrow> schedule frame s;
     Some (frame, leave_isr s) }"

definition serve_msip :: "addr \<Rightarrow> kernel \<Rightarrow> (addr \<times> kernel) option" where
  "serve_msip frame s = (if msip s then schedule frame (s\<lparr>msip := False\<rparr>) else Some (frame, s))"

definition timer_interrupt :: "addr \<Rightarrow> kernel \<Rightarrow> (addr \<times> kernel) option" where
  "timer_interrupt frame s = do {
     s \<leftarrow> tkmc_timer_handler (enter_isr s);
     (frame, s) \<leftarrow> serve_msip frame s;
     Some (frame, leave_isr s) }"

section \<open>The tables after the initialisation\<close>

text \<open>
  What the lists hold while the tables are built: how many entries of each table are done, and
  which of the heads are initialised.
\<close>

definition stage :: "nat option \<Rightarrow> nat \<Rightarrow> nat option \<Rightarrow> nat option \<Rightarrow> bool \<Rightarrow> nat option \<Rightarrow> rings" where
  "stage t r f s tm m q = (case q of
       FreeTcb \<Rightarrow> map_option (\<lambda>n. map TcbHead [0..<n]) t
     | TcbWait i \<Rightarrow> (case t of Some n \<Rightarrow> if i < n then Some [] else None | None \<Rightarrow> None)
     | ReadyQ p \<Rightarrow> if p < r then Some [] else None
     | FreeFlg \<Rightarrow> map_option (\<lambda>n. map FlgQ [0..<n]) f
     | FreeSem \<Rightarrow> map_option (\<lambda>n. map SemQ [0..<n]) s
     | TimerQ \<Rightarrow> if tm then Some [] else None
     | FreeMbx \<Rightarrow> map_option (\<lambda>n. map MbxWaitQ [0..<n]) m
     | MbxMsgQ j \<Rightarrow> (case m of Some n \<Rightarrow> if j < n then Some [] else None | None \<Rightarrow> None)
     | _ \<Rightarrow> None)"

lemma in_stage:
  "in_ring (stage t r f s tm m) q n \<longleftrightarrow>
     (\<exists>k i. q = FreeTcb \<and> n = TcbHead i \<and> t = Some k \<and> i < k) \<or>
     (\<exists>k i. q = FreeFlg \<and> n = FlgQ i \<and> f = Some k \<and> i < k) \<or>
     (\<exists>k i. q = FreeSem \<and> n = SemQ i \<and> s = Some k \<and> i < k) \<or>
     (\<exists>k i. q = FreeMbx \<and> n = MbxWaitQ i \<and> m = Some k \<and> i < k)"
  by (cases q) (auto simp: in_ring_def stage_def split: option.splits if_splits)

lemma rep_blank: "rep h (stage None 0 None None False None)"
  by (auto simp: rep_def stage_def split: node.splits)

lemma loose_stage [simp]:
  "loose FreeTcb (stage t r f s tm m)" "loose FreeFlg (stage t r f s tm m)" "loose FreeSem (stage t r f s tm m)"
  "loose FreeMbx (stage t r f s tm m)" "loose TimerQ (stage t r f s tm m)" "loose (ReadyQ p) (stage t r f s tm m)"
  "loose (TcbWait i) (stage t r f s tm m)" "loose (MbxMsgQ j) (stage t r f s tm m)"
  "loose (FlgQ i) (stage t r (Some i) s tm m)" "loose (SemQ i) (stage t r f (Some i) tm m)"
  "loose (MbxWaitQ i) (stage t r f s tm (Some i))" "loose (TcbHead i) (stage (Some i) r f s tm m)"
  by (auto simp: loose_def in_stage)

lemma stage_head:
  "(stage None r f s tm m)(FreeTcb \<mapsto> []) = stage (Some 0) r f s tm m"
  "(stage t r None s tm m)(FreeFlg \<mapsto> []) = stage t r (Some 0) s tm m"
  "(stage t r f None tm m)(FreeSem \<mapsto> []) = stage t r f (Some 0) tm m"
  "(stage t r f s tm None)(FreeMbx \<mapsto> []) = stage t r f s tm (Some 0)"
  "(stage t r f s False m)(TimerQ \<mapsto> []) = stage t r f s True m"
  "(stage t p f s tm m)(ReadyQ p \<mapsto> []) = stage t (Suc p) f s tm m"
  by (rule ext, simp add: stage_def split: node.splits)+

lemma stage_push:
  "push (TcbHead i) FreeTcb ((stage (Some i) r f s tm m)(TcbHead i \<mapsto> [], TcbWait i \<mapsto> [])) = stage (Some (Suc i)) r f s tm m"
  "push (FlgQ i) FreeFlg ((stage t r (Some i) s tm m)(FlgQ i \<mapsto> [])) = stage t r (Some (Suc i)) s tm m"
  "push (SemQ i) FreeSem ((stage t r f (Some i) tm m)(SemQ i \<mapsto> [])) = stage t r f (Some (Suc i)) tm m"
  "push (MbxWaitQ i) FreeMbx ((stage t r f s tm (Some i))(MbxWaitQ i \<mapsto> [], MbxMsgQ i \<mapsto> [])) = stage t r f s tm (Some (Suc i))"
  by (rule ext, simp add: push_def stage_def less_Suc_eq split: node.splits)+


definition same_env :: "kernel \<Rightarrow> kernel \<Rightarrow> bool" where
  "same_env s s' \<longleftrightarrow> current s' = current s \<and> next_tsk s' = next_tsk s \<and> msip s' = msip s \<and> mtime s' = mtime s \<and> clk s' = clk s \<and>
     clk s' = clk s \<and> mstatus s' = mstatus s \<and> isr_depth s' = isr_depth s \<and> ext_entry s' = ext_entry s \<and>
     stack_mem s' = stack_mem s"

lemma same_env_simps [simp]:
  "same_env s s" "same_env s (upd_tcb i f s') = same_env s s'" "same_env s (upd_sem i f1 s') = same_env s s'"
  "same_env s (upd_flg i f2 s') = same_env s s'" "same_env s (upd_mbx i f3 s') = same_env s s'"
  "same_env s (s'\<lparr>links := h\<rparr>) = same_env s s'" "same_env (s\<lparr>links := h\<rparr>) s' = same_env s s'"
  by (simp_all add: same_env_def)

lemma same_env_trans: "same_env s s1 \<Longrightarrow> same_env s1 s2 \<Longrightarrow> same_env s s2"
  by (simp add: same_env_def)

definition free_tcb :: "nat \<Rightarrow> TCB \<Rightarrow> TCB" where
  "free_tcb i t = (blank_tcb t)\<lparr>tskid := int i + 1\<rparr>"

lemma init_tcbs_ok:
  assumes "rep (links s) (stage (Some i) r f sm tm m)"
  shows "ok (init_tcbs i k s) (\<lambda>s'. same_env s s' \<and> rep (links s') (stage (Some (i + k)) r f sm tm m) \<and>
    (\<forall>j. tcbs s' j = (if i \<le> j \<and> j < i + k then free_tcb j (tcbs s j) else tcbs s j)) \<and>
    semcbs s' = semcbs s \<and> flgcbs s' = flgcbs s \<and> mbxcbs s' = mbxcbs s)"
  using assms
proof (induction k arbitrary: i s)
  case (Suc k)
  let ?Q = "stage (Some i) r f sm tm m"
  have step: "ok (on_links (tkmc_list_add_tail (TcbHead i) FreeTcb) ((upd_tcb i (free_tcb i) s)\<lparr>links := h\<rparr>))
      (\<lambda>s1. ok (init_tcbs (Suc i) k s1) (\<lambda>s'. same_env s s' \<and> rep (links s') (stage (Some (i + Suc k)) r f sm tm m) \<and>
      (\<forall>j. tcbs s' j = (if i \<le> j \<and> j < i + Suc k then free_tcb j (tcbs s j) else tcbs s j)) \<and>
      semcbs s' = semcbs s \<and> flgcbs s' = flgcbs s \<and> mbxcbs s' = mbxcbs s))"
    if h: "rep h (?Q(TcbHead i \<mapsto> [], TcbWait i \<mapsto> []))" for h
  proof (rule ok_add_tail [of _ "?Q(TcbHead i \<mapsto> [], TcbWait i \<mapsto> [])"], goal_cases)
    case (6 h1)
    have e: "rep (links ((upd_tcb i (free_tcb i) s)\<lparr>links := h1\<rparr>)) (stage (Some (Suc i)) r f sm tm m)"
      using 6 by (simp add: stage_push)
    show ?case
      by (simp, rule ok_mono [OF Suc.IH [OF e]]) (auto simp: same_env_def)
  qed (use h in \<open>auto simp: mapped_def stage_def intro: rep_owner_idle\<close>)
  have free: "(\<lambda>t. (blank_tcb t)\<lparr>tskid := int i + 1\<rparr>) = free_tcb i" by (simp add: free_tcb_def fun_eq_iff)
  have "ok (reset_tcb i s) (\<lambda>s1. ok (on_links (tkmc_list_add_tail (TcbHead i) FreeTcb) (upd_tcb i (\<lambda>t. t\<lparr>tskid := int i + 1\<rparr>)
      (upd_tcb i (\<lambda>t. t\<lparr>tskid := 0\<rparr>) s1))) (\<lambda>s1. ok (init_tcbs (Suc i) k s1) (\<lambda>s'. same_env s s' \<and>
      rep (links s') (stage (Some (i + Suc k)) r f sm tm m) \<and>
      (\<forall>j. tcbs s' j = (if i \<le> j \<and> j < i + Suc k then free_tcb j (tcbs s j) else tcbs s j)) \<and>
      semcbs s' = semcbs s \<and> flgcbs s' = flgcbs s \<and> mbxcbs s' = mbxcbs s)))"
    by (rule ok_mono [OF reset_tcb_ok [OF Suc.prems loose_stage(12,7)]])
      (use step in \<open>auto simp: free simp del: ok_on_links split del: if_split\<close>)
  then show ?case by (simp add: default_tcb_def del: ok_on_links)
qed auto

lemma init_ready_ok:
  assumes "rep (links s) (stage t i f sm tm m)"
  shows "ok (init_ready_queues i k s) (\<lambda>s'. \<exists>h. s' = s\<lparr>links := h\<rparr> \<and> rep h (stage t (i + k) f sm tm m))"
  using assms
proof (induction k arbitrary: i s)
  case 0
  then show ?case by (auto intro!: exI [of _ "links s"])
next
  case (Suc k)
  have "ok (on_links (tkmc_init_list_head (ReadyQ i)) s) (\<lambda>s1. ok (init_ready_queues (Suc i) k s1)
      (\<lambda>s'. \<exists>h. s' = s\<lparr>links := h\<rparr> \<and> rep h (stage t (i + Suc k) f sm tm m)))"
  proof (rule ok_init [OF Suc.prems], goal_cases)
    case (3 h)
    then have e: "rep (links (s\<lparr>links := h\<rparr>)) (stage t (Suc i) f sm tm m)" by (simp add: stage_head)
    show ?case by (rule ok_mono [OF Suc.IH [OF e]]) auto
  qed (simp_all add: mapped_def)
  then show ?case by (simp del: ok_on_links)
qed

lemma init_flgcbs_ok:
  assumes "rep (links s) (stage t r (Some i) sm tm m)"
  shows "ok (init_flgcbs i k s) (\<lambda>s'. same_env s s' \<and> rep (links s') (stage t r (Some (i + k)) sm tm m) \<and>
    (\<forall>j. flgcbs s' j = (if i \<le> j \<and> j < i + k then free_flgcb j else flgcbs s j)) \<and>
    tcbs s' = tcbs s \<and> semcbs s' = semcbs s \<and> mbxcbs s' = mbxcbs s)"
  using assms
proof (induction k arbitrary: i s)
  case (Suc k)
  let ?Q = "stage t r (Some i) sm tm m" and ?s = "upd_flg i (\<lambda>_. free_flgcb i) s"
  have "ok (on_links (tkmc_init_list_head (FlgQ i)) ?s) (\<lambda>s1. ok (on_links (tkmc_list_add_tail (FlgQ i) FreeFlg) s1)
      (\<lambda>s1. ok (init_flgcbs (Suc i) k s1) (\<lambda>s'. same_env s s' \<and> rep (links s') (stage t r (Some (i + Suc k)) sm tm m) \<and>
      (\<forall>j. flgcbs s' j = (if i \<le> j \<and> j < i + Suc k then free_flgcb j else flgcbs s j)) \<and>
      tcbs s' = tcbs s \<and> semcbs s' = semcbs s \<and> mbxcbs s' = mbxcbs s)))"
  proof (rule ok_init [of _ ?Q], goal_cases)
    case (4 h)
    show ?case
    proof (rule ok_add_tail [of _ "?Q(FlgQ i \<mapsto> [])"], goal_cases)
      case (6 h1)
      then have e: "rep (links (?s\<lparr>links := h1\<rparr>)) (stage t r (Some (Suc i)) sm tm m)" by (simp add: stage_push)
      show ?case by (simp, rule ok_mono [OF Suc.IH [OF e]]) (auto simp: same_env_def)
    qed (use 4 in \<open>auto simp: mapped_def stage_def intro: rep_owner_idle\<close>)
  qed (use Suc.prems in \<open>simp_all add: mapped_def\<close>)
  then show ?case by (simp del: ok_on_links)
qed auto

lemma init_semcbs_ok:
  assumes "rep (links s) (stage t r f (Some i) tm m)"
  shows "ok (init_semcbs i k s) (\<lambda>s'. same_env s s' \<and> rep (links s') (stage t r f (Some (i + k)) tm m) \<and>
    (\<forall>j. semcbs s' j = (if i \<le> j \<and> j < i + k then free_semcb j else semcbs s j)) \<and>
    tcbs s' = tcbs s \<and> flgcbs s' = flgcbs s \<and> mbxcbs s' = mbxcbs s)"
  using assms
proof (induction k arbitrary: i s)
  case (Suc k)
  let ?Q = "stage t r f (Some i) tm m" and ?s = "upd_sem i (\<lambda>_. free_semcb i) s"
  have "ok (on_links (tkmc_init_list_head (SemQ i)) ?s) (\<lambda>s1. ok (on_links (tkmc_list_add_tail (SemQ i) FreeSem) s1)
      (\<lambda>s1. ok (init_semcbs (Suc i) k s1) (\<lambda>s'. same_env s s' \<and> rep (links s') (stage t r f (Some (i + Suc k)) tm m) \<and>
      (\<forall>j. semcbs s' j = (if i \<le> j \<and> j < i + Suc k then free_semcb j else semcbs s j)) \<and>
      tcbs s' = tcbs s \<and> flgcbs s' = flgcbs s \<and> mbxcbs s' = mbxcbs s)))"
  proof (rule ok_init [of _ ?Q], goal_cases)
    case (4 h)
    show ?case
    proof (rule ok_add_tail [of _ "?Q(SemQ i \<mapsto> [])"], goal_cases)
      case (6 h1)
      then have e: "rep (links (?s\<lparr>links := h1\<rparr>)) (stage t r f (Some (Suc i)) tm m)" by (simp add: stage_push)
      show ?case by (simp, rule ok_mono [OF Suc.IH [OF e]]) (auto simp: same_env_def)
    qed (use 4 in \<open>auto simp: mapped_def stage_def intro: rep_owner_idle\<close>)
  qed (use Suc.prems in \<open>simp_all add: mapped_def\<close>)
  then show ?case by (simp del: ok_on_links)
qed auto

lemma init_mbxcbs_ok:
  assumes "rep (links s) (stage t r f sm tm (Some i))"
  shows "ok (init_mbxcbs i k s) (\<lambda>s'. same_env s s' \<and> rep (links s') (stage t r f sm tm (Some (i + k))) \<and>
    (\<forall>j. mbxcbs s' j = (if i \<le> j \<and> j < i + k then free_mbxcb j else mbxcbs s j)) \<and>
    tcbs s' = tcbs s \<and> flgcbs s' = flgcbs s \<and> semcbs s' = semcbs s)"
  using assms
proof (induction k arbitrary: i s)
  case (Suc k)
  let ?Q = "stage t r f sm tm (Some i)" and ?s = "upd_mbx i (\<lambda>_. free_mbxcb i) s"
  have "ok (on_links (tkmc_init_list_head (MbxWaitQ i)) ?s) (\<lambda>s1. ok (on_links (tkmc_init_list_head (MbxMsgQ i)) s1)
      (\<lambda>s1. ok (on_links (tkmc_list_add_tail (MbxWaitQ i) FreeMbx) s1)
      (\<lambda>s1. ok (init_mbxcbs (Suc i) k s1) (\<lambda>s'. same_env s s' \<and> rep (links s') (stage t r f sm tm (Some (i + Suc k))) \<and>
      (\<forall>j. mbxcbs s' j = (if i \<le> j \<and> j < i + Suc k then free_mbxcb j else mbxcbs s j)) \<and>
      tcbs s' = tcbs s \<and> flgcbs s' = flgcbs s \<and> semcbs s' = semcbs s))))"
  proof (rule ok_init [of _ ?Q], goal_cases)
    case (4 h)
    show ?case
    proof (rule ok_init [of _ "?Q(MbxWaitQ i \<mapsto> [])"], goal_cases)
      case (4 h1)
      show ?case
      proof (rule ok_add_tail [of _ "?Q(MbxWaitQ i \<mapsto> [], MbxMsgQ i \<mapsto> [])"], goal_cases)
        case (6 h2)
        then have e: "rep (links (?s\<lparr>links := h2\<rparr>)) (stage t r f sm tm (Some (Suc i)))" by (simp add: stage_push)
        show ?case by (simp, rule ok_mono [OF Suc.IH [OF e]]) (auto simp: same_env_def)
      qed (use 4 in \<open>auto simp: mapped_def stage_def intro: rep_owner_idle\<close>)
    qed (use 4 in \<open>auto simp: mapped_def loose_def in_stage in_ring_upd\<close>)
  qed (use Suc.prems in \<open>simp_all add: mapped_def\<close>)
  then show ?case by (simp del: ok_on_links)
qed auto


text \<open>The lists once every table is built.\<close>

abbreviation boot_rings :: rings where
  "boot_rings \<equiv> stage (Some CFN_MAX_TSKID) CFN_MAX_PRI (Some CFN_MAX_FLGID) (Some CFN_MAX_SEMID) True (Some CFN_MAX_MBXID)"

definition tables_ready :: "kernel \<Rightarrow> bool" where
  "tables_ready s \<longleftrightarrow> rep (links s) boot_rings \<and> current s = None \<and>
     (\<forall>j < CFN_MAX_TSKID. tcbs s j = free_tcb j zero_tcb) \<and> (\<forall>j < CFN_MAX_FLGID. flgcbs s j = free_flgcb j) \<and>
     (\<forall>j < CFN_MAX_SEMID. semcbs s j = free_semcb j) \<and> (\<forall>j < CFN_MAX_MBXID. mbxcbs s j = free_mbxcb j)"

text \<open>Each table is built from a heap in which its free list is not yet there.\<close>

lemma tkmc_init_tcb_ok:
  assumes "rep (links s) (stage None 0 f sm tm m)"
  shows "ok (tkmc_init_tcb s) (\<lambda>s'. same_env s s' \<and> rep (links s') (stage (Some CFN_MAX_TSKID) CFN_MAX_PRI f sm tm m) \<and>
    (\<forall>j < CFN_MAX_TSKID. tcbs s' j = free_tcb j (tcbs s j)) \<and> semcbs s' = semcbs s \<and> flgcbs s' = flgcbs s \<and> mbxcbs s' = mbxcbs s)"
  unfolding tkmc_init_tcb_def ok_bind
proof (rule ok_init [OF assms], goal_cases)
  case (3 h)
  then have "rep (links (s\<lparr>links := h\<rparr>)) (stage (Some 0) 0 f sm tm m)" by (simp add: stage_head)
  from init_tcbs_ok [OF this, of CFN_MAX_TSKID] show ?case
  proof (rule ok_mono, goal_cases)
    case (1 s1)
    then have "rep (links s1) (stage (Some CFN_MAX_TSKID) 0 f sm tm m)" by simp
    from init_ready_ok [OF this, of CFN_MAX_PRI] show ?case by (rule ok_mono) (use 1 in auto)
  qed
qed (simp_all add: mapped_def)

lemma tkmc_init_flgcb_ok:
  assumes "rep (links s) (stage t r None sm tm m)"
  shows "ok (tkmc_init_flgcb s) (\<lambda>s'. same_env s s' \<and> rep (links s') (stage t r (Some CFN_MAX_FLGID) sm tm m) \<and>
    (\<forall>j < CFN_MAX_FLGID. flgcbs s' j = free_flgcb j) \<and> tcbs s' = tcbs s \<and> semcbs s' = semcbs s \<and> mbxcbs s' = mbxcbs s)"
  unfolding tkmc_init_flgcb_def ok_bind
proof (rule ok_init [OF assms], goal_cases)
  case (3 h)
  then have "rep (links (s\<lparr>links := h\<rparr>)) (stage t r (Some 0) sm tm m)" by (simp add: stage_head)
  from init_flgcbs_ok [OF this, of CFN_MAX_FLGID] show ?case by (rule ok_mono) auto
qed (simp_all add: mapped_def)

lemma tkmc_init_semcb_ok:
  assumes "rep (links s) (stage t r f None tm m)"
  shows "ok (tkmc_init_semcb s) (\<lambda>s'. same_env s s' \<and> rep (links s') (stage t r f (Some CFN_MAX_SEMID) tm m) \<and>
    (\<forall>j < CFN_MAX_SEMID. semcbs s' j = free_semcb j) \<and> tcbs s' = tcbs s \<and> flgcbs s' = flgcbs s \<and> mbxcbs s' = mbxcbs s)"
  unfolding tkmc_init_semcb_def ok_bind
proof (rule ok_init [OF assms], goal_cases)
  case (3 h)
  then have "rep (links (s\<lparr>links := h\<rparr>)) (stage t r f (Some 0) tm m)" by (simp add: stage_head)
  from init_semcbs_ok [OF this, of CFN_MAX_SEMID] show ?case by (rule ok_mono) auto
qed (simp_all add: mapped_def)

lemma tkmc_init_mbxcb_ok:
  assumes "rep (links s) (stage t r f sm tm None)"
  shows "ok (tkmc_init_mbxcb s) (\<lambda>s'. same_env s s' \<and> rep (links s') (stage t r f sm tm (Some CFN_MAX_MBXID)) \<and>
    (\<forall>j < CFN_MAX_MBXID. mbxcbs s' j = free_mbxcb j) \<and> tcbs s' = tcbs s \<and> semcbs s' = semcbs s \<and> flgcbs s' = flgcbs s)"
  unfolding tkmc_init_mbxcb_def ok_bind
proof (rule ok_init [OF assms], goal_cases)
  case (3 h)
  then have "rep (links (s\<lparr>links := h\<rparr>)) (stage t r f sm tm (Some 0))" by (simp add: stage_head)
  from init_mbxcbs_ok [OF this, of CFN_MAX_MBXID] show ?case by (rule ok_mono) auto
qed (simp_all add: mapped_def)

lemma tkmc_init_timer_ok:
  "rep (links s) (stage t r f sm False m) \<Longrightarrow>
    ok (tkmc_init_timer s) (\<lambda>s'. \<exists>h. s' = s\<lparr>links := h\<rparr> \<and> rep h (stage t r f sm True m))"
  unfolding tkmc_init_timer_def by (rule ok_init) (auto simp: mapped_def stage_head)

lemma init_tables_ok:
  "ok (init_tables (clear_bss s)) (\<lambda>s'. same_env (clear_bss s) s' \<and> tables_ready s')"
proof -
  let ?s = "clear_bss s"
  have r: "rep (links ?s) (stage None 0 None None False None)" by (rule rep_blank)
  have c: "current ?s = None" "tcbs ?s = (\<lambda>_. zero_tcb)" by (simp_all add: clear_bss_def)
  show ?thesis
    unfolding init_tables_def ok_bind
  proof (rule ok_mono [OF tkmc_init_tcb_ok [OF r]], elim conjE, goal_cases)
    case t: (1 s1)
    show ?case
    proof (rule ok_mono [OF tkmc_init_flgcb_ok [OF t(2)]], elim conjE, goal_cases)
      case f: (1 s2)
      show ?case
      proof (rule ok_mono [OF tkmc_init_semcb_ok [OF f(2)]], elim conjE, goal_cases)
        case m: (1 s3)
        show ?case
        proof (rule ok_mono [OF tkmc_init_timer_ok [OF m(2)]], elim exE conjE, goal_cases)
          case q: (1 s4 h)
          then have "rep (links s4) (stage (Some CFN_MAX_TSKID) CFN_MAX_PRI (Some CFN_MAX_FLGID) (Some CFN_MAX_SEMID) True None)" by simp
          from tkmc_init_mbxcb_ok [OF this] show ?case
            by (rule ok_mono) (use t f m q c in \<open>auto simp: tables_ready_def same_env_def\<close>)
        qed
      qed
    qed
  qed
qed

lemma id_free:
  assumes "j < 100"
  shows "(of_nat (Suc j) OR NOEXS_MASK) AND NOT NOEXS_MASK = (of_nat (Suc j) :: UW)"
proof -
  have mask: "NOEXS_MASK = push_bit 31 1" by (simp add: NOEXS_MASK_def push_bit_eq_mult)
  have b: "bit NOEXS_MASK n \<longleftrightarrow> n = 31" for n
    unfolding mask bit_push_bit_iff bit_1_iff by auto
  have "of_nat (Suc j) AND NOT NOEXS_MASK = (of_nat (Suc j) :: UW)"
  proof (rule bit_word_eqI)
    fix n assume "n < LENGTH(32)"
    moreover have "\<not> bit (of_nat (Suc j) :: UW) 31"
      unfolding bit_of_nat_iff using assms by (simp add: bit_iff_odd)
    ultimately show "bit (of_nat (Suc j) AND NOT NOEXS_MASK) n = bit (of_nat (Suc j) :: UW) n"
      by (cases "n = 31") (auto simp: b bit_and_iff bit_not_iff simp del: of_nat_Suc)
  qed
  then show ?thesis by simp
qed

lemma tables_ready_ginv:
  assumes "tables_ready s"
  shows "ginv s boot_rings"
proof -
  have cur: "current s = None" using assms by (simp add: tables_ready_def)
  have "typed boot_rings" by (auto simp: typed_def in_stage)
  moreover have "static boot_rings" by (auto simp: static_def stage_def)
  moreover have "task_ok (tcbs s i) boot_rings i" if "i < CFN_MAX_TSKID" for i
    using that assms
    by (simp add: tables_ready_def free_tcb_def blank_tcb_def zero_tcb_def task_ok_def head_ok_def wait_ok_def in_stage stage_def)
  moreover have "tskstat (tcbs s i) = TTS_NOEXS" if "i < CFN_MAX_TSKID" for i
    using that assms by (simp add: tables_ready_def free_tcb_def blank_tcb_def)
  then have "cur_ok s" by (simp add: cur_ok_def cur)
  moreover have "sem_ok s boot_rings j" if "j < CFN_MAX_SEMID" for j
    using that assms id_free [of j] by (simp add: tables_ready_def free_semcb_def sem_ok_def in_stage)
  moreover have "flg_ok s boot_rings j" if "j < CFN_MAX_FLGID" for j
    using that assms id_free [of j] by (simp add: tables_ready_def free_flgcb_def flg_ok_def in_stage)
  moreover have "mbx_ok s boot_rings j" if "j < CFN_MAX_MBXID" for j
    using that assms id_free [of j] by (simp add: tables_ready_def free_mbxcb_def mbx_ok_def in_stage stage_def)
  ultimately have "kinv s boot_rings" by (simp add: kinv_def)
  moreover have "sem_served s boot_rings" by (simp add: sem_served_def stage_def)
  moreover have "flg_served s boot_rings" by (simp add: flg_served_def in_stage)
  moreover have "sched_ok s boot_rings" by (simp add: sched_ok_def cur)
  ultimately show ?thesis by (simp add: ginv_def)
qed

section \<open>The switch keeps the invariant\<close>

lemma kinv_relabel:
  assumes K: "kinv s Q" and c: "cur_ok s'"
    and o: "semcbs s' = semcbs s" "flgcbs s' = flgcbs s" "mbxcbs s' = mbxcbs s" "msgpri s' = msgpri s"
    and t: "\<And>i. itskpri (tcbs s' i) = itskpri (tcbs s i)" "\<And>i. winfo (tcbs s' i) = winfo (tcbs s i)"
      "\<And>i. i < CFN_MAX_TSKID \<Longrightarrow> task_ok (tcbs s' i) Q i"
  shows "kinv s' Q" and "sem_served s' Q = sem_served s Q" and "flg_served s' Q = flg_served s Q"
proof -
  have "wait_pri s' n = wait_pri s n" "wait_req s' n = wait_req s n" for n
    using t by (cases n; auto)+
  then have wr: "wait_req s' = wait_req s" and "pri_sorted s' = pri_sorted s"
    by (auto intro!: pri_sorted_cong)
  then have qs: "sem_queue_ok s' = sem_queue_ok s" "flg_queue_ok s' = flg_queue_ok s"
    "mbx_queue_ok s' = mbx_queue_ok s"
    using o by (intro ext, simp add: sem_queue_ok_def flg_queue_ok_def mbx_queue_ok_def)+
  show "sem_served s' Q = sem_served s Q" "flg_served s' Q = flg_served s Q"
    unfolding sem_served_def flg_served_def wr o t by simp_all
  show "kinv s' Q"
    using K qs c t(3) o by (simp add: kinv_def sem_ok_def flg_ok_def mbx_ok_def Let_def)
qed

lemma relabel_task_ok:
  "task_ok t Q i \<Longrightarrow> runnable t \<Longrightarrow> st = TTS_RUN \<or> st = TTS_RDY \<Longrightarrow> task_ok (t\<lparr>sp := a, tskstat := st\<rparr>) Q i"
  "task_ok t Q i \<Longrightarrow> runnable t \<Longrightarrow> st = TTS_RUN \<or> st = TTS_RDY \<Longrightarrow> task_ok (t\<lparr>tskstat := st\<rparr>) Q i"
  by (auto simp: task_ok_def head_ok_def wait_ok_def)

definition left_tcb :: "addr \<Rightarrow> TCB \<Rightarrow> TCB" where
  "left_tcb a t = t\<lparr>sp := a, tskstat := if tskstat t = TTS_RUN then TTS_RDY else tskstat t\<rparr>"

definition switched :: "addr \<Rightarrow> nat \<Rightarrow> nat \<Rightarrow> kernel \<Rightarrow> kernel" where
  "switched a c n s = (upd_tcb n (\<lambda>t. t\<lparr>tskstat := TTS_RUN\<rparr>) (upd_tcb c (left_tcb a) s))\<lparr>current := Some n\<rparr>"

lemma schedule_eq:
  assumes "current s = Some c" and "next_tsk s = Some n"
  shows "schedule a s = Some (sp (tcbs (switched a c n s) n), switched a c n s)"
proof -
  have "left_tcb a t = (if tskstat t = TTS_RUN then t\<lparr>sp := a, tskstat := TTS_RDY\<rparr> else t\<lparr>sp := a\<rparr>)" for t
    by (cases t) (simp add: left_tcb_def)
  then show ?thesis
    using assms by (simp add: schedule_def switched_def upd_tcb_def Let_def)
qed

lemma switched_ginv:
  assumes R: "rep (links s) Q" and K: "kinv s Q" and S: "sem_served s Q" "flg_served s Q"
    and c: "current s = Some c" and n: "top_ready Q = Some n" and m: "\<not> msip s"
  shows "ginv (switched a c n s) Q"
proof -
  let ?s = "switched a c n s"
  have i: "c < CFN_MAX_TSKID" using kinvD(3) [OF K] c by (simp add: cur_ok_def)
  have cur: "tskstat (tcbs s j) \<noteq> TTS_RUN" if "j < CFN_MAX_TSKID" "j \<noteq> c" for j
    using kinvD(3) [OF K] c that by (simp add: cur_ok_def)
  note top = top_ready_best [OF R K n]
  have t: "task_ok (tcbs ?s j) Q j" if "j < CFN_MAX_TSKID" for j
  proof -
    have "task_ok (left_tcb a (tcbs s c)) Q c"
    proof (cases "tskstat (tcbs s c) = TTS_RUN")
      case True
      then show ?thesis using relabel_task_ok(1) [OF kinvD(4) [OF K i]] by (simp add: left_tcb_def)
    next
      case False
      then have "same_task (tcbs s c) (left_tcb a (tcbs s c))" by (simp add: same_task_def same_wait_def left_tcb_def)
      from same_task_ok [OF this _ kinvD(4) [OF K i]] show ?thesis
        using kinvD(4) [OF K i] by (simp add: left_tcb_def task_ok_def)
    qed
    then show ?thesis
      using top(2) relabel_task_ok [of _ Q n TTS_RUN] kinvD(4) [OF K that] that
      by (auto simp: switched_def left_tcb_def)
  qed
  have "cur_ok ?s" using cur top(1) by (auto simp: cur_ok_def switched_def left_tcb_def)
  from kinv_relabel [OF K this _ _ _ _ _ _ t]
  have "kinv ?s Q" "sem_served ?s Q" "flg_served ?s Q"
    using S by (auto simp: switched_def left_tcb_def)
  moreover have "sched_ok ?s Q" using n m by (simp add: sched_ok_def switched_def)
  ultimately show ?thesis by (simp add: ginv_def)
qed

text \<open>A switch is possible when some task is runnable; then the best one runs afterwards.\<close>

definition can_switch :: "kernel \<Rightarrow> bool" where
  "can_switch s \<longleftrightarrow> current s \<noteq> None \<and> msip s \<and> (\<exists>i < CFN_MAX_TSKID. runnable (tcbs s i))"

lemma schedule_ok:
  assumes R: "rep (links s) Q" and G: "ginv s Q" and w: "can_switch s"
  obtains c n where "current s = Some c" and "top_ready Q = Some n"
    and "schedule a (s\<lparr>msip := False\<rparr>) =
      Some (if n = c then a else sp (tcbs s n), switched a c n (s\<lparr>msip := False\<rparr>))"
    and "ginv (switched a c n (s\<lparr>msip := False\<rparr>)) Q"
proof -
  have K: "kinv s Q" and S: "sem_served s Q" "flg_served s Q" and D: "sched_ok s Q" using G by (simp_all add: ginv_def)
  obtain c where c: "current s = Some c" using w by (auto simp: can_switch_def)
  obtain n where n: "top_ready Q = Some n" using top_ready_exists [OF K] w by (auto simp: can_switch_def)
  have "next_tsk s = Some n" using D w c n by (simp add: sched_ok_def can_switch_def)
  then have "schedule a (s\<lparr>msip := False\<rparr>) =
      Some (if n = c then a else sp (tcbs s n), switched a c n (s\<lparr>msip := False\<rparr>))"
    using c schedule_eq [of "s\<lparr>msip := False\<rparr>" c n a] by (auto simp: switched_def left_tcb_def)
  from that [OF c n this] show ?thesis
    using switched_ginv [of "s\<lparr>msip := False\<rparr>" Q c n a] R K S c n by simp
qed

lemma switched_frame [simp]:
  "links (switched a c n s) = links s" "current (switched a c n s) = Some n" "msip (switched a c n s) = msip s"
  "mstatus (switched a c n s) = mstatus s" "isr_depth (switched a c n s) = isr_depth s"
  "mtime (switched a c n s) = mtime s"
  by (simp_all add: switched_def)

lemma sys_inv_isr [simp]: "sys_inv (s\<lparr>isr_depth := d\<rparr>) = sys_inv s"
  by (simp add: sys_inv_def)

text \<open>What a completed switch leaves behind: the best runnable task runs, on the frame it was left with.\<close>

definition resumed :: "addr \<Rightarrow> kernel \<Rightarrow> addr \<Rightarrow> kernel \<Rightarrow> bool" where
  "resumed a s f s' \<longleftrightarrow> (\<exists>c n. current s = Some c \<and> current s' = Some n \<and> running s' n \<and>
     (\<forall>i < CFN_MAX_TSKID. runnable (tcbs s' i) \<longrightarrow> itskpri (tcbs s' n) \<le> itskpri (tcbs s' i)) \<and>
     f = (if n = c then a else sp (tcbs s n)) \<and> sp (tcbs s' c) = a \<and>
     (\<forall>i < CFN_MAX_TSKID. runnable (tcbs s' i) \<longleftrightarrow> runnable (tcbs s i)))"

lemma schedule_resumed:
  assumes R: "rep (links s) Q" and G: "ginv s Q" and w: "can_switch s"
  shows "ok (schedule a (s\<lparr>msip := False\<rparr>)) (\<lambda>(f, s'). sys_inv s' \<and> \<not> msip s' \<and> mstatus s' = mstatus s \<and>
    isr_depth s' = isr_depth s \<and> resumed a s f s')"
proof -
  obtain c n where c: "current s = Some c" and n: "top_ready Q = Some n"
    and e: "schedule a (s\<lparr>msip := False\<rparr>) =
      Some (if n = c then a else sp (tcbs s n), switched a c n (s\<lparr>msip := False\<rparr>))"
    and G': "ginv (switched a c n (s\<lparr>msip := False\<rparr>)) Q" (is "ginv ?s Q")
    using schedule_ok [OF R G w] by blast
  have R': "rep (links ?s) Q" using R by simp
  have K': "kinv ?s Q" using G' by (simp add: ginv_def)
  have K: "kinv s Q" using G by (simp add: ginv_def)
  have "running ?s n" by (simp add: running_def switched_def)
  moreover have "sp (tcbs ?s c) = a" by (simp add: switched_def left_tcb_def)
  moreover have "runnable (tcbs ?s i) \<longleftrightarrow> runnable (tcbs s i)" for i
    using top_ready_best(2) [OF R K n] by (auto simp: switched_def left_tcb_def)
  ultimately have "resumed a s (if n = c then a else sp (tcbs s n)) ?s"
    using c top_ready_best(3) [OF R' K' n] by (simp add: resumed_def)
  then show ?thesis using e sys_invI [OF R' G'] by simp
qed

lemma mtrap_handler_ok:
  assumes "sys_inv s" and "can_switch s"
  shows "ok (mtrap_handler a s) (\<lambda>(f, s'). sys_inv s' \<and> \<not> msip s' \<and> mstatus s' = mstatus s \<and>
    isr_depth s' = isr_depth s \<and> resumed a s f s')"
proof -
  obtain Q where Q: "rep (links s) Q" "ginv s Q" using assms(1) by (auto simp: sys_inv_def)
  let ?s = "enter_isr s"
  have "rep (links ?s) Q" "ginv ?s Q" "can_switch ?s"
    using Q assms(2) by (simp_all add: enter_isr_def can_switch_def)
  from schedule_resumed [OF this, of a] show ?thesis
    unfolding mtrap_handler_def ok_Let ok_bind
    by (rule ok_mono) (auto simp: enter_isr_def leave_isr_def resumed_def running_def)
qed

end
