(* ===== verification/TK_Boot.thy ===== *)
theory TK_Boot
  imports TK_Start
begin

text \<open>
  \<^verbatim>\<open>tkmc_start\<close> boots: with two usable stacks and a clock that runs, the tables are built, the
  initial task and the idle task exist and are started, and the initial task runs with
  interrupts enabled, in a state that satisfies the invariant of the whole kernel.
\<close>

section \<open>The kernel boots\<close>

text \<open>The first frame of a task that was created from the packet \<open>pk\<close>.\<close>

definition first_frame :: "T_CTSK \<Rightarrow> int \<Rightarrow> addr \<Rightarrow> (addr \<Rightarrow> UW) \<Rightarrow> (addr \<Rightarrow> UW)" where
  "first_frame pk stacd ret g = initial_frame (c_bufptr pk + word_of_int (c_stksz pk) - FRAME_SIZE) ret (c_task pk)
     (word_of_int stacd) (c_exinf pk) g"

definition started_task :: "T_CTSK \<Rightarrow> int \<Rightarrow> nat \<Rightarrow> kernel \<Rightarrow> kernel \<Rightarrow> bool" where
  "started_task pk stacd i s s' \<longleftrightarrow> ext_entry s' = ext_entry s \<and> stack_mem s' = first_frame pk stacd (ext_entry s) (stack_mem s) \<and>
     tcbs s' = (tcbs s)(i := started_tcb (new_tcb pk (tcbs s i))) \<and>
     current s' = current s \<and> isr_depth s' = isr_depth s \<and> mtime s' = mtime s \<and> clk s' = clk s \<and> mstatus s' = mstatus s \<and>
     msip s' = msip s \<and> semcbs s' = semcbs s \<and> flgcbs s' = flgcbs s \<and> mbxcbs s' = mbxcbs s"

lemma start_task_ok:
  assumes R: "rep (links s) Q" and G: "ginv s Q" and q: "Q FreeTcb = Some (TcbHead i # ns)"
    and v: "valid_ctsk pk" and c: "current s = None"
  defines "Q' \<equiv> started_rings i (c_itskpri pk) (created_rings i Q)"
  shows "ok (start_task cre sta pk a0 s) (\<lambda>(r, s'). r = Return () \<and> rep (links s') Q' \<and> ginv s' Q' \<and> started_task pk a0 i s s')"
proof -
  have i: "i < CFN_MAX_TSKID" using G q by (auto simp: ginv_def in_ring_def dest!: kinvD(1) typed_in_ring [of Q FreeTcb "TcbHead i"])
  let ?Q = "created_rings i Q"
  have sta: "ok (tk_sta_tsk (int i + 1) a0 s1) (\<lambda>(r, s'). r = Return E_OK \<and> rep (links s') Q' \<and> ginv s' Q' \<and> started_task pk a0 i s s')"
    if s1: "s1 = (upd_tcb i (new_tcb pk) s)\<lparr>links := h\<rparr>" and h: "rep h ?Q" and g: "ginv s1 ?Q" for s1 h
  proof -
    have "rep (links s1) ?Q" "tskstat (tcbs s1 i) = TTS_DMT" using h by (simp_all add: s1 new_tcb_def Let_def)
    from tk_sta_tsk_new [OF this(1) g i this(2), of a0] show ?thesis
      by (rule ok_mono) (use c in \<open>auto simp: s1 started_def Let_def Q'_def started_task_def new_tcb_def start_frame_def first_frame_def fun_eq_iff\<close>)
  qed
  show ?thesis
    unfolding start_task_def ok_bind
    by (rule ok_mono [OF tk_cre_tsk_new [OF R G q v]])
      (auto intro!: ok_mono [OF sta])
qed


definition boot_ok :: "image \<Rightarrow> kernel \<Rightarrow> bool" where
  "boot_ok im s \<longleftrightarrow> sys_inv s \<and> running s 0 \<and> tcbs s 0 = (started_tcb (new_tcb (ini_ctsk im) (free_tcb 0 zero_tcb)))\<lparr>tskstat := TTS_RUN\<rparr> \<and>
     tcbs s 1 = started_tcb (new_tcb (idl_ctsk im) (free_tcb 1 zero_tcb)) \<and>
     (\<forall>i < CFN_MAX_TSKID. 1 < i \<longrightarrow> tskstat (tcbs s i) = TTS_NOEXS) \<and>
     (\<forall>j < CFN_MAX_SEMID. semcbs s j = free_semcb j) \<and> (\<forall>j < CFN_MAX_FLGID. flgcbs s j = free_flgcb j) \<and>
     (\<forall>j < CFN_MAX_MBXID. mbxcbs s j = free_mbxcb j) \<and>
     list_of FreeTcb (links s) = Some (map TcbHead [2..<CFN_MAX_TSKID]) \<and>
     list_of FreeSem (links s) = Some (map SemQ [0..<CFN_MAX_SEMID]) \<and>
     list_of FreeFlg (links s) = Some (map FlgQ [0..<CFN_MAX_FLGID]) \<and>
     list_of FreeMbx (links s) = Some (map MbxWaitQ [0..<CFN_MAX_MBXID]) \<and> isr_depth s = 0 \<and> \<not> msip s"

text \<open>The stacks after the start: the first frames of the initial and of the idle task.\<close>

definition boot_stacks :: "image \<Rightarrow> int \<Rightarrow> kernel \<Rightarrow> addr \<Rightarrow> UW" where
  "boot_stacks im a0 s = first_frame (idl_ctsk im) a0 (ext_entry s) (first_frame (ini_ctsk im) a0 (ext_entry s) (stack_mem s))"

lemma boot_ok_frame [simp]:
  "boot_ok im (s\<lparr>clk := k\<rparr>) = boot_ok im s" "boot_ok im (s\<lparr>s_mtimecmp := v\<rparr>) = boot_ok im s"
  "boot_ok im (s\<lparr>mtimecmp_reg := v\<rparr>) = boot_ok im s" "boot_ok im (s\<lparr>mstatus := m\<rparr>) = boot_ok im s"
  by (simp_all add: boot_ok_def running_def)

lemma first_task_runs:
  assumes R: "rep (links s) Q" and G: "ginv s Q" and c: "current s = None" and t: "top_ready Q = Some i" and m: "\<not> msip s"
  defines "s' \<equiv> (upd_tcb i (\<lambda>t. t\<lparr>tskstat := TTS_RUN\<rparr>) s)\<lparr>current := Some i\<rparr>"
  shows "ginv s' Q"
proof -
  have K: "kinv s Q" using G by (simp add: ginv_def)
  note top = top_ready_best [OF R K t]
  have "cur_ok s'" using kinvD(3) [OF K] c top(1) by (auto simp: cur_ok_def s'_def)
  moreover have "task_ok (tcbs s' k) Q k" if "k < CFN_MAX_TSKID" for k
    using relabel_task_ok(2) [OF kinvD(4) [OF K that], of TTS_RUN] top(2) kinvD(4) [OF K that] by (auto simp: s'_def)
  ultimately have "kinv s' Q" "sem_served s' Q = sem_served s Q" "flg_served s' Q = flg_served s Q"
    using kinv_relabel [OF K, of s'] by (auto simp: s'_def)
  then show ?thesis using G t m by (simp add: ginv_def sched_ok_def s'_def)
qed

lemma start_timer_ok:
  assumes C: "clock_ok (mtime s)"
  shows "ok (tkmc_start_timer s) (\<lambda>s'. armed s' \<and> (\<exists>k v. k \<le> clk s + 6 \<and> s' = s\<lparr>clk := k, s_mtimecmp := v, mtimecmp_reg := v\<rparr>))"
  unfolding tkmc_start_timer_def ok_bind
proof (rule ok_mono [OF read_mtime_ok [OF C]], clarify, goal_cases)
  case (1 v s1)
  then obtain k n where k: "k < n" "v = mtime s k" "s1 = s\<lparr>clk := n\<rparr>" "n \<le> clk s + 6" by (auto simp: reads_def)
  have "unat (v + TICK_COUNTS) = unat v + 100000" using C k(2) by (intro tick_unat) (simp add: clock_ok_def)
  moreover have "unat v \<le> unat (mtime s n)" using clock_mono [OF C, of k n] k by simp
  ultimately show ?case using k(4) by (auto simp: write_mtimecmp_eq armed_def k(3))
qed

lemma tkmc_start_boots:
  assumes v: "valid_ctsk (ini_ctsk im)" "valid_ctsk (idl_ctsk im)" and m: "\<not> msip s" and C: "clock_ok (mtime s)"
  shows "ok (tkmc_start im a0 (s, ic)) (\<lambda>(r, s', ic'). r = Return () \<and> boot_ok im s' \<and> mtime s' = mtime s \<and>
    mstatus s' = mstatus s OR MSTATUS_MIE \<and> stack_mem s' = boot_stacks im a0 s \<and> armed s' \<and> clk s' \<le> clk s + 6 \<and> ic' = tkmc_init_intctl ic)"
proof -
  let ?Q1 = "started_rings 0 1 (created_rings 0 boot_rings)"
  let ?Q2 = "started_rings 1 16 (created_rings 1 ?Q1)"
  let ?P = "\<lambda>s'. boot_ok im s' \<and> mtime s' = mtime s \<and> mstatus s' = mstatus s OR MSTATUS_MIE \<and> stack_mem s' = boot_stacks im a0 s \<and> armed s' \<and> clk s' \<le> clk s + 6"
  have q0: "boot_rings FreeTcb = Some (TcbHead 0 # map TcbHead [1..<32])"
    by (simp add: stage_def upt_conv_Cons)
  have q1: "?Q1 FreeTcb = Some (TcbHead 1 # map TcbHead [2..<32])"
    by (simp add: started_rings_def created_rings_def push_def detach_def stage_def upt_conv_Cons)
  have top: "top_ready ?Q2 = Some 0"
    by (simp add: top_ready_def eval_nat_numeral started_rings_def created_rings_def push_def detach_def stage_def)
  have fin: "ok (tkmc_get_highest_priority_task s2) (\<lambda>t. ok t (\<lambda>tcb.
      ok (tkmc_start_timer ((upd_tcb tcb (\<lambda>t. t\<lparr>tskstat := TTS_RUN\<rparr>) s2)\<lparr>current := Some tcb\<rparr>)) (\<lambda>s'. ?P (EI 0 s'))))"
    if R: "rep (links s2) ?Q2" and G: "ginv s2 ?Q2" and t: "started_task (idl_ctsk im) a0 1 s1 s2"
      "started_task (ini_ctsk im) a0 0 s0 s1" and e: "same_env (clear_bss s) s0" "tables_ready s0" for s0 s1 s2
  proof -
    have c: "current s2 = None" "\<not> msip s2" "mtime s2 = mtime s" "clk s2 = clk s" "mstatus s2 = mstatus s" "isr_depth s2 = 0"
      "stack_mem s2 = boot_stacks im a0 s"
      using t e m by (auto simp: started_task_def same_env_def clear_bss_def boot_stacks_def)
    let ?s = "(upd_tcb 0 (\<lambda>t. t\<lparr>tskstat := TTS_RUN\<rparr>) s2)\<lparr>current := Some 0\<rparr>"
    have g: "ginv ?s ?Q2" by (rule first_task_runs [OF R G c(1) top c(2)])
    have "?Q2 FreeTcb = Some (map TcbHead [2..<CFN_MAX_TSKID])"
      by (simp add: started_rings_def created_rings_def push_def detach_def stage_def upt_conv_Cons)
    moreover have "?Q2 FreeSem = Some (map SemQ [0..<CFN_MAX_SEMID])"
      "?Q2 FreeFlg = Some (map FlgQ [0..<CFN_MAX_FLGID])" "?Q2 FreeMbx = Some (map MbxWaitQ [0..<CFN_MAX_MBXID])"
      by (simp_all add: started_rings_def created_rings_def push_def detach_def stage_def filter_map o_def)
    ultimately have "list_of FreeTcb (links ?s) = Some (map TcbHead [2..<CFN_MAX_TSKID])"
      "list_of FreeSem (links ?s) = Some (map SemQ [0..<CFN_MAX_SEMID])"
      "list_of FreeFlg (links ?s) = Some (map FlgQ [0..<CFN_MAX_FLGID])"
      "list_of FreeMbx (links ?s) = Some (map MbxWaitQ [0..<CFN_MAX_MBXID])"
      using list_of_rep [OF R] by simp_all
    then have "boot_ok im ?s"
      using sys_invI [of ?s, OF _ g] R t e c
      by (auto simp: boot_ok_def running_def started_task_def tables_ready_def free_tcb_def blank_tcb_def)
    then have "ok (tkmc_start_timer ?s) (\<lambda>s'. ?P (EI 0 s'))"
      using C c by (intro ok_mono [OF start_timer_ok]) (auto simp: EI_def armed_def)
    then show ?thesis
      using tkmc_get_highest_priority_task_rep [OF R] G by (simp add: ginv_def top del: One_nat_def)
  qed
  have idl: "ok (start_task TKMC_STARTUP_IDLE_CREATE TKMC_STARTUP_IDLE_START (idl_ctsk im) a0 s1)
      (\<lambda>(r, s2). r = Return () \<and> rep (links s2) ?Q2 \<and> ginv s2 ?Q2 \<and> started_task (idl_ctsk im) a0 1 s1 s2)"
    if "rep (links s1) ?Q1" "ginv s1 ?Q1" "current s1 = None" for s1
    using start_task_ok [OF that(1,2) q1 v(2) that(3)] by (simp add: idl_ctsk_def)
  have ini: "ok (start_task TKMC_STARTUP_INITIAL_CREATE TKMC_STARTUP_INITIAL_START (ini_ctsk im) a0 s0)
      (\<lambda>(r, s1). r = Return () \<and> rep (links s1) ?Q1 \<and> ginv s1 ?Q1 \<and> started_task (ini_ctsk im) a0 0 s0 s1)"
    if "tables_ready s0" for s0
    using start_task_ok [OF _ tables_ready_ginv [OF that] q0 v(1)] that by (simp add: ini_ctsk_def tables_ready_def)
  have "ok (init_tables (clear_bss s)) (\<lambda>s0. ok (start_task TKMC_STARTUP_INITIAL_CREATE TKMC_STARTUP_INITIAL_START (ini_ctsk im) a0 s0)
      (\<lambda>(r, s1). r = Return () \<and> ok (start_task TKMC_STARTUP_IDLE_CREATE TKMC_STARTUP_IDLE_START (idl_ctsk im) a0 s1)
      (\<lambda>(r, s2). r = Return () \<and> rep (links s2) ?Q2 \<and> ginv s2 ?Q2 \<and> started_task (idl_ctsk im) a0 1 s1 s2 \<and>
        started_task (ini_ctsk im) a0 0 s0 s1 \<and> same_env (clear_bss s) s0 \<and> tables_ready s0)))"
    by (rule ok_mono [OF init_tables_ok])
      (auto simp: started_task_def tables_ready_def intro!: ok_mono [OF ini] ok_mono [OF idl])
  then show ?thesis
    unfolding tkmc_start_def
    by (simp add: Let_def del: One_nat_def) (auto elim!: ok_mono intro!: fin simp del: One_nat_def)
qed

section \<open>A concrete boot\<close>

text \<open>A machine at reset, with its two stacks at fixed addresses and a clock that runs for two minutes.\<close>

definition sample_image :: image where
  "sample_image = \<lparr>ini_tsk_stack = 0x80010000, idl_tsk_stack = 0x80010200, ini_entry = 0x80000100, idl_entry = 0x80000200\<rparr>"

definition sample_clock :: "nat \<Rightarrow> UD" where
  "sample_clock n = of_nat (min n 1200000 * 1000)"

lemma unat_sample_clock: "unat (sample_clock n) = min n 1200000 * 1000"
  using min.cobounded2 [of n 1200000] unfolding sample_clock_def unat_of_nat by (intro mod_less) simp

lemma sample_clock_ok: "clock_ok sample_clock"
  by (simp add: clock_ok_def unat_sample_clock min_def)

definition sample_reset :: kernel where
  "sample_reset = \<lparr>links = \<lparr>nxt = (\<lambda>_. Null), prv = (\<lambda>_. Null)\<rparr>, tcbs = (\<lambda>_. zero_tcb),
     semcbs = (\<lambda>_. \<lparr>semid = 0, sem_exinf = NULL, sematr = 0, semcnt = 0, maxsem = 0\<rparr>),
     flgcbs = (\<lambda>_. \<lparr>flgid = 0, flg_exinf = NULL, flgatr = 0, flgptn = 0\<rparr>),
     mbxcbs = (\<lambda>_. \<lparr>mbxid = 0, mbx_exinf = NULL, mbxatr = 0\<rparr>),
     current = None, next_tsk = None, isr_depth = 0, s_mtimecmp = 0,
     last_context_failure = (TKMC_CONTEXT_NONE, E_OK), last_startup_failure = (TKMC_STARTUP_NONE, E_OK),
     mstatus = 0x1800, msip = False, mtimecmp_reg = 0, mtime = sample_clock, clk = 0, stack_mem = (\<lambda>_. 0),
     msgpri = (\<lambda>_. 0), ext_entry = 0x80000300\<rparr>"

definition sample_intctl :: intctl where
  "sample_intctl = \<lparr>s_handlers = (\<lambda>_. NULL), plic_priority = (\<lambda>_. 0), plic_enable = (\<lambda>_. 0),
     plic_threshold = 0, plic_completions = []\<rparr>"

definition sample_boot :: kernel where
  "sample_boot = fst (snd (the (tkmc_start sample_image 0 (sample_reset, sample_intctl))))"

lemma sample_hyps:
  "valid_ctsk (ini_ctsk sample_image)" "valid_ctsk (idl_ctsk sample_image)" "\<not> msip sample_reset"
  "clock_ok (mtime sample_reset)"
  by (simp_all add: valid_ctsk_def ini_ctsk_def idl_ctsk_def sample_image_def sample_reset_def sample_clock_ok
      VALID_TSKATR_def attr_defs STACK_BYTES_def FRAME_SIZE_def STACK_ALIGN_def)

lemma sample_start:
  "tkmc_start sample_image 0 (sample_reset, sample_intctl) =
    Some (Return (), sample_boot, tkmc_init_intctl sample_intctl)"
  "boot_ok sample_image sample_boot" "mtime sample_boot = sample_clock" "mstatus sample_boot = 0x1808" "armed sample_boot"
  "clk sample_boot \<le> 6"
  using tkmc_start_boots [OF sample_hyps, of 0 sample_intctl]
  by (auto simp: sample_boot_def sample_reset_def MSTATUS_MIE_def elim!: okE)

lemma sample_boot_inv:
  "sys_inv sample_boot" "running sample_boot 0" "current sample_boot = Some 0" "isr_depth sample_boot = 0"
  "\<not> msip sample_boot" "clock_ok (mtime sample_boot)" "settled sample_boot"
  "runnable (tcbs sample_boot 1)" "itskpri (tcbs sample_boot 0) = 1" "itskpri (tcbs sample_boot 1) = 16"
  using sample_start(2,3)
  by (simp_all add: boot_ok_def running_def settled_def sample_clock_ok started_tcb_def new_tcb_def ini_ctsk_def
      idl_ctsk_def Let_def)

end
