(* ===== verification/TK_Frame.thy ===== *)
theory TK_Frame
  imports TK_Boot
begin

text \<open>
  What a service call leaves alone, whatever state it starts in. The locale \<open>call_frame\<close> says what a
  property of states must bear to survive every call: the writes of the kernel's variables, any
  change of the caller's control block, and of another task's only the end of its wait and changes
  that are none to a waiting task. Every call is shown once to keep every such property; the
  properties used are \<open>fr\<close> here (the running task, the clock, the nesting of interrupts, the stacks,
  who can run and where registers are saved) and that of \<open>TK_Deadline\<close> (the ticks of those who wait).
  The lemmas are about partial runs (\<^term>\<open>part\<close>); with the total ones of the components they
  show that a switch is always possible.
\<close>

section \<open>Partial runs\<close>

definition part :: "'a option \<Rightarrow> ('a \<Rightarrow> bool) \<Rightarrow> bool" where
  "part m P \<longleftrightarrow> (\<forall>x. m = Some x \<longrightarrow> P x)"

lemma part_simps [simp]:
  "part (Some x) P = P x" "part None P"
  "part (Option.bind m0 f) P = part m0 (\<lambda>x. part (f x) P)"
  "part (if b then m else n) P = (if b then part m P else part n P)"
  "part (case p of (a, b) \<Rightarrow> g a b) P = (case p of (a, b) \<Rightarrow> part (g a b) P)"
  "part (let y = e in k y) P = part (k e) P"
  by (cases m0; simp add: part_def split: prod.splits)+

lemma part_case [simp]:
  "part (case x of None \<Rightarrow> m | Some y \<Rightarrow> f y) P = (case x of None \<Rightarrow> part m P | Some y \<Rightarrow> part (f y) P)"
  "part (case w of WZero \<Rightarrow> m1 | WFlg a b c \<Rightarrow> m2 a b c | WSem d e \<Rightarrow> m3 d e | WMbx g \<Rightarrow> m4 g) P =
    (case w of WZero \<Rightarrow> part m1 P | WFlg a b c \<Rightarrow> part (m2 a b c) P | WSem d e \<Rightarrow> part (m3 d e) P | WMbx g \<Rightarrow> part (m4 g) P)"
  by (simp_all split: option.splits wait_info.splits)

lemma part_mono: "part m P \<Longrightarrow> (\<And>x. P x \<Longrightarrow> R x) \<Longrightarrow> part m R"
  by (simp add: part_def)

lemma part_any: "(\<And>x. P x) \<Longrightarrow> part m P"
  by (simp add: part_def)

lemma part_ok: "ok m P \<Longrightarrow> part m R \<Longrightarrow> ok m (\<lambda>x. P x \<and> R x)"
  by (auto simp: ok_def part_def)

lemma partI: "(\<And>x. m = Some x \<Longrightarrow> P x) \<Longrightarrow> part m P"
  by (simp add: part_def)

lemma partD: "m = Some x \<Longrightarrow> part m P \<Longrightarrow> P x"
  by (simp add: part_def)

lemma part_links: "(\<And>h. P (s\<lparr>links := h\<rparr>)) \<Longrightarrow> part (on_links f s) P"
  by (auto simp: part_def on_links_def bind_eq_Some_conv)

lemmas part_reads =
  part_any [of _ "tkmc_list_empty n h" for n h] part_any [of _ "get_next n h" for n h]
  part_any [of _ "get_prev n h" for n h] part_any [of _ "tcb_of_head n" for n] part_any [of _ "tcb_of_wait n" for n]
  part_any [of _ "semcb_of_link n" for n] part_any [of _ "flgcb_of_link n" for n] part_any [of _ "mbxcb_of_link n" for n]
  part_any [of _ "msg_from_link n" for n] part_any [of _ "ready_queue p" for p]
  part_any [of _ "tkmc_get_highest_priority_task s" for s] part_any [of _ "first_deadline s" for s]
  part_any [of _ "may_take c j k s" for c j k s]

lemma end_wait_effect: "part (end_wait i cause s) (\<lambda>s'. \<exists>h. s' = (upd_tcb i (wake_tcb cause) s)\<lparr>links := h\<rparr>)"
  by (auto simp: end_wait_def upd_tcb_def wake_tcb_def intro!: part_reads part_links)

named_theorems fr_intro \<open>the frames of the operations\<close>

lemmas [fr_intro] = part_reads part_links

section \<open>What a call may do to a property of states\<close>

abbreviation live :: "TCB \<Rightarrow> bool" where
  "live t \<equiv> tskstat t \<noteq> TTS_NOEXS \<and> tskstat t \<noteq> TTS_DMT"

text \<open>A change of a control block that no other task than its own may notice.\<close>

definition quiet :: "TCB \<Rightarrow> TCB \<Rightarrow> bool" where
  "quiet t t' \<longleftrightarrow> (live t \<longrightarrow> tskstat t' = tskstat t \<and> sp t' = sp t \<and> itskpri t' = itskpri t \<and>
     (tskstat t = TTS_WAI \<longrightarrow> delay_ticks t' = delay_ticks t) \<and> (wupcause t' = wupcause t \<or> wupcause t' \<noteq> E_TMOUT))"

text \<open>
  \<open>mine\<close> are the tasks whose control blocks the call may change as it likes (its caller), and \<open>stacks\<close>
  says whether it may write to stacks (only the start of a task does).
\<close>

locale call_frame =
  fixes I :: "kernel \<Rightarrow> bool" and s0 :: kernel and mine :: "nat \<Rightarrow> bool" and stacks :: bool
  assumes base: "I s0" and ctx: "I s \<Longrightarrow> current s = current s0 \<and> isr_depth s = isr_depth s0"
    and links: "I s \<Longrightarrow> I (s\<lparr>links := h\<rparr>)" and nexts: "I s \<Longrightarrow> I (s\<lparr>next_tsk := x\<rparr>)"
    and soft: "I s \<Longrightarrow> I (s\<lparr>msip := b\<rparr>)" and status: "I s \<Longrightarrow> I (s\<lparr>mstatus := m\<rparr>)"
    and clock: "I s \<Longrightarrow> clk s \<le> k \<Longrightarrow> I (s\<lparr>clk := k\<rparr>)" and failure: "I s \<Longrightarrow> I (s\<lparr>last_context_failure := e\<rparr>)"
    and sems: "I s \<Longrightarrow> I (upd_sem j f1 s)" and flgs: "I s \<Longrightarrow> I (upd_flg j f2 s)" and mbxs: "I s \<Longrightarrow> I (upd_mbx j f3 s)"
    and stack: "stacks \<Longrightarrow> I s \<Longrightarrow> I (s\<lparr>stack_mem := g\<rparr>)"
    and own: "mine i \<Longrightarrow> I s \<Longrightarrow> I (upd_tcb i f s)"
    and other: "quiet (tcbs s i) (f (tcbs s i)) \<Longrightarrow> I s \<Longrightarrow> I (upd_tcb i f s)"
    and ended: "I s \<Longrightarrow> cause \<noteq> E_TMOUT \<Longrightarrow> part (end_wait i cause s) I"
begin

lemmas updates = links nexts soft status clock failure sems flgs mbxs

lemma tcb: "I s \<Longrightarrow> mine i \<or> quiet (tcbs s i) (f (tcbs s i)) \<Longrightarrow> I (upd_tcb i f s)"
  using own other by blast

lemma at_current: "I s \<Longrightarrow> (\<And>c. current s0 = Some c \<Longrightarrow> P c) \<Longrightarrow> part (current s) P"
  using ctx by (simp add: part_def)

lemmas [fr_intro] = updates tcb stack at_current ended [THEN part_mono]

lemma causes [simp]: "E_OK \<noteq> E_TMOUT" "E_RLWAI \<noteq> E_TMOUT" "E_DLT \<noteq> E_TMOUT"
  by (simp_all add: er_defs)

lemma resched: "I s \<Longrightarrow> part (reschedule s) I" "I s \<Longrightarrow> part (switch_away s) I"
  by (auto simp: reschedule_def switch_away_def dispatch_def intro!: fr_intro)

lemmas [fr_intro] = resched [THEN part_mono]

text \<open>
  The loops, by induction on the unfolding: one turn keeps the property if its body does and the
  turns after it do.
\<close>

lemma serve_loop_part: "I s \<Longrightarrow> part (serve_loop end_wait j pos n s) I"
proof (rule partI)
  show "I r" if "serve_loop end_wait j pos n s = Some r" "I s" for r
    using that
  proof (induction "end_wait :: nat \<Rightarrow> ER \<Rightarrow> kernel \<Rightarrow> kernel option" j pos n s r rule: serve_loop.raw_induct [rotated, consumes 1])
    case (1 f)
    show ?case by (rule partD [OF 1(2)]) (use 1(3) in \<open>auto intro!: fr_intro partI [OF 1(1)] split: wait_info.splits\<close>)
  qed
qed

lemma serve: "I s \<Longrightarrow> part (tkmc_sem_serve_waiters j s) I"
  by (auto simp: tkmc_sem_serve_waiters_def serve_waiters_with_def intro!: fr_intro serve_loop_part)

lemma complete: "I s \<Longrightarrow> cause \<noteq> E_TMOUT \<Longrightarrow> part (tkmc_complete_wait i cause s) I"
  by (auto simp: tkmc_complete_wait_def complete_wait_with_def intro!: fr_intro serve split: wait_info.splits)

lemmas [fr_intro] = complete [THEN part_mono] serve [THEN part_mono]

lemma read_time: "I s \<Longrightarrow> part (read_mtime s) (\<lambda>r. I (snd r))"
proof (rule partI)
  show "I (snd r)" if "read_mtime s = Some r" "I s" for r
    using that
  proof (induction rule: read_mtime.raw_induct [rotated, consumes 1])
    case (1 f)
    show ?case by (rule partD [OF 1(2)]) (use 1(3) in \<open>auto intro!: fr_intro partI [OF 1(1)] simp: in_mtime_high_def in_mtime_low_def\<close>)
  qed
qed

lemmas [fr_intro] = read_time [THEN part_mono]

lemma periods: "I s \<Longrightarrow> part (pass_periods mc n s) (\<lambda>r. I (snd (snd r)))"
proof (rule partI)
  show "I (snd (snd r))" if "pass_periods mc n s = Some r" "I s" for r
    using that
  proof (induction rule: pass_periods.raw_induct [rotated, consumes 1])
    case (1 f)
    show ?case by (rule partD [OF 1(2)]) (use 1(3) in \<open>auto intro!: fr_intro partI [OF 1(1)]\<close>)
  qed
qed

lemma sem_scanned: "I s \<Longrightarrow> part (sem_scan c j pos nx s) (\<lambda>r. I (snd r))"
proof (rule partI)
  show "I (snd r)" if "sem_scan c j pos nx s = Some r" "I s" for r
    using that
  proof (induction rule: sem_scan.raw_induct [rotated, consumes 1])
    case (1 f)
    show ?case by (rule partD [OF 1(2)]) (use 1(3) in \<open>auto intro!: fr_intro partI [OF 1(1)]\<close>)
  qed
qed

lemma sem_released: "I s \<Longrightarrow> part (release_sem_waiters j b s) (\<lambda>r. I (snd r))"
proof (rule partI)
  show "I (snd r)" if "release_sem_waiters j b s = Some r" "I s" for r
    using that
  proof (induction rule: release_sem_waiters.raw_induct [rotated, consumes 1])
    case (1 f)
    show ?case by (rule partD [OF 1(2)]) (use 1(3) in \<open>auto intro!: fr_intro partI [OF 1(1)]\<close>)
  qed
qed

lemma flg_scanned: "I s \<Longrightarrow> part (flg_scan c j pos s) (\<lambda>r. I (snd r))"
proof (rule partI)
  show "I (snd r)" if "flg_scan c j pos s = Some r" "I s" for r
    using that
  proof (induction rule: flg_scan.raw_induct [rotated, consumes 1])
    case (1 f)
    show ?case by (rule partD [OF 1(2)]) (use 1(3) in \<open>auto intro!: fr_intro partI [OF 1(1)]\<close>)
  qed
qed

lemma flg_set: "I s \<Longrightarrow> part (set_loop j pos nx s) I"
proof (rule partI)
  show "I r" if "set_loop j pos nx s = Some r" "I s" for r
    using that
  proof (induction rule: set_loop.raw_induct [rotated, consumes 1])
    case (1 f)
    show ?case by (rule partD [OF 1(2)]) (use 1(3) in \<open>auto intro!: fr_intro partI [OF 1(1)] simp: quiet_def split: wait_info.splits\<close>)
  qed
qed

lemma msg_scanned: "I s \<Longrightarrow> part (msg_scan m j pos s) (\<lambda>r. I (snd r))"
proof (rule partI)
  show "I (snd r)" if "msg_scan m j pos s = Some r" "I s" for r
    using that
  proof (induction rule: msg_scan.raw_induct [rotated, consumes 1])
    case (1 f)
    show ?case by (rule partD [OF 1(2)]) (use 1(3) in \<open>auto intro!: fr_intro partI [OF 1(1)]\<close>)
  qed
qed

lemma mbx_scanned: "I s \<Longrightarrow> part (mbx_scan c j pos s) (\<lambda>r. I (snd r))"
proof (rule partI)
  show "I (snd r)" if "mbx_scan c j pos s = Some r" "I s" for r
    using that
  proof (induction rule: mbx_scan.raw_induct [rotated, consumes 1])
    case (1 f)
    show ?case by (rule partD [OF 1(2)]) (use 1(3) in \<open>auto intro!: fr_intro partI [OF 1(1)]\<close>)
  qed
qed

lemma receiver_popped: "I s \<Longrightarrow> part (pop_waiting_receiver j s) (\<lambda>r. I (snd r))"
proof (rule partI)
  show "I (snd r)" if "pop_waiting_receiver j s = Some r" "I s" for r
    using that
  proof (induction rule: pop_waiting_receiver.raw_induct [rotated, consumes 1])
    case (1 f)
    show ?case by (rule partD [OF 1(2)]) (use 1(3) in \<open>auto intro!: fr_intro partI [OF 1(1)]\<close>)
  qed
qed

lemma waiter_ready: "I s \<Longrightarrow> cause \<noteq> E_TMOUT \<Longrightarrow> part (make_waiter_ready i cause m s) I"
  by (auto simp: make_waiter_ready_def quiet_def intro!: fr_intro)

lemmas [fr_intro] = periods [THEN part_mono] sem_scanned [THEN part_mono] sem_released [THEN part_mono]
  flg_scanned [THEN part_mono] flg_set [THEN part_mono] msg_scanned [THEN part_mono] mbx_scanned [THEN part_mono]
  receiver_popped [THEN part_mono] waiter_ready [THEN part_mono]

lemma receivers_released: "I s \<Longrightarrow> part (release_receivers j s) I"
proof (rule partI)
  show "I r" if "release_receivers j s = Some r" "I s" for r
    using that
  proof (induction rule: release_receivers.raw_induct [rotated, consumes 1])
    case (1 f)
    show ?case by (rule partD [OF 1(2)]) (use 1(3) in \<open>auto intro!: fr_intro partI [OF 1(1)] split: option.splits\<close>)
  qed
qed

lemma waits:
  "I s \<Longrightarrow> mine i \<Longrightarrow> part (tkmc_schedule_timer i ticks w s) I" "I s \<Longrightarrow> mine i \<Longrightarrow> part (wait_for_ever i w s) I"
  by (auto simp: tkmc_schedule_timer_def wait_for_ever_def pass_elapsed_periods_def intro!: fr_intro)

lemma starts_wait: "I s \<Longrightarrow> mine i \<Longrightarrow> part (start_wait i w tmout s) I"
  by (simp add: start_wait_def waits)

lemma queues:
  "I s \<Longrightarrow> part (sem_enqueue c j s) I" "I s \<Longrightarrow> part (flg_enqueue c j s) I" "I s \<Longrightarrow> part (insert_waiter j c s) I"
  "I s \<Longrightarrow> part (insert_msg_pri j m s) I" "I s \<Longrightarrow> part (insert_msg_fifo j m s) I" "I s \<Longrightarrow> part (dispatch_if_needed s) I"
  by (auto simp: sem_enqueue_def flg_enqueue_def insert_waiter_def insert_msg_pri_def insert_msg_fifo_def
      dispatch_if_needed_def intro!: fr_intro)

lemmas [fr_intro] = receivers_released [THEN part_mono] waits [THEN part_mono] starts_wait [THEN part_mono]
  queues [THEN part_mono]

section \<open>Every call keeps every frame\<close>

lemma crit_at:
  assumes "\<And>m. part (body (mstatus s OR NOT MSTATUS_MIE) (s\<lparr>mstatus := m\<rparr>)) (\<lambda>(r :: 'b outcome, s'). I s')"
  shows "part (crit body s) (\<lambda>(r, s'). I s')"
proof -
  have "I s' \<Longrightarrow> I (case r of Halt \<Rightarrow> s' | _ \<Rightarrow> EI i s')" for r :: "'b outcome" and s' i
    by (cases r) (simp_all add: EI_def status)
  then show ?thesis unfolding crit_def DI_def by (auto intro: part_mono [OF assms])
qed

lemma crit_part:
  "I s \<Longrightarrow> (\<And>i s1. I s1 \<Longrightarrow> part (body i s1) (\<lambda>(r, s'). I s')) \<Longrightarrow> part (crit body s) (\<lambda>(r, s'). I s')"
  by (rule crit_at) (simp add: status)

text \<open>
  A call that may block takes the processor from its caller only: from an interrupt handler and with
  interrupts off it refuses, so there every task keeps its state.
\<close>

lemma block_part:
  assumes "\<And>c. isr_depth s0 = 0 \<Longrightarrow> mstatus s0 AND MSTATUS_MIE \<noteq> 0 \<Longrightarrow> current s0 = Some c \<Longrightarrow> mine c"
    and "\<And>i s1. I s1 \<Longrightarrow> (\<And>c. tkmc_can_block i s1 \<Longrightarrow> current s0 = Some c \<Longrightarrow> mine c) \<Longrightarrow> part (body i s1) (\<lambda>(r, s'). I s')"
  shows "part (crit body s0) (\<lambda>(r, s'). I s')"
proof (rule crit_at, rule assms(2))
  show "I (s0\<lparr>mstatus := m\<rparr>)" for m by (intro status base)
  show "mine c" if "tkmc_can_block (mstatus s0 OR NOT MSTATUS_MIE) (s0\<lparr>mstatus := m\<rparr>)" "current s0 = Some c" for c m
    using assms(1) [OF _ _ that(2)] that(1) by (simp add: tkmc_can_block_def tkmc_in_isr_def)
qed

lemma task_calls:
  "stacks \<Longrightarrow> part (tk_sta_tsk objid stacd s0) (\<lambda>(r, s'). I s')"
  "part (tk_rel_wai objid s0) (\<lambda>(r, s'). I s')" "part (tk_wup_tsk objid s0) (\<lambda>(r, s'). I s')"
  "part (take_wupcause s0) (\<lambda>(r, s'). I s')"
  unfolding tk_sta_tsk_def tk_rel_wai_def tk_wup_tsk_def queue_wakeup_def take_wupcause_def Let_def
  by (auto simp: base quiet_def intro!: crit_part fr_intro)

lemma yield: "I s \<Longrightarrow> part (tkmc_yield s) (\<lambda>(r, s'). I s')"
  unfolding tkmc_yield_def by (auto simp: Let_def intro!: crit_part fr_intro)

lemma waiting_calls:
  assumes "\<And>c. isr_depth s0 = 0 \<Longrightarrow> mstatus s0 AND MSTATUS_MIE \<noteq> 0 \<Longrightarrow> current s0 = Some c \<Longrightarrow> mine c"
  shows "part (tk_ext_tsk s0) (\<lambda>(r, s'). I s')" and "part (tk_exd_tsk s0) (\<lambda>(r, s'). I s')"
    and "part (tk_slp_tsk tmout s0) (\<lambda>(r, s'). I s')"
    and "part (tk_wai_sem objid cnt tmout s0) (\<lambda>(r, s'). I s')"
    and "part (tk_wai_flg objid w m p tmout s0) (\<lambda>(r, s'). I s')"
    and "part (tk_rcv_mbx objid p tmout s0) (\<lambda>(r, s'). I s')"
  unfolding tk_ext_tsk_def tk_exd_tsk_def tkmc_fatal_context_def snd_DI tk_slp_tsk_def tk_wai_sem_def tk_wai_flg_def
    tk_rcv_mbx_def Let_def
  by (auto simp: base quiet_def split: option.splits intro!: block_part [OF assms] fr_intro)

lemma delay_call:
  assumes "\<And>c. isr_depth s0 = 0 \<Longrightarrow> mstatus s0 AND MSTATUS_MIE \<noteq> 0 \<Longrightarrow> current s0 = Some c \<Longrightarrow> mine c"
  shows "part (tk_dly_tsk dlytm s0) (\<lambda>(r, s'). I s')"
proof -
  have "part (crit (\<lambda>intsts s.
       if \<not> tkmc_can_block intsts s then Some (Return E_CTX, s)
       else if dlytm = 0 then Some (Return E_OK, s)
       else do {
         c \<leftarrow> current s;
         s \<leftarrow> tkmc_schedule_timer c (tkmc_ms_to_ticks dlytm) TTW_DLY s;
         Some (Block, s) }) s0) (\<lambda>(r, s'). I s')"
    by (rule block_part [OF assms]) (auto intro!: fr_intro)
  then show ?thesis unfolding tk_dly_tsk_def part_simps by (rule part_mono) (auto intro!: part_mono [OF yield])
qed

lemma delay_ends: "part (tk_dly_tsk_resume s0) (\<lambda>(r, s'). I s')"
  unfolding tk_dly_tsk_resume_def part_simps by (rule part_mono [OF task_calls(4)]) auto

lemma object_calls:
  "part (tk_cre_sem pk s0) (\<lambda>(r, s'). I s')" "part (tk_sig_sem objid cnt s0) (\<lambda>(r, s'). I s')"
  "part (tk_del_sem objid s0) (\<lambda>(r, s'). I s')"
  "part (tk_cre_flg pf s0) (\<lambda>(r, s'). I s')" "part (tk_wai_flg_resume s0) (\<lambda>(r, s'). I s')"
  "part (tk_set_flg objid x s0) (\<lambda>(r, s'). I s')" "part (tk_clr_flg objid x s0) (\<lambda>(r, s'). I s')"
  "part (tk_cre_mbx pm s0) (\<lambda>(r, s'). I s')" "part (tk_del_mbx objid s0) (\<lambda>(r, s'). I s')"
  "part (tk_snd_mbx objid p s0) (\<lambda>(r, s'). I s')"
  unfolding tk_cre_sem_def tk_sig_sem_def tk_del_sem_def tk_cre_flg_def tk_wai_flg_resume_def tk_set_flg_def tk_clr_flg_def
    tk_cre_mbx_def tk_del_mbx_def tk_snd_mbx_def Let_def
  by (auto simp: base quiet_def split: option.splits wait_info.splits intro!: crit_part fr_intro)

lemma message_ends:
  assumes "running s0 c"
  shows "part (tk_rcv_mbx_resume s0) (\<lambda>(r, s'). I s')"
  unfolding tk_rcv_mbx_resume_def Let_def
  by (rule crit_at) (use assms in \<open>auto simp: base quiet_def running_def split: wait_info.splits intro!: fr_intro\<close>)

end

section \<open>The timer interrupt\<close>

text \<open>The timer interrupt writes more: the compare value, the ticks of the waiting tasks, and the cause \<open>E_TMOUT\<close>.\<close>

locale timer_frame = call_frame +
  assumes tmout: "I s \<Longrightarrow> part (end_wait i E_TMOUT s) I" and cmp: "I s \<Longrightarrow> I (s\<lparr>s_mtimecmp := v\<rparr>)"
    and reg: "I s \<Longrightarrow> I (s\<lparr>mtimecmp_reg := v\<rparr>)" and tick: "I s \<Longrightarrow> I (upd_tcb i (\<lambda>t. t\<lparr>delay_ticks := delay_ticks t - n\<rparr>) s)"
begin

lemma timeout: "I s \<Longrightarrow> part (tkmc_complete_wait i E_TMOUT s) I"
  by (auto simp: tkmc_complete_wait_def complete_wait_with_def intro!: fr_intro tmout [THEN part_mono] split: wait_info.splits)

lemma ticks: "I s \<Longrightarrow> part (tick_from n pos s) I"
proof (rule partI)
  show "I r" if "tick_from n pos s = Some r" "I s" for r
    using that
  proof (induction rule: tick_from.raw_induct [rotated, consumes 1])
    case (1 f)
    show ?case by (rule partD [OF 1(2)]) (use 1(3) in \<open>auto simp del: part_links intro!: tick part_reads partI [OF 1(1)]\<close>)
  qed
qed

lemma expiry: "I s \<Longrightarrow> part (expire n e s) (\<lambda>r. I (snd r))"
proof (rule partI)
  show "I (snd r)" if "expire n e s = Some r" "I s" for r
    using that
  proof (induction rule: expire.raw_induct [rotated, consumes 1])
    case (1 f)
    show ?case
      by (rule partD [OF 1(2)])
        (use 1(3) in \<open>auto intro!: part_reads ticks [THEN part_mono] timeout [THEN part_mono] partI [OF 1(1)] split: option.splits\<close>)
  qed
qed

lemma handler: "part (tkmc_timer_handler s0) I"
  unfolding tkmc_timer_handler_def pass_elapsed_periods_def
  by (auto simp: write_mtimecmp_eq base intro!: fr_intro expiry [THEN part_mono] cmp reg)

end

section \<open>The frame of a call\<close>

definition framed :: "nat option \<times> bool \<Rightarrow> ('a outcome \<times> kernel) option \<Rightarrow> kernel \<Rightarrow> bool" where
  "framed a m s \<longleftrightarrow> (\<forall>I. call_frame I s (\<lambda>i. fst a = Some i) (\<not> snd a) \<longrightarrow> part m (\<lambda>(r, s'). I s'))"

lemma framedI: "(\<And>I. call_frame I s (\<lambda>i. fst a = Some i) (\<not> snd a) \<Longrightarrow> part m (\<lambda>(r, s'). I s')) \<Longrightarrow> framed a m s"
  by (simp add: framed_def)

lemma framedD: "framed a m s \<Longrightarrow> call_frame I s (\<lambda>i. fst a = Some i) (\<not> snd a) \<Longrightarrow> part m (\<lambda>(r, s'). I s')"
  by (simp add: framed_def)

lemma framed_same [simp]: "framed a (Some (r, s)) s"
  by (simp add: framed_def call_frame.base)

text \<open>Whose control block a call that may block changes: nobody's from a handler or with interrupts off, where it refuses.\<close>

definition actor :: "nat option \<times> bool \<Rightarrow> kernel \<Rightarrow> bool" where
  "actor a s \<longleftrightarrow> fst a = current s \<or> tkmc_in_isr s \<or> mstatus s AND MSTATUS_MIE = 0"

lemma framed_task:
  "framed (c, False) (tk_sta_tsk objid stacd s) s" "framed a (tk_rel_wai objid s) s" "framed a (tk_wup_tsk objid s) s"
  "framed a (take_wupcause s) s" "framed a (tk_dly_tsk_resume s) s" "framed a (tkmc_yield s) s"
  by (auto intro!: framedI call_frame.task_calls call_frame.delay_ends call_frame.yield intro: call_frame.base)

lemma framed_object:
  "framed a (tk_cre_sem pk s) s" "framed a (tk_sig_sem objid cnt s) s" "framed a (tk_del_sem objid s) s"
  "framed a (tk_cre_flg pf s) s" "framed a (tk_wai_flg_resume s) s" "framed a (tk_set_flg objid x s) s"
  "framed a (tk_clr_flg objid x s) s" "framed a (tk_cre_mbx pm s) s" "framed a (tk_del_mbx objid s) s"
  "framed a (tk_snd_mbx objid p s) s"
  by (auto intro!: framedI call_frame.object_calls)

lemma framed_message: "running s c \<Longrightarrow> framed a (tk_rcv_mbx_resume s) s"
  by (auto intro!: framedI call_frame.message_ends)

lemma framed_wait:
  assumes "actor a s"
  shows "framed a (tk_ext_tsk s) s" and "framed a (tk_exd_tsk s) s" and "framed a (tk_slp_tsk tmout s) s"
    and "framed a (tk_wai_sem objid cnt tmout s) s" and "framed a (tk_wai_flg objid w m p tmout s) s"
    and "framed a (tk_rcv_mbx objid p tmout s) s" and "framed a (tk_dly_tsk dlytm s) s"
  using assms by (auto simp: actor_def tkmc_in_isr_def intro!: framedI call_frame.waiting_calls call_frame.delay_call)

lemma framed_cre_tsk:
  assumes "sys_inv s"
  shows "framed a (tk_cre_tsk pk s) s"
proof (cases pk)
  case (Some p)
  obtain Q where Q: "rep (links s) Q" "ginv s Q" using assms by (auto simp: sys_inv_def)
  show ?thesis
  proof (cases "valid_ctsk p")
    case False
    then show ?thesis using tk_cre_tsk_refuses [OF False, of s] by (simp add: Some)
  next
    case True
    obtain ns where q: "Q FreeTcb = Some ns" using Q by (auto simp: ginv_def kinv_def static_def)
    show ?thesis
    proof (cases ns)
      case Nil
      then show ?thesis using tk_cre_tsk_full [OF Q(1) _ True] q by (simp add: Some)
    next
      case (Cons n ms)
      then have f: "in_ring Q FreeTcb n" using q by (simp add: in_ring_def)
      then obtain i where n: "n = TcbHead i"
        using Q typed_in_ring [of Q FreeTcb n] by (auto simp: ginv_def kinv_def split: node.splits)
      have "tskstat (tcbs s i) = TTS_NOEXS" using free_task(2) [OF Q(1), of s i] Q f n by (simp add: ginv_def)
      then have quiet: "quiet (tcbs s i) (new_tcb p (tcbs s i))" by (simp add: quiet_def)
      have I: "I ((upd_tcb i (new_tcb p) s)\<lparr>links := h\<rparr>)" if "call_frame I s M b" for I M b h
        by (rule call_frame.links [OF that call_frame.other [where f = "new_tcb p", OF that quiet call_frame.base [OF that]]])
      show ?thesis
      proof (rule framedI)
        fix J
        assume J: "call_frame J s (\<lambda>i. fst a = Some i) (\<not> snd a)"
        show "part (tk_cre_tsk pk s) (\<lambda>(r, s'). J s')"
          using tk_cre_tsk_new [OF Q _ True, of i ms] q n Cons I [OF J] by (auto simp: Some part_def ok_def)
      qed
    qed
  qed
qed (simp add: tk_cre_tsk_def)

section \<open>The running task, and the registers of the others\<close>

text \<open>The first component of \<open>a\<close> is the caller; the second says whether the stack memory stays as it is.\<close>

definition fr :: "nat option \<times> bool \<Rightarrow> kernel \<Rightarrow> kernel \<Rightarrow> bool" where
  "fr a s0 s \<longleftrightarrow> current s = current s0 \<and> mtime s = mtime s0 \<and> isr_depth s = isr_depth s0 \<and> (snd a \<longrightarrow> stack_mem s = stack_mem s0) \<and>
     (\<forall>i. fst a \<noteq> Some i \<longrightarrow> (runnable (tcbs s0 i) \<longrightarrow> runnable (tcbs s i)) \<and>
       (live (tcbs s0 i) \<longrightarrow> live (tcbs s i) \<and> sp (tcbs s i) = sp (tcbs s0 i) \<and> itskpri (tcbs s i) = itskpri (tcbs s0 i)))"

lemma fr_tcb:
  "fr a s0 s \<Longrightarrow> fst a = Some i \<or> (runnable (tcbs s i) \<longrightarrow> runnable (f (tcbs s i))) \<and>
    (live (tcbs s i) \<longrightarrow> live (f (tcbs s i)) \<and> sp (f (tcbs s i)) = sp (tcbs s i) \<and> itskpri (f (tcbs s i)) = itskpri (tcbs s i)) \<Longrightarrow> fr a s0 (upd_tcb i f s)"
  by (auto simp: fr_def)

lemma fr_links: "fr a s0 (s\<lparr>links := h\<rparr>) = fr a s0 s"
  by (simp add: fr_def)

interpretation kept: timer_frame "fr a s0" s0 "\<lambda>i. fst a = Some i" "\<not> snd a" for a s0
proof
  show ended: "part (end_wait i cause s) (fr a s0)" if "fr a s0 s" for i cause s
    by (rule part_mono [OF end_wait_effect]) (use fr_tcb [OF that, of i "wake_tcb cause"] in \<open>auto simp: fr_links wake_tcb_def\<close>)
  show "part (end_wait i E_TMOUT s) (fr a s0)" if "fr a s0 s" for i s using that by (rule ended)
  show "fr a s0 (upd_tcb i f s)" if "quiet (tcbs s i) (f (tcbs s i))" "fr a s0 s" for i f s
    using that by (intro fr_tcb) (auto simp: quiet_def)
qed (auto simp: fr_def)

lemma framed_fr: "framed a m s \<Longrightarrow> part m (\<lambda>(r, s'). fr a s s')"
  using framedD kept.call_frame_axioms by blast

section \<open>The end of a task\<close>

text \<open>
  What the two calls that end the running task do: outside a task they record the misuse and
  stop with interrupts masked, otherwise the task loses its ready queue and a switch is asked for.
\<close>

definition exit_result :: "context_api \<Rightarrow> (TCB \<Rightarrow> TCB) \<Rightarrow> kernel \<Rightarrow> unit outcome \<Rightarrow> kernel \<Rightarrow> bool" where
  "exit_result api f s r s' \<longleftrightarrow>
     (if \<not> tkmc_can_block (mstatus s OR NOT MSTATUS_MIE) s
      then r = Halt \<and> s' = s\<lparr>mstatus := mstatus s AND NOT MSTATUS_MIE, last_context_failure := (api, E_CTX)\<rparr>
      else r = Block \<and> (\<exists>c. current s = Some c \<and> tcbs s' = (tcbs s)(c := f (tcbs s c)) \<and> current s' = current s \<and>
        isr_depth s' = isr_depth s \<and> msip s' \<and> stack_mem s' = stack_mem s \<and> ext_entry s' = ext_entry s \<and>
        semcbs s' = semcbs s \<and> flgcbs s' = flgcbs s \<and> mbxcbs s' = mbxcbs s))"

lemma part_switch_away: "(\<And>n. P (s\<lparr>next_tsk := n, msip := True\<rparr>)) \<Longrightarrow> part (switch_away s) P"
  by (auto simp: switch_away_def dispatch_def intro!: part_any)

lemma exit_effect:
  "part (tk_ext_tsk s) (\<lambda>(r, s'). exit_result TKMC_CONTEXT_EXT_TSK (\<lambda>t. t\<lparr>tskstat := TTS_DMT, tskwait := TTW_NONE\<rparr>) s r s')"
  "part (tk_exd_tsk s) (\<lambda>(r, s'). exit_result TKMC_CONTEXT_EXD_TSK (\<lambda>t. t\<lparr>tskstat := TTS_NOEXS\<rparr>) s r s')"
proof -
  let ?s = "s\<lparr>mstatus := mstatus s AND NOT MSTATUS_MIE\<rparr>"
  have b: "tkmc_can_block i ?s = tkmc_can_block i s" for i by (simp add: tkmc_can_block_def tkmc_in_isr_def)
  show "part (tk_ext_tsk s) (\<lambda>(r, s'). exit_result TKMC_CONTEXT_EXT_TSK (\<lambda>t. t\<lparr>tskstat := TTS_DMT, tskwait := TTW_NONE\<rparr>) s r s')"
    "part (tk_exd_tsk s) (\<lambda>(r, s'). exit_result TKMC_CONTEXT_EXD_TSK (\<lambda>t. t\<lparr>tskstat := TTS_NOEXS\<rparr>) s r s')"
    unfolding tk_ext_tsk_def tk_exd_tsk_def crit_def DI_def tkmc_fatal_context_def
    by (auto simp: b exit_result_def mask_twice EI_def part_def [of "current s"] intro!: part_links part_switch_away)
qed

end
