(* ===== verification/TK_System.thy ===== *)
theory TK_System
  imports TK_Frame
begin

text \<open>
  The kernel as a whole: the service calls, the resumption of a call that blocked and the three
  traps as the steps of one state machine. Every call that its caller may make returns and keeps
  the invariant, every trap that the processor can take is served, and so no reachable state is
  stuck.
\<close>

section \<open>A system that can go on\<close>

text \<open>The idle task is the second one created (\<^verbatim>\<open>tkmc_start\<close>); it never waits and never ends.\<close>

definition IDLE :: nat where "IDLE = 1"

definition alive :: "kernel \<Rightarrow> bool" where
  "alive s \<longleftrightarrow> sys_inv s \<and> clock_ok (mtime s) \<and> current s \<noteq> None \<and> runnable (tcbs s IDLE) \<and>
     itskpri (tcbs s IDLE) = int CFN_MAX_PRI"

text \<open>
  Who may make a call that can block: any code, once a pending switch has been taken, but the idle
  task (\<^verbatim>\<open>kernel/asm/rv32/idl_tsk.S\<close> makes none).
\<close>

definition may_wait :: "kernel \<Rightarrow> bool" where
  "may_wait s \<longleftrightarrow> settled s \<and> (current s \<noteq> Some IDLE \<or> tkmc_in_isr s)"

text \<open>What a call leaves of the tasks that do not run: they stay live, with their registers where they were.\<close>

definition others_same :: "bool \<Rightarrow> kernel \<Rightarrow> kernel \<Rightarrow> bool" where
  "others_same b s s' \<longleftrightarrow> current s' = current s \<and> (b \<longrightarrow> stack_mem s' = stack_mem s) \<and>
     (\<forall>i. current s \<noteq> Some i \<longrightarrow> live (tcbs s i) \<longrightarrow> live (tcbs s' i) \<and> sp (tcbs s' i) = sp (tcbs s i))"

definition void :: "('a outcome \<times> kernel) option \<Rightarrow> (unit outcome \<times> kernel) option" where
  "void m = map_option (map_prod (map_outcome (\<lambda>_. ())) id) m"

lemma framed_void: "framed a m s \<Longrightarrow> framed a (void m) s"
  unfolding framed_def by (auto simp: part_def void_def map_prod_def split: prod.splits)

text \<open>The contract of a service call, and what it gives the system.\<close>

locale service =
  fixes call :: "kernel \<Rightarrow> ('a outcome \<times> kernel) option" and pre :: "kernel \<Rightarrow> bool" and stacks_kept :: bool
  assumes call_inv: "alive s \<Longrightarrow> pre s \<Longrightarrow> call_ok (call s) s"
    and call_framed: "alive s \<Longrightarrow> pre s \<Longrightarrow>
      \<exists>a. a \<noteq> Some IDLE \<and> (a = None \<or> (\<exists>c. a = Some c \<and> running s c)) \<and> framed (a, stacks_kept) (call s) s"
begin

lemma serves:
  assumes "alive s" and "pre s"
  shows "ok (call s) (\<lambda>(r, s'). alive s' \<and> current s' = current s \<and> isr_depth s' = isr_depth s \<and>
    (r \<noteq> Halt \<longrightarrow> mstatus s' = mstatus s))"
proof -
  obtain a where a: "a \<noteq> Some IDLE" and f: "part (call s) (\<lambda>(r, s'). fr (a, stacks_kept) s s')"
    using call_framed [OF assms] framed_fr by blast
  have "ok (call s) (\<lambda>(r, s'). sys_inv s' \<and> (r \<noteq> Halt \<longrightarrow> mstatus s' = mstatus s))"
    using call_inv [OF assms] by (simp add: call_ok_def)
  from part_ok [OF this f] show ?thesis
    by (rule ok_mono) (use assms a in \<open>auto simp: alive_def fr_def\<close>)
qed

lemma keeps_frames:
  assumes "alive s" and "pre s"
  shows "\<exists>a. (a = None \<or> (\<exists>c. a = Some c \<and> running s c)) \<and> framed (a, stacks_kept) (void (call s)) s"
  using call_framed [OF assms] framed_void by blast

end

lemma service_plain:
  assumes "\<And>s. sys_inv s \<Longrightarrow> call_ok (call s) s" and "\<And>s. sys_inv s \<Longrightarrow> framed (None, b) (call s) s"
  shows "service call (\<lambda>_. True) b"
  by unfold_locales (use assms in \<open>auto simp: alive_def intro!: exI [of _ None]\<close>)

lemma service_wait:
  assumes "\<And>s. sys_inv s \<Longrightarrow> settled s \<Longrightarrow> clock_ok (mtime s) \<Longrightarrow> call_ok (call s) s"
    and "\<And>a s. actor a s \<Longrightarrow> framed a (call s) s"
  shows "service call may_wait b"
proof
  fix s
  assume s: "alive s" "may_wait s"
  show "call_ok (call s) s" using assms(1) s by (simp add: alive_def may_wait_def)
  show "\<exists>a. a \<noteq> Some IDLE \<and> (a = None \<or> (\<exists>c. a = Some c \<and> running s c)) \<and> framed (a, b) (call s) s"
  proof (cases "tkmc_in_isr s \<or> mstatus s AND MSTATUS_MIE = 0")
    case True
    then show ?thesis using assms(2) [of "(None, b)" s] by (auto simp: actor_def)
  next
    case False
    then have "\<not> msip s" using s(2) by (simp add: may_wait_def settled_def)
    then obtain c where "running s c" using s(1) by (auto simp: alive_def sys_inv_def ginv_def sched_ok_def running_def)
    then show ?thesis
      using assms(2) [of "(current s, b)" s] s(2) False by (auto simp: actor_def may_wait_def running_def)
  qed
qed

interpretation cre_tsk: service "tk_cre_tsk pk" "\<lambda>_. True" True for pk
  by (rule service_plain [OF tk_cre_tsk_call_ok framed_cre_tsk])

interpretation sta_tsk: service "tk_sta_tsk objid stacd" "\<lambda>_. True" False for objid stacd
  by (rule service_plain [OF tk_sta_tsk_call_ok framed_task(1)])

interpretation rel_wai: service "tk_rel_wai objid" "\<lambda>_. True" True for objid
  by (rule service_plain [OF tk_rel_wai_call_ok framed_task(2)])

interpretation wup_tsk: service "tk_wup_tsk objid" "\<lambda>_. True" True for objid
  by (rule service_plain [OF tk_wup_tsk_call_ok framed_task(3)])

interpretation ext_tsk: service "tk_ext_tsk" may_wait True
  by (rule service_wait [OF tk_ext_tsk_call_ok framed_wait(1)])

interpretation exd_tsk: service "tk_exd_tsk" may_wait True
  by (rule service_wait [OF tk_exd_tsk_call_ok framed_wait(2)])

interpretation slp_tsk: service "tk_slp_tsk tmout" may_wait True for tmout
  by (rule service_wait [OF tk_slp_tsk_call_ok framed_wait(3)])

interpretation dly_tsk: service "tk_dly_tsk dlytm" may_wait True for dlytm
  by (rule service_wait [OF tk_dly_tsk_call_ok framed_wait(7)])

interpretation cre_sem: service "tk_cre_sem pk" "\<lambda>_. True" True for pk
  by (rule service_plain [OF tk_cre_sem_call_ok framed_object(1)])

interpretation sig_sem: service "tk_sig_sem objid cnt" "\<lambda>_. True" True for objid cnt
  by (rule service_plain [OF tk_sig_sem_call_ok framed_object(2)])

interpretation del_sem: service "tk_del_sem objid" "\<lambda>_. True" True for objid
  by (rule service_plain [OF tk_del_sem_call_ok framed_object(3)])

interpretation wai_sem: service "tk_wai_sem objid cnt tmout" may_wait True for objid cnt tmout
  by (rule service_wait [OF tk_wai_sem_call_ok framed_wait(4)])

interpretation cre_flg: service "tk_cre_flg pk" "\<lambda>_. True" True for pk
  by (rule service_plain [OF tk_cre_flg_call_ok framed_object(4)])

interpretation set_flg: service "tk_set_flg objid ptn" "\<lambda>_. True" True for objid ptn
  by (rule service_plain [OF tk_set_flg_call_ok framed_object(6)])

interpretation clr_flg: service "tk_clr_flg objid ptn" "\<lambda>_. True" True for objid ptn
  by (rule service_plain [OF tk_clr_flg_call_ok framed_object(7)])

interpretation wai_flg: service "tk_wai_flg objid wptn mode p tmout" may_wait True for objid wptn mode p tmout
  by (rule service_wait [OF tk_wai_flg_call_ok framed_wait(5)])

interpretation cre_mbx: service "tk_cre_mbx pk" "\<lambda>_. True" True for pk
  by (rule service_plain [OF tk_cre_mbx_call_ok framed_object(8)])

interpretation del_mbx: service "tk_del_mbx objid" "\<lambda>_. True" True for objid
  by (rule service_plain [OF tk_del_mbx_call_ok framed_object(9)])

interpretation rcv_mbx: service "tk_rcv_mbx objid p tmout" may_wait True for objid p tmout
  by (rule service_wait [OF tk_rcv_mbx_call_ok framed_wait(6)])

text \<open>
  Sending passes the packet to the mailbox, so the caller must own it: it is on no queue yet.
\<close>

definition owned_msg :: "addr \<Rightarrow> kernel \<Rightarrow> bool" where
  "owned_msg m s \<longleftrightarrow> (\<forall>Q. rep (links s) Q \<longrightarrow> ginv s Q \<longrightarrow> idle_node (MsgLink m) Q)"

interpretation snd_mbx: service "tk_snd_mbx objid m" "owned_msg m" True for objid m
proof
  fix s
  assume "alive s" "owned_msg m s"
  then show "call_ok (tk_snd_mbx objid m s) s" by (intro tk_snd_mbx_call_ok) (auto simp: alive_def owned_msg_def)
qed (use framed_object(10) in blast)

text \<open>
  The second half of a call that blocked runs when its caller is switched to again; the yield is a
  call of the running task.
\<close>

definition resumes :: "(wait_info \<Rightarrow> bool) \<Rightarrow> kernel \<Rightarrow> bool" where
  "resumes P s \<longleftrightarrow> (\<exists>c. running s c \<and> P (winfo (tcbs s c)))"

interpretation wupcause: service take_wupcause "resumes (\<lambda>_. True)" True
proof
  fix s
  assume "alive s"
  then show "call_ok (take_wupcause s) s" by (intro take_wupcause_call_ok) (auto simp: alive_def)
qed (use framed_task(4) in blast)

interpretation dly_resume: service tk_dly_tsk_resume "resumes (\<lambda>_. True)" True
proof
  fix s
  assume "alive s"
  then show "call_ok (tk_dly_tsk_resume s) s" by (intro tk_dly_tsk_resume_call_ok) (auto simp: alive_def)
qed (use framed_task(5) in blast)

interpretation flg_resume: service tk_wai_flg_resume "resumes (\<lambda>w. \<exists>a b g. w = WFlg a b g)" True
proof
  fix s
  assume "alive s" "resumes (\<lambda>w. \<exists>a b g. w = WFlg a b g) s"
  then show "call_ok (tk_wai_flg_resume s) s"
    by (auto simp: alive_def resumes_def running_def intro!: tk_wai_flg_resume_call_ok)
qed (use framed_object(5) in blast)

interpretation mbx_resume: service tk_rcv_mbx_resume "resumes (\<lambda>w. \<exists>m. w = WMbx m)" True
proof
  fix s
  assume "alive s" "resumes (\<lambda>w. \<exists>m. w = WMbx m) s"
  then show "call_ok (tk_rcv_mbx_resume s) s"
    by (auto simp: alive_def resumes_def intro!: tk_rcv_mbx_resume_call_ok)
next
  fix s
  assume "alive s" "resumes (\<lambda>w. \<exists>m. w = WMbx m) s"
  then show "\<exists>a. a \<noteq> Some IDLE \<and> (a = None \<or> (\<exists>c. a = Some c \<and> running s c)) \<and> framed (a, True) (tk_rcv_mbx_resume s) s"
    by (auto simp: resumes_def intro: framed_message)
qed

interpretation yield: service tkmc_yield "resumes (\<lambda>_. True)" True
proof
  fix s
  assume "alive s" "resumes (\<lambda>_. True) s"
  then show "call_ok (tkmc_yield s) s" by (auto simp: alive_def resumes_def intro!: tkmc_yield_call_ok)
qed (use framed_task(6) in blast)

section \<open>The traps\<close>

text \<open>
  The external interrupt of \<^verbatim>\<open>start.S\<close> around its handler: only the outermost one serves a pending
  switch; a nested one returns to the handler below it.
\<close>

definition external_enter :: "kernel \<Rightarrow> kernel" where
  "external_enter = enter_isr"

definition external_exit :: "addr \<Rightarrow> kernel \<Rightarrow> (addr \<times> kernel) option" where
  "external_exit frame s = do {
     (frame, s) \<leftarrow> (if isr_depth s = 1 then serve_msip frame s else Some (frame, s));
     Some (frame, leave_isr s) }"

lemma alive_isr [simp]: "alive (s\<lparr>isr_depth := d\<rparr>) = alive s"
  by (simp add: alive_def)

lemma alive_can_switch: "alive s \<Longrightarrow> msip s \<Longrightarrow> can_switch s"
  by (auto simp: alive_def can_switch_def IDLE_def intro!: exI [of _ 1])

lemma resumed_alive:
  "alive s \<Longrightarrow> sys_inv s' \<Longrightarrow> mtime s' = mtime s \<Longrightarrow> itskpri (tcbs s' IDLE) = itskpri (tcbs s IDLE) \<Longrightarrow> resumed a s f s' \<Longrightarrow> alive s'"
proof -
  assume a: "alive s" "sys_inv s'" "mtime s' = mtime s" "itskpri (tcbs s' IDLE) = itskpri (tcbs s IDLE)" and r: "resumed a s f s'"
  have all: "\<forall>i < CFN_MAX_TSKID. runnable (tcbs s' i) \<longleftrightarrow> runnable (tcbs s i)"
    using r unfolding resumed_def by blast
  have "runnable (tcbs s' 1) \<longleftrightarrow> runnable (tcbs s 1)" by (rule all [rule_format]) simp
  then show "alive s'" using a r by (auto simp: alive_def resumed_def IDLE_def)
qed

lemma schedule_mtime: "part (schedule a s) (\<lambda>(f, s'). mtime s' = mtime s \<and> (\<forall>i. itskpri (tcbs s' i) = itskpri (tcbs s i)))"
  by (auto simp: schedule_def Let_def part_def bind_eq_Some_conv split: if_splits)

text \<open>After a trap that serves the switch the best runnable task runs, and no switch is pending.\<close>

lemma schedule_alive:
  assumes "alive s" and "msip s"
  shows "ok (schedule a (s\<lparr>msip := False\<rparr>)) (\<lambda>(f, s'). alive s' \<and> \<not> msip s' \<and> mstatus s' = mstatus s \<and>
    isr_depth s' = isr_depth s \<and> resumed a s f s')"
proof -
  obtain Q where Q: "rep (links s) Q" "ginv s Q" using assms(1) by (auto simp: alive_def sys_inv_def)
  from part_ok [OF schedule_resumed [OF Q alive_can_switch [OF assms], of a] schedule_mtime] show ?thesis
    by (rule ok_mono) (auto intro: resumed_alive [OF assms(1)])
qed

lemma serve_msip_alive:
  assumes "alive s"
  shows "ok (serve_msip a s) (\<lambda>(f, s'). alive s' \<and> \<not> msip s' \<and> mstatus s' = mstatus s \<and> isr_depth s' = isr_depth s \<and>
    (if msip s then resumed a s f s' else f = a \<and> s' = s))"
  using schedule_alive [OF assms, of a] assms by (auto simp: serve_msip_def elim: ok_mono)

lemma mtrap_handler_alive:
  assumes "alive s" and "msip s"
  shows "ok (mtrap_handler a s) (\<lambda>(f, s'). alive s' \<and> \<not> msip s' \<and> mstatus s' = mstatus s \<and>
    isr_depth s' = isr_depth s \<and> resumed a s f s')"
proof -
  have "alive (enter_isr s)" "msip (enter_isr s)" using assms by (simp_all add: enter_isr_def)
  from schedule_alive [OF this, of a] show ?thesis
    unfolding mtrap_handler_def ok_Let ok_bind
    by (rule ok_mono) (auto simp: enter_isr_def leave_isr_def resumed_def running_def)
qed

lemma timer_handler_alive:
  assumes "alive s"
  shows "ok (tkmc_timer_handler s) (\<lambda>s'. alive s' \<and> mstatus s' = mstatus s \<and> isr_depth s' = isr_depth s)"
proof -
  obtain Q where Q: "rep (links s) Q" "ginv s Q" using assms by (auto simp: alive_def sys_inv_def)
  have c: "clock_ok (mtime s)" using assms by (simp add: alive_def)
  from part_ok [OF tkmc_timer_handler_ok [OF Q c] kept.handler [of s "(None, False)"]] show ?thesis
    by (rule ok_mono) (use assms in \<open>auto simp: alive_def fr_def\<close>)
qed

lemma timer_interrupt_alive:
  assumes "alive s"
  shows "ok (timer_interrupt a s) (\<lambda>(f, s'). alive s' \<and> \<not> msip s' \<and> mstatus s' = mstatus s \<and> isr_depth s' = isr_depth s)"
proof -
  have "alive (enter_isr s)" using assms by (simp add: enter_isr_def)
  from timer_handler_alive [OF this] show ?thesis
    unfolding timer_interrupt_def ok_bind
    by (rule ok_mono) (auto simp: enter_isr_def leave_isr_def intro!: ok_mono [OF serve_msip_alive])
qed

lemma external_exit_alive:
  assumes "alive s"
  shows "ok (external_exit a s) (\<lambda>(f, s'). alive s' \<and> mstatus s' = mstatus s \<and> isr_depth s' = isr_depth s - 1 \<and>
    (isr_depth s = 1 \<longrightarrow> \<not> msip s'))"
  using serve_msip_alive [OF assms, of a] assms
  by (auto simp: external_exit_def leave_isr_def elim!: ok_mono)

section \<open>The state machine\<close>

datatype svc =
    Cre_tsk "T_CTSK option" | Sta_tsk ID int | Ext_tsk | Exd_tsk | Rel_wai ID | Wup_tsk ID
  | Slp_tsk TMO | Dly_tsk RELTIM | Yield
  | Cre_sem "T_CSEM option" | Del_sem ID | Sig_sem ID int | Wai_sem ID int TMO
  | Cre_flg "T_CFLG option" | Set_flg ID UINT | Clr_flg ID UINT | Wai_flg ID UINT UINT addr TMO
  | Cre_mbx "T_CMBX option" | Del_mbx ID | Snd_mbx ID addr | Rcv_mbx ID addr TMO
  | Wait_ends | Dly_ends | Flg_ends | Mbx_ends

fun perform :: "svc \<Rightarrow> kernel \<Rightarrow> (unit outcome \<times> kernel) option" where
  "perform (Cre_tsk pk) s = void (tk_cre_tsk pk s)"
| "perform (Sta_tsk objid stacd) s = void (tk_sta_tsk objid stacd s)"
| "perform Ext_tsk s = void (tk_ext_tsk s)"
| "perform Exd_tsk s = void (tk_exd_tsk s)"
| "perform (Rel_wai objid) s = void (tk_rel_wai objid s)"
| "perform (Wup_tsk objid) s = void (tk_wup_tsk objid s)"
| "perform (Slp_tsk tmout) s = void (tk_slp_tsk tmout s)"
| "perform (Dly_tsk dlytm) s = void (tk_dly_tsk dlytm s)"
| "perform Yield s = void (tkmc_yield s)"
| "perform (Cre_sem pc) s = void (tk_cre_sem pc s)"
| "perform (Del_sem objid) s = void (tk_del_sem objid s)"
| "perform (Sig_sem objid cnt) s = void (tk_sig_sem objid cnt s)"
| "perform (Wai_sem objid cnt tmout) s = void (tk_wai_sem objid cnt tmout s)"
| "perform (Cre_flg pf) s = void (tk_cre_flg pf s)"
| "perform (Set_flg objid p) s = void (tk_set_flg objid p s)"
| "perform (Clr_flg objid p) s = void (tk_clr_flg objid p s)"
| "perform (Wai_flg objid w m p tmout) s = void (tk_wai_flg objid w m p tmout s)"
| "perform (Cre_mbx pm) s = void (tk_cre_mbx pm s)"
| "perform (Del_mbx objid) s = void (tk_del_mbx objid s)"
| "perform (Snd_mbx objid m) s = void (tk_snd_mbx objid m s)"
| "perform (Rcv_mbx objid p tmout) s = void (tk_rcv_mbx objid p tmout s)"
| "perform Wait_ends s = void (take_wupcause s)"
| "perform Dly_ends s = void (tk_dly_tsk_resume s)"
| "perform Flg_ends s = void (tk_wai_flg_resume s)"
| "perform Mbx_ends s = void (tk_rcv_mbx_resume s)"

text \<open>When a call may be made: the callers' side of the contracts above.\<close>

fun enabled :: "svc \<Rightarrow> kernel \<Rightarrow> bool" where
  "enabled Ext_tsk s = may_wait s"
| "enabled Exd_tsk s = may_wait s"
| "enabled (Slp_tsk _) s = may_wait s"
| "enabled (Dly_tsk _) s = may_wait s"
| "enabled (Wai_sem _ _ _) s = may_wait s"
| "enabled (Wai_flg _ _ _ _ _) s = may_wait s"
| "enabled (Rcv_mbx _ _ _) s = may_wait s"
| "enabled (Snd_mbx _ m) s = owned_msg m s"
| "enabled Yield s = resumes (\<lambda>_. True) s"
| "enabled Wait_ends s = resumes (\<lambda>_. True) s"
| "enabled Dly_ends s = resumes (\<lambda>_. True) s"
| "enabled Flg_ends s = resumes (\<lambda>w. \<exists>a b g. w = WFlg a b g) s"
| "enabled Mbx_ends s = resumes (\<lambda>w. \<exists>m. w = WMbx m) s"
| "enabled _ s = True"

lemma ok_void: "ok m (\<lambda>(r, s'). P s' \<and> (r \<noteq> Halt \<longrightarrow> R s')) \<Longrightarrow> ok (void m) (\<lambda>(r, s'). P s' \<and> (r \<noteq> Halt \<longrightarrow> R s'))"
  by (auto simp: ok_def void_def map_prod_def split: prod.splits)

lemma perform_alive:
  assumes "alive s" and "enabled c s"
  shows "ok (perform c s) (\<lambda>(r, s'). alive s' \<and> (r \<noteq> Halt \<longrightarrow> mstatus s' = mstatus s))"
proof -
  note drop = ok_void [OF ok_mono, where P = alive and R = "\<lambda>s'. mstatus s' = mstatus s"]
  show ?thesis
    using assms(2)
    by (cases c)
      (auto intro!: drop [OF cre_tsk.serves [OF assms(1)]] drop [OF sta_tsk.serves [OF assms(1)]]
        drop [OF ext_tsk.serves [OF assms(1)]] drop [OF exd_tsk.serves [OF assms(1)]]
        drop [OF rel_wai.serves [OF assms(1)]] drop [OF wup_tsk.serves [OF assms(1)]]
        drop [OF slp_tsk.serves [OF assms(1)]] drop [OF dly_tsk.serves [OF assms(1)]]
        drop [OF yield.serves [OF assms(1)]] drop [OF cre_sem.serves [OF assms(1)]]
        drop [OF del_sem.serves [OF assms(1)]] drop [OF sig_sem.serves [OF assms(1)]]
        drop [OF wai_sem.serves [OF assms(1)]] drop [OF cre_flg.serves [OF assms(1)]]
        drop [OF set_flg.serves [OF assms(1)]] drop [OF clr_flg.serves [OF assms(1)]]
        drop [OF wai_flg.serves [OF assms(1)]] drop [OF cre_mbx.serves [OF assms(1)]]
        drop [OF del_mbx.serves [OF assms(1)]] drop [OF snd_mbx.serves [OF assms(1)]]
        drop [OF rcv_mbx.serves [OF assms(1)]] drop [OF wupcause.serves [OF assms(1)]]
        drop [OF dly_resume.serves [OF assms(1)]] drop [OF flg_resume.serves [OF assms(1)]]
        drop [OF mbx_resume.serves [OF assms(1)]])
qed

fun starts :: "svc \<Rightarrow> bool" where
  "starts (Sta_tsk _ _) = True"
| "starts _ = False"

lemma perform_framed:
  assumes "alive s" and "enabled c s"
  shows "\<exists>a. (a = None \<or> (\<exists>c. a = Some c \<and> running s c)) \<and> framed (a, \<not> starts c) (perform c s) s"
  using assms
  by (cases c)
    (simp_all add: cre_tsk.keeps_frames sta_tsk.keeps_frames ext_tsk.keeps_frames exd_tsk.keeps_frames rel_wai.keeps_frames
        wup_tsk.keeps_frames slp_tsk.keeps_frames dly_tsk.keeps_frames yield.keeps_frames cre_sem.keeps_frames
        del_sem.keeps_frames sig_sem.keeps_frames wai_sem.keeps_frames cre_flg.keeps_frames set_flg.keeps_frames
        clr_flg.keeps_frames wai_flg.keeps_frames cre_mbx.keeps_frames del_mbx.keeps_frames snd_mbx.keeps_frames
        rcv_mbx.keeps_frames wupcause.keeps_frames dly_resume.keeps_frames flg_resume.keeps_frames mbx_resume.keeps_frames)

lemma perform_others_kept:
  assumes "alive s" and "enabled c s"
  shows "part (perform c s) (\<lambda>(r, s'). others_same (\<not> starts c) s s')"
proof -
  obtain a where a: "a = None \<or> (\<exists>c. a = Some c \<and> running s c)" and f: "framed (a, \<not> starts c) (perform c s) s"
    using perform_framed [OF assms] by blast
  from framed_fr [OF f] show ?thesis by (rule part_mono) (use a in \<open>auto simp: fr_def others_same_def running_def\<close>)
qed

text \<open>
  The steps: a service call, a masking or unmasking of interrupts, the software and timer traps,
  which are taken outside handlers, and the entry and exit of an external interrupt, which may
  nest. Between them the processor runs the application: time passes, the stacks are written, a trap or
  a return from one changes the status word, and a message that is in no mailbox may get another
  priority.
  A call that stops the system (\<^term>\<open>Halt\<close>) has no step after it.
\<close>

abbreviation int_enabled :: "kernel \<Rightarrow> bool" where
  "int_enabled s \<equiv> mstatus s AND MSTATUS_MIE \<noteq> 0"

inductive step :: "kernel \<Rightarrow> kernel \<Rightarrow> bool" where
  call: "enabled c s \<Longrightarrow> perform c s = Some (r, s') \<Longrightarrow> r \<noteq> Halt \<Longrightarrow> step s s'"
| mask: "step s (snd (DI s))"
| unmask: "step s (EI intsts s)"
| runs: "clk s \<le> k \<Longrightarrow> step s (s\<lparr>stack_mem := g, mstatus := v, clk := k\<rparr>)"
| message: "owned_msg m s \<Longrightarrow> step s (s\<lparr>msgpri := (msgpri s)(m := p)\<rparr>)"
| soft: "msip s \<Longrightarrow> \<not> tkmc_in_isr s \<Longrightarrow> mtrap_handler a s = Some (f, s') \<Longrightarrow> step s s'"
| tick: "\<not> tkmc_in_isr s \<Longrightarrow> timer_interrupt a s = Some (f, s') \<Longrightarrow> step s s'"
| ext_in: "step s (external_enter s)"
| ext_out: "tkmc_in_isr s \<Longrightarrow> external_exit a s = Some (f, s') \<Longrightarrow> step s s'"

inductive_cases stepE: "step s s'"

inductive reachable :: "image \<Rightarrow> kernel \<Rightarrow> bool" for im where
  boot: "valid_ctsk (ini_ctsk im) \<Longrightarrow> valid_ctsk (idl_ctsk im) \<Longrightarrow> \<not> msip s0 \<Longrightarrow> clock_ok (mtime s0) \<Longrightarrow>
    tkmc_start im a0 (s0, ic0) = Some (Return (), s, ic) \<Longrightarrow> reachable im s"
| step: "reachable im s \<Longrightarrow> step s s' \<Longrightarrow> reachable im s'"

lemma boot_alive: "boot_ok im s \<Longrightarrow> clock_ok (mtime s) \<Longrightarrow> alive s"
  by (simp add: boot_ok_def alive_def running_def IDLE_def started_tcb_def new_tcb_def idl_ctsk_def Let_def)

lemma alive_mstatus [simp]: "alive (s\<lparr>mstatus := m\<rparr>) = alive s"
  by (simp add: alive_def)

lemma alive_frames [simp]:
  "alive (s\<lparr>stack_mem := g\<rparr>) = alive s" "alive (s\<lparr>clk := k\<rparr>) = alive s" "alive (enter_isr s) = alive s" "alive (leave_isr s) = alive s"
  by (simp_all add: alive_def sys_inv_def enter_isr_def leave_isr_def)

lemma msgs_sorted_cong: "(\<And>n. n \<in> set ms \<Longrightarrow> msg_pri f n = msg_pri g n) \<Longrightarrow> msgs_sorted f ms = msgs_sorted g ms"
  unfolding msgs_sorted_def by (induction ms) auto

text \<open>The priority of a message that is in no mailbox does not matter to the invariant.\<close>

lemma alive_message:
  assumes a: "alive s" and o: "owned_msg m s"
  shows "alive (s\<lparr>msgpri := (msgpri s)(m := p)\<rparr>)"
proof -
  let ?s = "s\<lparr>msgpri := (msgpri s)(m := p)\<rparr>"
  obtain Q where R: "rep (links s) Q" and G: "ginv s Q" using a by (auto simp: alive_def sys_inv_def)
  have l: "loose (MsgLink m) Q" using o R G by (simp add: owned_msg_def idle_node_def)
  have "msgs_sorted (msgpri ?s) (the (Q (MbxMsgQ j))) = msgs_sorted (msgpri s) (the (Q (MbxMsgQ j)))" if "Q (MbxMsgQ j) \<noteq> None" for j
  proof -
    have "msg_pri (msgpri ?s) n = msg_pri (msgpri s) n" if "n \<in> set (the (Q (MbxMsgQ j)))" for n
      using l that \<open>Q (MbxMsgQ j) \<noteq> None\<close> by (cases n) (auto simp: loose_def in_ring_def)
    then show ?thesis by (rule msgs_sorted_cong)
  qed
  moreover have "Q (MbxMsgQ j) \<noteq> None" if "j < CFN_MAX_MBXID" for j
    using G that by (auto simp: ginv_def static_def dest!: kinvD(2))
  moreover have e: "pri_sorted ?s = pri_sorted s" "wait_req ?s = wait_req s"
    by (auto intro!: pri_sorted_cong simp: fun_eq_iff wait_pri_cong wait_req_cong)
  ultimately have b: "mbx_ok ?s Q j = mbx_ok s Q j" if "j < CFN_MAX_MBXID" for j
    using that by (simp add: mbx_ok_def mbx_queue_ok_def Let_def)
  have "kinv s Q" "sem_served s Q" "flg_served s Q" "sched_ok s Q" using G by (simp_all add: ginv_def)
  moreover have "kinv ?s Q = kinv s Q"
    using b e by (simp add: kinv_def sem_ok_def flg_ok_def sem_queue_ok_def flg_queue_ok_def cur_ok_def)
  moreover have "sem_served ?s Q = sem_served s Q" "flg_served ?s Q = flg_served s Q" "sched_ok ?s Q = sched_ok s Q"
    using e by (simp_all add: sem_served_def flg_served_def sched_ok_def)
  ultimately have "ginv ?s Q" by (simp add: ginv_def)
  then show ?thesis using a R by (auto simp: alive_def intro: sys_invI)
qed

lemma step_alive: "step s s' \<Longrightarrow> alive s \<Longrightarrow> alive s'"
proof (erule stepE)
  fix c r
  assume "alive s" "enabled c s" "perform c s = Some (r, s')"
  then show "alive s'" using perform_alive [of s c] by simp
next
  fix a f
  assume "alive s" "msip s" "mtrap_handler a s = Some (f, s')"
  then show "alive s'" using mtrap_handler_alive [of s a] by simp
next
  fix a f
  assume "alive s" "timer_interrupt a s = Some (f, s')"
  then show "alive s'" using timer_interrupt_alive [of s a] by simp
next
  fix a f
  assume "alive s" "external_exit a s = Some (f, s')"
  then show "alive s'" using external_exit_alive [of s a] by simp
next
  fix m p
  assume "alive s" "s' = s\<lparr>msgpri := (msgpri s)(m := p)\<rparr>" "owned_msg m s"
  then show "alive s'" by (simp add: alive_message)
qed (simp_all add: EI_def external_enter_def)

lemma reachable_alive: "reachable im s \<Longrightarrow> alive s"
proof (induction rule: reachable.induct)
  case (boot s0 a0 ic0 s ic)
  then show ?case using tkmc_start_boots [OF boot(1-4), of a0 ic0] by (auto intro: boot_alive)
qed (rule step_alive)

end
