(* ===== verification/TK_Samples.thy ===== *)
theory TK_Samples
  imports TK_System
begin

text \<open>
  Concrete states that the kernel reaches, for applying the theorems: the boot of \<^term>\<open>sample_image\<close>
  followed by the creation of one object, or of a task that is not started yet. Each is the result
  of running the calls of the model.
\<close>

definition after :: "('a \<times> kernel) option \<Rightarrow> kernel" where
  "after m = snd (the m)"

definition sample_sem_packet :: T_CSEM where
  "sample_sem_packet = \<lparr>cs_exinf = NULL, cs_sematr = TA_TPRI, cs_isemcnt = 1, cs_maxsem = 5\<rparr>"

definition sample_flg_packet :: T_CFLG where
  "sample_flg_packet = \<lparr>cf_exinf = NULL, cf_flgatr = TA_WMUL, cf_iflgptn = 6\<rparr>"

definition sample_mbx_packet :: T_CMBX where
  "sample_mbx_packet = \<lparr>cm_exinf = NULL, cm_mbxatr = TA_MPRI\<rparr>"

definition sample_ctsk :: T_CTSK where
  "sample_ctsk = \<lparr>c_exinf = 7, c_tskatr = TA_USERBUF, c_task = 0x80000500, c_itskpri = 5, c_stksz = 1024, c_bufptr = 0x80020000\<rparr>"

definition sample_sem :: kernel where
  "sample_sem = after (tk_cre_sem (Some sample_sem_packet) sample_boot)"

definition sample_flg :: kernel where
  "sample_flg = after (tk_cre_flg (Some sample_flg_packet) sample_boot)"

definition sample_mbx :: kernel where
  "sample_mbx = after (tk_cre_mbx (Some sample_mbx_packet) sample_boot)"

definition sample_dormant :: kernel where
  "sample_dormant = after (tk_cre_tsk (Some sample_ctsk) sample_boot)"

lemma after_ok: "ok m P \<Longrightarrow> m = Some (fst (the m), after m) \<and> P (fst (the m), after m)"
  by (auto simp: ok_def after_def)

lemma sample_reachable: "reachable sample_image sample_boot"
  by (rule reachable.boot [OF sample_hyps sample_start(1)])

lemma sample_alive: "alive sample_boot"
  by (rule reachable_alive [OF sample_reachable])

text \<open>A call that returns leads to a state in which the calling task still runs.\<close>

definition sample_next :: "kernel \<Rightarrow> bool" where
  "sample_next s \<longleftrightarrow> reachable sample_image s \<and> alive s \<and> sys_inv s \<and> clock_ok (mtime s) \<and> running s 0 \<and> isr_depth s = 0 \<and>
     mstatus s = 0x1808 \<and> \<not> msip s"

lemma sample_step:
  assumes s: "sample_next s" and p: "perform c s = void m" "enabled c s" "ok m P"
    and P: "\<And>r s'. P (r, s') \<Longrightarrow> r \<noteq> Halt \<and> alive s' \<and> tskstat (tcbs s' 0) = TTS_RUN \<and> msip s' = msip s \<and>
      current s' = current s \<and> isr_depth s' = isr_depth s \<and> mstatus s' = mstatus s"
  shows "sample_next (after m)"
proof -
  obtain r s' where m: "m = Some (r, s')" and r: "P (r, s')" using p(3) by (auto simp: ok_def)
  have "perform c s = Some (map_outcome (\<lambda>_. ()) r, s')" using p(1) m by (simp add: void_def)
  moreover have "map_outcome (\<lambda>_. ()) r \<noteq> Halt" using P [OF r] by (cases r) auto
  ultimately have "step s s'" by (rule step.call [OF p(2)])
  then have "reachable sample_image s'" using s by (auto simp: sample_next_def intro: reachable.step)
  then show ?thesis using m P [OF r] s by (simp add: sample_next_def alive_def running_def after_def)
qed

lemma sample_boot_next: "sample_next sample_boot"
  using sample_reachable sample_alive sample_boot_inv sample_start(4) by (simp add: sample_next_def)

lemma sample_valid_packets:
  "VALID_SEMATR = 3" "VALID_FLGATR = 9" "VALID_MBXATR = 3" "valid_ctsk sample_ctsk"
  by (simp_all add: VALID_SEMATR_def VALID_FLGATR_def VALID_MBXATR_def valid_ctsk_def sample_ctsk_def attr_defs VALID_TSKATR_def
      FRAME_SIZE_def STACK_ALIGN_def)

lemma sample_free:
  "\<not> exists_id (semid (semcbs sample_boot 0))" "\<not> exists_id (flgid (flgcbs sample_boot 0))"
  "\<not> exists_id (mbxid (mbxcbs sample_boot 0))" "list_of FreeSem (links sample_boot) = Some (map SemQ [0..<CFN_MAX_SEMID])"
  "list_of FreeFlg (links sample_boot) = Some (map FlgQ [0..<CFN_MAX_FLGID])"
  "list_of FreeMbx (links sample_boot) = Some (map MbxWaitQ [0..<CFN_MAX_MBXID])"
  using sample_start(2)
  by (simp_all add: boot_ok_def exists_id_def NOEXS_MASK_def free_semcb_def free_flgcb_def free_mbxcb_def)

lemma result_framed:
  assumes "ok m (\<lambda>(r, s'). sys_inv s' \<and> mstatus s' = mstatus s \<and> R r s')" and "framed (None, True) m s"
  shows "ok m (\<lambda>(r, s'). R r s' \<and> sys_inv s' \<and> mstatus s' = mstatus s \<and>
    current s' = current s \<and> mtime s' = mtime s \<and> isr_depth s' = isr_depth s)"
  using part_ok [OF assms(1) framed_fr [OF assms(2)]] by (rule ok_mono) (auto simp: fr_def)

lemma sample_sem:
  "sample_next sample_sem" "semcbs sample_sem 0 = \<lparr>semid = 1, sem_exinf = NULL, sematr = TA_TPRI, semcnt = 1, maxsem = 5\<rparr>"
  "list_of (SemQ 0) (links sample_sem) = Some []"
proof -
  note ok = result_framed [OF tk_cre_sem_ok [OF sample_boot_inv(1)] framed_object(1), of "Some sample_sem_packet"]
  have res: "r = Return 1 \<and> semcbs s' 0 = \<lparr>semid = 1, sem_exinf = NULL, sematr = TA_TPRI, semcnt = 1, maxsem = 5\<rparr> \<and>
      list_of (SemQ 0) (links s') = Some [] \<and> tcbs s' = tcbs sample_boot \<and> msip s' = msip sample_boot"
    if "cre_sem_result (Some sample_sem_packet) sample_boot r s'" for r s'
    using that sample_free(1,4)
    by (auto simp: cre_sem_result_def sample_sem_packet_def sample_valid_packets attr_defs TK_SEMAPHORE_MAXCNT_def upt_conv_Cons
      split: if_split_asm)
  show "sample_next sample_sem"
    unfolding sample_sem_def
    by (rule sample_step [OF sample_boot_next _ _ ok, of "Cre_sem (Some sample_sem_packet)"])
      (use sample_alive sample_boot_inv(2) in \<open>auto dest!: res simp: alive_def running_def\<close>)
  show "semcbs sample_sem 0 = \<lparr>semid = 1, sem_exinf = NULL, sematr = TA_TPRI, semcnt = 1, maxsem = 5\<rparr>"
    "list_of (SemQ 0) (links sample_sem) = Some []"
    using after_ok [OF ok] res by (auto simp: sample_sem_def)
qed

lemma sample_flg:
  "sample_next sample_flg" "flgcbs sample_flg 0 = \<lparr>flgid = 1, flg_exinf = NULL, flgatr = TA_WMUL, flgptn = 6\<rparr>"
  "list_of (FlgQ 0) (links sample_flg) = Some []"
proof -
  note ok = result_framed [OF tk_cre_flg_ok [OF sample_boot_inv(1)] framed_object(4), of "Some sample_flg_packet"]
  have res: "r = Return 1 \<and> flgcbs s' 0 = \<lparr>flgid = 1, flg_exinf = NULL, flgatr = TA_WMUL, flgptn = 6\<rparr> \<and>
      list_of (FlgQ 0) (links s') = Some [] \<and> tcbs s' = tcbs sample_boot \<and> msip s' = msip sample_boot"
    if "cre_flg_result (Some sample_flg_packet) sample_boot r s'" for r s'
    using that sample_free(2,5)
    by (auto simp: cre_flg_result_def sample_flg_packet_def sample_valid_packets attr_defs upt_conv_Cons
      split: if_split_asm)
  show "sample_next sample_flg"
    unfolding sample_flg_def
    by (rule sample_step [OF sample_boot_next _ _ ok, of "Cre_flg (Some sample_flg_packet)"])
      (use sample_alive sample_boot_inv(2) in \<open>auto dest!: res simp: alive_def running_def\<close>)
  show "flgcbs sample_flg 0 = \<lparr>flgid = 1, flg_exinf = NULL, flgatr = TA_WMUL, flgptn = 6\<rparr>"
    "list_of (FlgQ 0) (links sample_flg) = Some []"
    using after_ok [OF ok] res by (auto simp: sample_flg_def)
qed

lemma sample_mbx:
  "sample_next sample_mbx" "mbxcbs sample_mbx 0 = \<lparr>mbxid = 1, mbx_exinf = NULL, mbxatr = TA_MPRI\<rparr>"
  "list_of (MbxWaitQ 0) (links sample_mbx) = Some []" "list_of (MbxMsgQ 0) (links sample_mbx) = Some []" "owned_msg m sample_mbx"
proof -
  note ok = result_framed [OF tk_cre_mbx_ok [OF sample_boot_inv(1)] framed_object(8), of "Some sample_mbx_packet"]
  have res: "r = Return 1 \<and> mbxcbs s' 0 = \<lparr>mbxid = 1, mbx_exinf = NULL, mbxatr = TA_MPRI\<rparr> \<and>
      list_of (MbxWaitQ 0) (links s') = Some [] \<and> list_of (MbxMsgQ 0) (links s') = Some [] \<and>
      mbxcbs s' = (mbxcbs sample_boot)(0 := mbxcbs s' 0) \<and> tcbs s' = tcbs sample_boot \<and> msip s' = msip sample_boot"
    if "cre_mbx_result (Some sample_mbx_packet) sample_boot r s'" for r s'
    using that sample_free(3,6)
    by (auto simp: cre_mbx_result_def sample_mbx_packet_def sample_valid_packets attr_defs upt_conv_Cons
      split: if_split_asm)
  show "sample_next sample_mbx"
    unfolding sample_mbx_def
    by (rule sample_step [OF sample_boot_next _ _ ok, of "Cre_mbx (Some sample_mbx_packet)"])
      (use sample_alive sample_boot_inv(2) in \<open>auto dest!: res simp: alive_def running_def\<close>)
  show "mbxcbs sample_mbx 0 = \<lparr>mbxid = 1, mbx_exinf = NULL, mbxatr = TA_MPRI\<rparr>"
    "list_of (MbxWaitQ 0) (links sample_mbx) = Some []" and l: "list_of (MbxMsgQ 0) (links sample_mbx) = Some []"
    using after_ok [OF ok] res by (auto simp: sample_mbx_def)
  have others: "mbxcbs sample_mbx j = free_mbxcb j" if "0 < j" "j < CFN_MAX_MBXID" for j
  proof -
    have "mbxcbs sample_mbx j = mbxcbs sample_boot j"
      using after_ok [OF ok] that(1) by (auto dest!: res simp: sample_mbx_def fun_upd_def)
    then show ?thesis using sample_start(2) that(2) by (simp add: boot_ok_def)
  qed
  show "owned_msg m sample_mbx"
    unfolding owned_msg_def
  proof (intro allI impI)
    fix Q assume R: "rep (links sample_mbx) Q" and G: "ginv sample_mbx Q"
    then have K: "kinv sample_mbx Q" by (simp add: ginv_def)
    have e: "Q (MbxMsgQ j) = Some []" if "j < CFN_MAX_MBXID" for j
    proof (cases "j = 0")
      case True
      have "Q (MbxMsgQ j) \<noteq> None" using kinvD(2) [OF K] that by (simp add: static_def)
      then obtain xs where "Q (MbxMsgQ 0) = Some xs" using True by auto
      then show ?thesis using list_of_rep [OF R, of "MbxMsgQ 0"] l True by simp
    next
      case False
      then show ?thesis using kinvD(7) [OF K that] others [of j] that
        by (simp add: mbx_ok_def Let_def exists_id_def NOEXS_MASK_def free_mbxcb_def split: if_split_asm)
    qed
    have f: "fits q (MsgLink m) \<Longrightarrow> \<exists>j < CFN_MAX_MBXID. q = MbxMsgQ j" for q by (cases q) auto
    have "loose (MsgLink m) Q"
      using f typed_in_ring [OF kinvD(1) [OF K]] e by (fastforce intro!: looseI simp: in_ring_def)
    moreover have "Q (MsgLink m) = None \<or> Q (MsgLink m) = Some []"
    proof (cases "Q (MsgLink m)")
      case (Some xs)
      then show ?thesis using typed_in_ring [OF kinvD(1) [OF K], of "MsgLink m" "hd xs"]
        by (cases xs) (auto simp: in_ring_def)
    qed simp
    ultimately show "idle_node (MsgLink m) Q" by (simp add: idle_node_def)
  qed
qed

lemma sample_dormant:
  "sample_next sample_dormant" "tcbs sample_dormant 2 = new_tcb sample_ctsk (tcbs sample_boot 2)"
proof -
  obtain Q where Q: "rep (links sample_boot) Q" "ginv sample_boot Q" using sample_boot_inv(1) by (auto simp: sys_inv_def)
  obtain xs where "Q FreeTcb = Some xs" using kinvD(2) [of sample_boot Q] Q by (auto simp: static_def ginv_def)
  moreover have "list_of FreeTcb (links sample_boot) = Some (map TcbHead [2..<CFN_MAX_TSKID])"
    using sample_start(2) by (simp add: boot_ok_def)
  ultimately have q: "Q FreeTcb = Some (TcbHead 2 # map TcbHead [3..<CFN_MAX_TSKID])"
    using list_of_rep [OF Q(1)] by (simp add: upt_conv_Cons)
  note ok = part_ok [OF tk_cre_tsk_new [OF Q q sample_valid_packets(4)] framed_fr [OF framed_cre_tsk [where a = "(None, True)", OF sample_boot_inv(1)]]]
  show "sample_next sample_dormant"
    unfolding sample_dormant_def
    by (rule sample_step [OF sample_boot_next _ _ ok, of "Cre_tsk (Some sample_ctsk)"])
      (use sample_alive sample_boot_inv(2) in \<open>auto simp: fr_def alive_def running_def IDLE_def intro: sys_invI\<close>)
  show "tcbs sample_dormant 2 = new_tcb sample_ctsk (tcbs sample_boot 2)"
    using after_ok [OF ok] unfolding sample_dormant_def by (elim conjE) (auto simp del: split_paired_Ex)
qed

end
