(* ===== verification/TK_Results.thy ===== *)
theory TK_Results
  imports TK_Samples
begin

text \<open>
  What creating and starting a task leave behind, in terms of the control blocks, of the stack
  memory and of the lists a walk along the links meets; and what a task that ends and is started
  again before the switch loses.
\<close>

section \<open>Creating a task\<close>

definition cre_tsk_result :: "T_CTSK option \<Rightarrow> kernel \<Rightarrow> ID outcome \<Rightarrow> kernel \<Rightarrow> bool" where
  "cre_tsk_result packet s r s' \<longleftrightarrow> (case packet of None \<Rightarrow> r = Return E_PAR \<and> s' = s
   | Some pk \<Rightarrow>
     if c_tskatr pk AND NOT VALID_TSKATR \<noteq> 0 \<or> c_tskatr pk AND TA_USERBUF = 0 then r = Return E_RSATR \<and> s' = s
     else if \<not> valid_ctsk pk then r = Return E_PAR \<and> s' = s
     else if list_of FreeTcb (links s) = Some [] then r = Return E_LIMIT \<and> s' = s
     else (\<exists>i ns. list_of FreeTcb (links s) = Some (TcbHead i # ns) \<and> list_of FreeTcb (links s') = Some ns \<and>
       i < CFN_MAX_TSKID \<and> tskstat (tcbs s i) = TTS_NOEXS \<and> r = Return (int i + 1) \<and>
       (\<exists>h. s' = (upd_tcb i (new_tcb pk) s)\<lparr>links := h\<rparr>)))"

lemma tk_cre_tsk_ok:
  assumes "sys_inv s"
  shows "ok (tk_cre_tsk packet s) (\<lambda>(r, s'). sys_inv s' \<and> cre_tsk_result packet s r s')"
proof (cases packet)
  case (Some pk)
  obtain Q where R: "rep (links s) Q" and G: "ginv s Q" using assms by (auto simp: sys_inv_def)
  have K: "kinv s Q" using G by (simp add: ginv_def)
  obtain xs where q: "Q FreeTcb = Some xs" using kinvD(2) [OF K] by (auto simp: static_def)
  show ?thesis
  proof (cases "valid_ctsk pk")
    case False
    then show ?thesis
      using tk_cre_tsk_refuses [OF False, of s] assms Some by (auto simp: cre_tsk_result_def)
  next
    case v: True
    then have a: "\<not> (c_tskatr pk AND NOT VALID_TSKATR \<noteq> 0 \<or> c_tskatr pk AND TA_USERBUF = 0)"
      by (simp add: valid_ctsk_def)
    show ?thesis
    proof (cases xs)
      case Nil
      then show ?thesis
        using tk_cre_tsk_full [OF R _ v] q list_of_rep [OF R q] assms Some v a by (simp add: cre_tsk_result_def)
    next
      case (Cons n ns)
      then have m: "in_ring Q FreeTcb n" using q by (simp add: in_ring_def)
      then obtain i where n: "n = TcbHead i"
        using typed_in_ring [OF kinvD(1) [OF K] m] by (auto split: node.splits)
      note F = free_task [OF R K m [unfolded n]]
      have q': "Q FreeTcb = Some (TcbHead i # ns)" using q Cons n by simp
      have c: "created_rings i Q FreeTcb = Some ns"
        using q' repD(2) [OF R q'] by (auto simp: created_rings_def ring_simps intro!: filter_True)
      show ?thesis
        using list_of_rep [OF R q'] F v a Some
        by (intro ok_mono [OF tk_cre_tsk_new [OF R G q' v, folded Some]])
          (auto simp: cre_tsk_result_def intro: sys_invI list_of_rep [where Q = "created_rings i Q"] c)
    qed
  qed
qed (use assms in \<open>simp add: tk_cre_tsk_def cre_tsk_result_def\<close>)

section \<open>Starting a task\<close>

definition sta_tsk_result :: "ID \<Rightarrow> int \<Rightarrow> kernel \<Rightarrow> ER outcome \<Rightarrow> kernel \<Rightarrow> bool" where
  "sta_tsk_result objid stacd s r s' \<longleftrightarrow> (let i = nat (objid - 1); q = ready_node (itskpri (tcbs s i)) in
     if \<not> tkmc_id_in_range objid (int CFN_MAX_TSKID) then r = Return E_ID \<and> s' = s
     else if tskstat (tcbs s i) = TTS_NOEXS then r = Return E_NOEXS \<and> s' = s
     else if tskstat (tcbs s i) \<noteq> TTS_DMT then r = Return E_OBJ \<and> s' = s
     else r = Return E_OK \<and> tcbs s' = (tcbs s)(i := started_tcb (tcbs s i)) \<and> stack_mem s' = start_frame i stacd s \<and>
       (\<exists>ns. list_of q (links s) = Some ns \<and> list_of q (links s') = Some (ns @ [TcbHead i])))"

lemma tk_sta_tsk_ok:
  assumes "sys_inv s"
  shows "ok (tk_sta_tsk objid stacd s) (\<lambda>(r, s'). sys_inv s' \<and> sta_tsk_result objid stacd s r s')"
proof (cases "tkmc_id_in_range objid (int CFN_MAX_TSKID) \<and> tskstat (tcbs s (nat (objid - 1))) = TTS_DMT")
  case False
  then show ?thesis using tk_sta_tsk_refuses [OF False, of stacd] assms by (auto simp: sta_tsk_result_def)
next
  case True
  define i where "i = nat (objid - 1)"
  have i: "i < CFN_MAX_TSKID" "int i + 1 = objid" using id_in_range_index [of objid CFN_MAX_TSKID] True by (auto simp: i_def)
  have d: "tskstat (tcbs s i) = TTS_DMT" using True by (simp add: i_def)
  obtain Q where R: "rep (links s) Q" and G: "ginv s Q" using assms by (auto simp: sys_inv_def)
  have K: "kinv s Q" using G by (simp add: ginv_def)
  let ?q = "ready_node (itskpri (tcbs s i))"
  obtain ns where q: "Q ?q = Some ns"
    using kinv_ready [OF K i(1)] d by auto
  then have q': "started_rings i (itskpri (tcbs s i)) Q ?q = Some (ns @ [TcbHead i])"
    by (simp add: started_rings_def ring_simps)
  show ?thesis
    using True list_of_rep [OF R q] i(2)
    by (intro ok_mono [OF tk_sta_tsk_new [OF R G i(1) d, of stacd, unfolded i(2)]])
      (auto simp: started_def sta_tsk_result_def Let_def i_def [symmetric] intro: sys_invI list_of_rep [where Q = "started_rings i (itskpri (tcbs s i)) Q"] q')
qed

text \<open>The frame that a started task is launched from.\<close>

lemma frame_word_eq: "j < 32 \<Longrightarrow> k < 32 \<Longrightarrow> frame_word fp j = frame_word fp k \<longleftrightarrow> j = k"
proof -
  assume jk: "j < 32" "k < 32"
  have "unat (4 * of_nat n :: 32 word) = 4 * n" if "n < 32" for n
    using that by (simp add: unat_word_ariths unat_of_nat)
  then have "(4 * of_nat j :: 32 word) = 4 * of_nat k \<longleftrightarrow> j = k" using jk by (metis mult_cancel1 zero_neq_numeral)
  then show ?thesis by (simp add: frame_word_def)
qed

lemma fill_frame_word:
  "n \<le> 32 \<Longrightarrow> k < n \<Longrightarrow> fill_frame fp n m (frame_word fp k) = 0xdeadbeef"
  by (induction n) (auto simp: frame_word_eq less_Suc_eq)

lemma fill_frame_other:
  "(\<And>k. k < n \<Longrightarrow> a \<noteq> frame_word fp k) \<Longrightarrow> fill_frame fp n m a = m a"
  by (induction n) auto

section \<open>A task started again before the switch\<close>

lemma restart_overwrites:
  assumes a: "alive s" and c: "running s c" "c \<noteq> IDLE" and st: "settled s"
    and e: "int_enabled s" "\<not> tkmc_in_isr s"
  shows "ok (tk_ext_tsk s) (\<lambda>(r, s1). r = Block \<and> ok (tk_sta_tsk (int c + 1) stacd (external_enter s1))
    (\<lambda>(r, s2). r = Return E_OK \<and> sp (tcbs s2 c) = initial_sp (tcbs s c) \<and> ok (external_exit frame s2)
      (\<lambda>(f, s'). runnable (tcbs s' c) \<and> sp (tcbs s' c) = frame)))"
proof -
  have I: "sys_inv s" and C: "clock_ok (mtime s)" using a by (simp_all add: alive_def)
  have b: "tkmc_can_block (mstatus s OR NOT MSTATUS_MIE) s"
    using e c by (simp add: tkmc_can_block_def isDI_def running_def and.commute MSTATUS_MIE_def bit.conj_disj_distrib2 bit.conj_disj_distrib)
  have w: "may_wait s" using st c by (simp add: may_wait_def running_def)
  have lt: "c < CFN_MAX_TSKID"
    using I c(1) by (auto simp: sys_inv_def ginv_def dest!: kinvD(3) simp: cur_ok_def running_def)
  have sta: "ok (tk_sta_tsk (int c + 1) stacd (external_enter s1))
      (\<lambda>(r, s2). r = Return E_OK \<and> sp (tcbs s2 c) = initial_sp (tcbs s c) \<and> ok (external_exit frame s2)
        (\<lambda>(f, s'). runnable (tcbs s' c) \<and> sp (tcbs s' c) = frame))"
    if A: "alive s1" and X: "current s1 = Some c" "isr_depth s1 = 0" "msip s1"
      "tcbs s1 = (tcbs s)(c := (tcbs s c)\<lparr>tskstat := TTS_DMT, tskwait := TTW_NONE\<rparr>)" for s1
  proof -
    let ?s = "external_enter s1"
    have A1: "alive ?s" using A by (simp add: external_enter_def enter_isr_def)
    obtain Q where R: "rep (links ?s) Q" and G: "ginv ?s Q" using A1 by (auto simp: alive_def sys_inv_def)
    have d: "tskstat (tcbs ?s c) = TTS_DMT" using X by (simp add: external_enter_def enter_isr_def)
    have fin: "ok (external_exit frame s2) (\<lambda>(f, s'). runnable (tcbs s' c) \<and> sp (tcbs s' c) = frame)"
      if S: "started c stacd ?s Q s2" and A2: "alive s2" for s2
    proof -
      have s2: "current s2 = Some c" "isr_depth s2 = 1" "msip s2" "tskstat (tcbs s2 c) = TTS_RDY"
        using S X by (auto simp: started_def Let_def external_enter_def enter_isr_def started_tcb_def)
      from schedule_alive [OF A2 s2(3), of frame] show ?thesis
        using s2 lt
        by (simp add: external_exit_def serve_msip_def leave_isr_def) (auto elim!: ok_mono simp: resumed_def)
    qed
    have "ok (tk_sta_tsk (int c + 1) stacd ?s) (\<lambda>(r, s2). (r = Return E_OK \<and> mstatus s2 = mstatus ?s \<and> started c stacd ?s Q s2) \<and> alive s2)"
    proof -
      from sta_tsk.serves [OF A1, of "int c + 1" stacd]
      have "part (tk_sta_tsk (int c + 1) stacd ?s) (\<lambda>(r, s2). alive s2)" by (auto simp: ok_def part_def)
      from part_ok [OF tk_sta_tsk_new [OF R G lt d, of stacd] this] show ?thesis by (rule ok_mono) auto
    qed
    then show ?thesis
      using fin X by (auto elim!: ok_mono simp: started_def Let_def started_tcb_def external_enter_def enter_isr_def)
  qed
  from part_ok [OF ext_tsk.serves [OF a w] exit_effect(1)] show ?thesis
    by (rule ok_mono) (use b c e sta in \<open>auto simp: exit_result_def running_def tkmc_in_isr_def\<close>)
qed

section \<open>Samples with a task that ended and a task that sleeps\<close>

definition sample_ended :: kernel where
  "sample_ended = after (tk_ext_tsk sample_boot)"

definition sample_asleep :: kernel where
  "sample_asleep = after (tk_slp_tsk TMO_FEVR sample_boot)"

definition sample_idle :: kernel where
  "sample_idle = after (mtrap_handler 0x80010100 sample_asleep)"

lemma sample_boot_tasks:
  "may_wait sample_boot" "tkmc_can_block (mstatus sample_boot OR NOT MSTATUS_MIE) sample_boot" "wupcnt (tcbs sample_boot 0) = 0"
  "int_enabled sample_boot" "\<not> tkmc_in_isr sample_boot"
  using sample_boot_inv sample_start(2,4)
  by (simp_all add: may_wait_def IDLE_def tkmc_can_block_def isDI_def tkmc_in_isr_def MSTATUS_MIE_def boot_ok_def started_tcb_def)

lemma sample_ended: "alive sample_ended" "msip sample_ended" "current sample_ended = Some 0" "tskstat (tcbs sample_ended 0) = TTS_DMT"
proof -
  note ok = part_ok [OF ext_tsk.serves [OF sample_alive sample_boot_tasks(1)] exit_effect(1)]
  show "alive sample_ended" "msip sample_ended" "current sample_ended = Some 0" "tskstat (tcbs sample_ended 0) = TTS_DMT"
    using after_ok [OF ok] sample_boot_tasks(2) sample_boot_inv(3) by (auto simp: sample_ended_def exit_result_def)
qed

lemma sample_asleep:
  "alive sample_asleep" "msip sample_asleep" "current sample_asleep = Some 0" "isr_depth sample_asleep = 0"
  "tskstat (tcbs sample_asleep 0) = TTS_WAI" "tskwait (tcbs sample_asleep 0) = TTW_SLP"
proof -
  have slp: "part (tk_slp_tsk TMO_FEVR sample_boot) (\<lambda>(r, s'). slp_tsk_result TMO_FEVR True sample_boot r s')"
    using tk_slp_tsk_ok [OF sample_boot_inv(1,7,6), of TMO_FEVR] sample_boot_tasks(2) by (auto simp: ok_def part_def)
  note ok = part_ok [OF slp_tsk.serves [OF sample_alive sample_boot_tasks(1)] slp]
  show "alive sample_asleep" "msip sample_asleep" "current sample_asleep = Some 0" "isr_depth sample_asleep = 0"
    "tskstat (tcbs sample_asleep 0) = TTS_WAI" "tskwait (tcbs sample_asleep 0) = TTW_SLP"
    using after_ok [OF ok] sample_boot_tasks(3) sample_boot_inv(3,4)
    by (auto simp: sample_asleep_def slp_tsk_result_def sleeps_def TMO_FEVR_def TMO_POL_def wait_tcb_def)
qed

lemma part_switched:
  "part (mtrap_handler a s) (\<lambda>(f, s'). \<forall>c. current s = Some c \<longrightarrow> current s' \<noteq> Some c \<longrightarrow> tskstat (tcbs s c) \<noteq> TTS_RUN \<longrightarrow>
    tcbs s' c = (tcbs s c)\<lparr>sp := a\<rparr>)"
  by (auto simp: mtrap_handler_def schedule_def enter_isr_def leave_isr_def part_def bind_eq_Some_conv)

lemma sample_idle:
  "alive sample_idle" "\<not> msip sample_idle" "current sample_idle \<noteq> Some 0" "isr_depth sample_idle = 0"
  "tskstat (tcbs sample_idle 0) = TTS_WAI" "tskwait (tcbs sample_idle 0) = TTW_SLP"
proof -
  note ok = part_ok [OF mtrap_handler_alive [where a = "0x80010100", OF sample_asleep(1,2)] part_switched]
  have r: "\<exists>f. resumed 0x80010100 sample_asleep f sample_idle" using after_ok [OF ok] by (auto simp: sample_idle_def)
  have "\<forall>i < CFN_MAX_TSKID. runnable (tcbs sample_idle i) \<longleftrightarrow> runnable (tcbs sample_asleep i)"
    using r unfolding resumed_def by blast
  then have "\<not> runnable (tcbs sample_idle 0)" using sample_asleep(5) by (auto dest: spec [of _ 0])
  then have c: "current sample_idle \<noteq> Some 0" using r by (auto simp: resumed_def running_def)
  then show "current sample_idle \<noteq> Some 0" .
  show "alive sample_idle" "\<not> msip sample_idle" "isr_depth sample_idle = 0"
    "tskstat (tcbs sample_idle 0) = TTS_WAI" "tskwait (tcbs sample_idle 0) = TTW_SLP"
    using after_ok [OF ok] c sample_asleep by (simp_all add: sample_idle_def)
qed

end
