(* ===== verification/TK_Deadline.thy ===== *)
theory TK_Deadline
  imports TK_Results
begin

text \<open>
  The time limits of waits over whole runs of the kernel. A wait with a time limit has a deadline, a
  value of the machine time that is fixed when the wait begins (\<open>due\<close>). Whatever the kernel does in
  the meantime, the deadline stays; the timer interrupt ends the wait if it finds the deadline
  reached and never before; and the compare register asks for that interrupt in time.
\<close>

section \<open>Deadlines\<close>

text \<open>
  A task that waits with a time limit, and the time at which the limit is reached: the next edge of
  the timer is the first of the edges that the task waits for.
\<close>

definition limited :: "kernel \<Rightarrow> nat \<Rightarrow> bool" where
  "limited s i \<longleftrightarrow> tskstat (tcbs s i) = TTS_WAI \<and> delay_ticks (tcbs s i) \<noteq> 0"

definition due :: "kernel \<Rightarrow> nat \<Rightarrow> nat" where
  "due s i = unat (s_mtimecmp s) + (unat (delay_ticks (tcbs s i)) - 1) * 100000"

text \<open>A step that the timer interrupt, if it is pending, precedes by less than \<open>2 ^ 31\<close> ticks (248 days).\<close>

definition on_time :: "kernel \<Rightarrow> kernel \<Rightarrow> bool" where
  "on_time s s' \<longleftrightarrow> unat (mtime s (clk s')) < unat (s_mtimecmp s) + 2 ^ 31 * 100000"

section \<open>What keeps a deadline\<close>

text \<open>
  Between \<open>s\<close> and \<open>s'\<close> the timer was not touched, and a task that waited, other than \<open>a\<close>, waits on with
  as many ticks or can run, and then not because of its time limit.
\<close>

definition limits_kept :: "nat option \<Rightarrow> kernel \<Rightarrow> kernel \<Rightarrow> bool" where
  "limits_kept a s s' \<longleftrightarrow> mtime s' = mtime s \<and> clk s \<le> clk s' \<and> s_mtimecmp s' = s_mtimecmp s \<and> mtimecmp_reg s' = mtimecmp_reg s \<and>
     (\<forall>i. a \<noteq> Some i \<longrightarrow> tskstat (tcbs s i) = TTS_WAI \<longrightarrow>
       tskstat (tcbs s' i) = TTS_WAI \<and> delay_ticks (tcbs s' i) = delay_ticks (tcbs s i) \<or>
       runnable (tcbs s' i) \<and> wupcause (tcbs s' i) \<noteq> E_TMOUT)"

lemma limits_kept_refl: "limits_kept a s s"
  by (simp add: limits_kept_def)

interpretation limits: call_frame "\<lambda>s. limits_kept a s0 s \<and> current s = current s0 \<and> isr_depth s = isr_depth s0" s0
  "\<lambda>i. a = Some i" b for a s0 b
proof
  fix s i cause
  assume "limits_kept a s0 s \<and> current s = current s0 \<and> isr_depth s = isr_depth s0" "cause \<noteq> E_TMOUT"
  then have "limits_kept a s0 ((upd_tcb i (wake_tcb cause) s)\<lparr>links := h\<rparr>) \<and>
      current ((upd_tcb i (wake_tcb cause) s)\<lparr>links := h\<rparr>) = current s0 \<and>
      isr_depth ((upd_tcb i (wake_tcb cause) s)\<lparr>links := h\<rparr>) = isr_depth s0" for h
    by (simp add: limits_kept_def wake_tcb_def)
  then show "part (end_wait i cause s) (\<lambda>s. limits_kept a s0 s \<and> current s = current s0 \<and> isr_depth s = isr_depth s0)"
    by (intro part_mono [OF end_wait_effect]) blast
qed (auto simp: limits_kept_def quiet_def)

lemma perform_limits:
  assumes "alive s" and "enabled c s"
  shows "part (perform c s) (\<lambda>(r, s'). limits_kept None s s')"
proof -
  obtain a where a: "a = None \<or> (\<exists>c. a = Some c \<and> running s c)" and f: "framed (a, \<not> starts c) (perform c s) s"
    using perform_framed [OF assms] by blast
  have "part (perform c s) (\<lambda>(r, s'). limits_kept a s s' \<and> current s' = current s \<and> isr_depth s' = isr_depth s)"
    using framedD [OF f] limits.call_frame_axioms by fastforce
  moreover have "limits_kept None s s'" if "limits_kept a s s'" for s'
  proof -
    have "a \<noteq> Some i" if "tskstat (tcbs s i) = TTS_WAI" for i using a that by (auto simp: running_def)
    then show ?thesis using that unfolding limits_kept_def by blast
  qed
  ultimately show ?thesis by (auto elim!: part_mono)
qed

text \<open>A switch leaves the waiting tasks alone: the task that it picks can run.\<close>

lemma serve_limits:
  assumes "alive s"
  shows "part (serve_msip a s) (\<lambda>(f, s'). limits_kept None s s')"
proof (cases "msip s")
  case True
  obtain Q where R: "rep (links s) Q" and G: "ginv s Q" using assms by (auto simp: alive_def sys_inv_def)
  have K: "kinv s Q" using G by (simp add: ginv_def)
  obtain c where c: "current s = Some c" and i: "runnable (tcbs s IDLE)" using assms by (auto simp: alive_def)
  obtain n where n: "top_ready Q = Some n" using top_ready_exists [OF K, of IDLE] i by (auto simp: IDLE_def)
  have "next_tsk s = Some n" using G c n True by (simp add: ginv_def sched_ok_def)
  moreover have "runnable (tcbs s n)" using top_ready_best [OF R K n] by simp
  ultimately show ?thesis
    using c True by (auto simp: serve_msip_def schedule_def Let_def limits_kept_def part_def split: if_split_asm)
qed (simp add: serve_msip_def limits_kept_refl)

lemma serve_runs:
  "part (serve_msip a s) (\<lambda>(f, s'). \<forall>i. wupcause (tcbs s' i) = wupcause (tcbs s i) \<and>
    (runnable (tcbs s i) \<longrightarrow> runnable (tcbs s' i)))"
  by (cases "current s"; cases "next_tsk s")
    (auto simp: serve_msip_def schedule_def Let_def)

lemma limits_isr [simp]:
  "limits_kept a (enter_isr s) s' = limits_kept a s s'" "limits_kept a s (leave_isr s') = limits_kept a s s'"
  "limits_kept a s (enter_isr s') = limits_kept a s s'"
  by (simp_all add: limits_kept_def enter_isr_def leave_isr_def)

lemma mtrap_limits:
  assumes "alive s" and "msip s"
  shows "part (mtrap_handler a s) (\<lambda>(f, s'). limits_kept None s s')"
proof -
  have "alive (enter_isr s)" using assms by simp
  from serve_limits [OF this, of a] show ?thesis
    using assms(2) by (auto simp: mtrap_handler_def serve_msip_def Let_def enter_isr_def leave_isr_def limits_kept_def elim!: part_mono)
qed

lemma external_limits:
  assumes "alive s"
  shows "part (external_exit a s) (\<lambda>(f, s'). limits_kept None s s')"
  using serve_limits [OF assms, of a] by (auto simp: external_exit_def limits_kept_refl elim!: part_mono)

text \<open>Every step but the timer interrupt keeps the deadlines.\<close>

lemma step_limits:
  assumes "step s s'" and A: "alive s"
  shows "limits_kept None s s' \<or> (\<exists>a f. \<not> tkmc_in_isr s \<and> timer_interrupt a s = Some (f, s'))"
  using assms(1)
proof cases
  case (call c r)
  then show ?thesis using perform_limits [OF A call(1)] by simp
next
  case (soft a f)
  then show ?thesis using mtrap_limits [OF A, of a] by simp
next
  case (ext_out a f)
  then show ?thesis using external_limits [OF A, of a] by simp
qed (auto simp: limits_kept_def EI_def external_enter_def enter_isr_def)

section \<open>The timer is always armed\<close>

lemma timer_handled:
  assumes A: "alive s" and t: "timer_interrupt a s = Some (f, s')"
  obtains Q s1 where "rep (links s) Q" and "ginv s Q" and "timer_done (enter_isr s) Q s1" and "mtime s1 = mtime s"
    and "limits_kept None s1 s'" 
    and "\<forall>i. wupcause (tcbs s' i) = wupcause (tcbs s1 i) \<and> (runnable (tcbs s1 i) \<longrightarrow> runnable (tcbs s' i))"
proof -
  obtain Q where R: "rep (links (enter_isr s)) Q" and G: "ginv (enter_isr s) Q" using A by (auto simp: alive_def sys_inv_def enter_isr_def)
  have C: "clock_ok (mtime (enter_isr s))" using A by (simp add: alive_def enter_isr_def)
  obtain s1 where h: "tkmc_timer_handler (enter_isr s) = Some s1" using t by (auto simp: timer_interrupt_def bind_eq_Some_conv)
  have "timer_done (enter_isr s) Q s1" using tkmc_timer_handler_ok [OF R G C] h by simp
  moreover have "mtime s1 = mtime s" using kept.handler [of "enter_isr s" "(None, False)"] h by (simp add: fr_def enter_isr_def)
  moreover have "alive s1" using timer_handler_alive [of "enter_isr s"] A h by simp
  then have "limits_kept None s1 s'"
    using serve_limits [of s1 a] t h by (auto simp: timer_interrupt_def bind_eq_Some_conv)
  moreover have "\<forall>i. wupcause (tcbs s' i) = wupcause (tcbs s1 i) \<and> (runnable (tcbs s1 i) \<longrightarrow> runnable (tcbs s' i))"
    using serve_runs [of a s1] t h by (auto simp: timer_interrupt_def bind_eq_Some_conv leave_isr_def)
  moreover have "rep (links s) Q" "ginv s Q" using R G by (simp_all add: enter_isr_def)
  ultimately show thesis by (intro that)
qed

lemma armed_later:
  "armed s \<Longrightarrow> clock_ok (mtime s) \<Longrightarrow> mtime s' = mtime s \<Longrightarrow> clk s \<le> clk s' \<Longrightarrow> s_mtimecmp s' = s_mtimecmp s \<Longrightarrow>
    mtimecmp_reg s' = mtimecmp_reg s \<Longrightarrow> armed s'"
  using clock_mono [of "mtime s" "clk s" "clk s'"] by (simp add: armed_def)

lemma armed_kept: "armed s \<Longrightarrow> clock_ok (mtime s) \<Longrightarrow> limits_kept a s s' \<Longrightarrow> armed s'"
  by (rule armed_later) (simp_all add: limits_kept_def)

lemma timer_done_armed:
  assumes D: "timer_done s Q s'" and C: "clock_ok (mtime s)" and m: "mtime s' = mtime s" and a: "armed s"
  shows "armed s'"
proof -
  obtain n mc s1 where p: "passed (s_mtimecmp s) s n mc s1" and d: "if of_nat n = (0 :: UINT) then s' = s1
      else s_mtimecmp s' = mc \<and> mtimecmp_reg s' = mc \<and> clk s' = clk s1"
    using D by (auto simp: timer_done_def split: if_split_asm)
  show ?thesis
  proof (cases "of_nat n = (0 :: UINT)")
    case True
    then show ?thesis using d p a C by (auto simp: passed_def intro: armed_later [OF a C])
  next
    case False
    then have "0 < n" by (cases n) auto
    then obtain k where k: "k < clk s1" "unat mc \<le> unat (mtime s k) + 100000" using p by (auto simp: passed_def)
    then show ?thesis using clock_mono [OF C, of k "clk s1"] d False m by (auto simp: armed_def)
  qed
qed

lemma step_armed:
  assumes "step s s'" and A: "alive s" and a: "armed s"
  shows "armed s'"
proof -
  have C: "clock_ok (mtime s)" using A by (simp add: alive_def)
  from step_limits [OF assms(1) A] show ?thesis
  proof (elim disjE exE conjE)
    fix x f assume "timer_interrupt x s = Some (f, s')"
    then obtain Q s1 where D: "timer_done (enter_isr s) Q s1" "mtime s1 = mtime s" "limits_kept None s1 s'"
      by (rule timer_handled [OF A])
    then have "armed s1" using timer_done_armed [OF D(1)] C a by (simp add: enter_isr_def armed_def)
    then show ?thesis using armed_kept D C by simp
  qed (rule armed_kept [OF a C])
qed

lemma reachable_armed: "reachable im s \<Longrightarrow> armed s"
proof (induction rule: reachable.induct)
  case (boot s0 a0 ic0 s ic)
  then show ?case using tkmc_start_boots [OF boot(1-4), of a0 ic0] by simp
qed (use step_armed reachable_alive in blast)

section \<open>The timer interrupt and a deadline\<close>

text \<open>A wait with a time limit is on the timer queue.\<close>

lemma limited_timed:
  assumes "kinv s Q" and "limited s i" and "i < CFN_MAX_TSKID"
  shows "timed Q i"
  using kinvD(4) [OF assms(1,3)] assms(2) by (auto simp: task_ok_def head_ok_def limited_def)

lemma passed_unat: "passed c s n mc s1 \<Longrightarrow> unat mc = unat c + n * 100000"
  unfolding passed_def by (elim conjE)

lemma ticks_passed:
  assumes p: "passed (s_mtimecmp s) s n mc s1" and C: "clock_ok (mtime s)" and e: "clk s1 \<le> e"
    and o: "unat (mtime s e) < unat (s_mtimecmp s) + 2 ^ 31 * 100000"
  shows "n < 2 ^ 32" and "\<exists>k. clk s \<le> k \<and> k < e \<and> unat (mtime s k) < unat (s_mtimecmp s) + n * 100000 \<and>
    (0 < n \<longrightarrow> unat (s_mtimecmp s) + n * 100000 \<le> unat (mtime s k) + 100000)"
proof -
  obtain k where k: "clk s \<le> k" "k < clk s1" "unat (mtime s k) < unat (s_mtimecmp s) + n * 100000"
      "0 < n \<longrightarrow> unat (s_mtimecmp s) + n * 100000 \<le> unat (mtime s k) + 100000"
    using passed_edges [OF p] by (auto simp: edges_def)
  then show "\<exists>k. clk s \<le> k \<and> k < e \<and> unat (mtime s k) < unat (s_mtimecmp s) + n * 100000 \<and>
    (0 < n \<longrightarrow> unat (s_mtimecmp s) + n * 100000 \<le> unat (mtime s k) + 100000)" using e by (intro exI [of _ k]) simp
  have "unat (mtime s k) \<le> unat (mtime s e)" using clock_mono [OF C, of k e] k(2) e by simp
  then show "n < 2 ^ 32" using k(4) o by (cases "n = 0") simp_all
qed

text \<open>
  What the handler leaves when it has read the time at \<open>k\<close> last and counted \<open>n\<close> edges: the next edge, and
  the tasks of the timer queue aged by \<open>n\<close> ticks.
\<close>

lemma tick_reads:
  assumes A: "alive s" and D: "timer_done (enter_isr s) Q s1" and e: "clk s1 \<le> e"
    and o: "unat (mtime s e) < unat (s_mtimecmp s) + 2 ^ 31 * 100000"
  obtains n k where "unat (of_nat n :: UINT) = n" and "clk s \<le> k" and "k < e"
    and "unat (mtime s k) < unat (s_mtimecmp s) + n * 100000"
    and "0 < n \<longrightarrow> unat (s_mtimecmp s) + n * 100000 \<le> unat (mtime s k) + 100000"
    and "unat (s_mtimecmp s1) = unat (s_mtimecmp s) + n * 100000"
    and "if n = 0 then tcbs s1 = tcbs s else \<forall>i. aged (of_nat n) (timed Q i) (tcbs s i) (tcbs s1 i)"
proof -
  obtain n mc s2 where p: "passed (s_mtimecmp (enter_isr s)) (enter_isr s) n mc s2"
    and d: "if of_nat n = (0 :: UINT) then s1 = s2
      else s_mtimecmp s1 = mc \<and> mtimecmp_reg s1 = mc \<and> clk s1 = clk s2 \<and>
        (\<forall>k. aged (of_nat n) (timed Q k) (tcbs (enter_isr s) k) (tcbs s1 k))"
    using D unfolding timer_done_def by blast
  have C: "clock_ok (mtime (enter_isr s))" using A by (simp add: alive_def enter_isr_def)
  have e': "clk s2 \<le> e" using d e by (auto split: if_split_asm)
  obtain k where k: "clk s \<le> k" "k < e" "unat (mtime s k) < unat (s_mtimecmp s) + n * 100000"
      "0 < n \<longrightarrow> unat (s_mtimecmp s) + n * 100000 \<le> unat (mtime s k) + 100000" and n: "n < 2 ^ 32"
    using ticks_passed [OF p C e'] o by (auto simp: enter_isr_def)
  have w: "unat (of_nat n :: UINT) = n" using n by (simp add: unat_of_nat)
  then have z: "of_nat n = (0 :: UINT) \<longleftrightarrow> n = 0" by auto
  have "unat (s_mtimecmp s1) = unat (s_mtimecmp s) + n * 100000"
    using d passed_unat [OF p] p by (cases "n = 0") (auto simp: z enter_isr_def passed_def)
  moreover have "if n = 0 then tcbs s1 = tcbs s else \<forall>i. aged (of_nat n) (timed Q i) (tcbs s i) (tcbs s1 i)"
    using d p by (cases "n = 0") (auto simp: z enter_isr_def passed_def)
  ultimately show thesis by (intro that [OF w k])
qed

text \<open>
  What the interrupt does to a wait, in terms of the time \<open>k\<close> that it read last: before the deadline
  the wait goes on (or ends because the wait was for a semaphore and another waiter gave up), at the
  deadline or later it is over.
\<close>

lemma tick_deadline:
  assumes A: "alive s" and t: "timer_interrupt a s = Some (f, s')" and o: "on_time s s'" and l: "limited s i" and i: "i < CFN_MAX_TSKID"
  shows "mtime s' = mtime s \<and> (\<exists>k. clk s \<le> k \<and> k < clk s' \<and>
    (if unat (mtime s k) < due s i
     then limited s' i \<and> due s' i = due s i \<or> runnable (tcbs s' i) \<and> wupcause (tcbs s' i) \<noteq> E_TMOUT
     else runnable (tcbs s' i)))"
proof -
  obtain Q s1 where Q: "rep (links s) Q" "ginv s Q" and D: "timer_done (enter_isr s) Q s1" and m: "mtime s1 = mtime s"
    and L: "limits_kept None s1 s'" and w: "\<forall>i. wupcause (tcbs s' i) = wupcause (tcbs s1 i) \<and> (runnable (tcbs s1 i) \<longrightarrow> runnable (tcbs s' i))"
    by (rule timer_handled [OF A t])
  have e: "clk s1 \<le> clk s'" and M: "mtime s' = mtime s" using L m by (simp_all add: limits_kept_def)
  obtain n k where n: "unat (of_nat n :: UINT) = n" and k: "clk s \<le> k" "k < clk s'" "unat (mtime s k) < unat (s_mtimecmp s) + n * 100000"
      "0 < n \<longrightarrow> unat (s_mtimecmp s) + n * 100000 \<le> unat (mtime s k) + 100000"
    and c: "unat (s_mtimecmp s1) = unat (s_mtimecmp s) + n * 100000"
    and d: "if n = 0 then tcbs s1 = tcbs s else \<forall>i. aged (of_nat n) (timed Q i) (tcbs s i) (tcbs s1 i)"
    by (rule tick_reads [OF A D e o [unfolded on_time_def]])
  let ?t = "tcbs s i" and ?d = "unat (delay_ticks (tcbs s i))"
  have dl: "1 \<le> ?d" using l by (simp add: limited_def Suc_le_eq unat_gt_0)
  have tm: "timed Q i" using limited_timed [OF _ l i] Q by (simp add: ginv_def)
  have "n = 0 \<and> tcbs s1 i = ?t \<or> aged (of_nat n) True ?t (tcbs s1 i)" using d tm by (auto split: if_split_asm dest: spec [of _ i])
  then consider "n < ?d" "tcbs s1 i = ?t\<lparr>delay_ticks := delay_ticks ?t - of_nat n\<rparr>"
    | "?d \<le> n" "tcbs s1 i = wake_tcb E_TMOUT ?t" | "tcbs s1 i = wake_tcb E_OK ?t"
    using dl by (auto simp: aged_def word_less_nat_alt word_le_nat_alt n)
  then show ?thesis
  proof cases
    case 1
    then have u: "unat (delay_ticks (tcbs s1 i)) = ?d - n" by (simp add: unat_sub word_le_nat_alt n)
    then have "limited s1 i" using 1 l by (auto simp: limited_def)
    then have "limited s' i \<and> due s' i = due s1 i \<or> runnable (tcbs s' i) \<and> wupcause (tcbs s' i) \<noteq> E_TMOUT"
      using L unfolding limits_kept_def limited_def due_def by auto
    moreover have "due s1 i = due s i" using 1 u c by (simp add: due_def algebra_simps diff_mult_distrib)
    moreover have "unat (mtime s k) < due s i" using 1 k(3) by (simp add: due_def)
    ultimately show ?thesis using k M by auto
  next
    case 2
    then have "due s i \<le> unat (mtime s k)" using k(4) dl by (simp add: due_def)
    then show ?thesis using k M 2 w by (auto simp: wake_tcb_def)
  next
    case 3
    then show ?thesis using k M w by (auto simp: wake_tcb_def)
  qed
qed

section \<open>Deadlines over a run\<close>

text \<open>One step: the deadline stays while the wait goes on, and the limit ends it only when reached.\<close>

lemma step_deadline:
  assumes st: "step s s'" and A: "alive s" and o: "on_time s s'" and l: "limited s i" and i: "i < CFN_MAX_TSKID"
  shows "mtime s' = mtime s \<and> (limited s' i \<and> due s' i = due s i \<or> runnable (tcbs s' i) \<and>
    (wupcause (tcbs s' i) = E_TMOUT \<longrightarrow> (\<exists>k. clk s \<le> k \<and> k < clk s' \<and> due s i \<le> unat (mtime s k))))"
  using step_limits [OF st A]
proof (elim disjE exE conjE)
  assume "limits_kept None s s'"
  then show ?thesis using l unfolding limits_kept_def limited_def due_def by auto
next
  fix a f assume t: "timer_interrupt a s = Some (f, s')"
  show ?thesis using tick_deadline [OF A t o l i] by (auto simp: not_less split: if_split_asm)
qed

text \<open>The runs through which a task waits, without the timer being kept waiting for too long.\<close>

inductive waits_on :: "nat \<Rightarrow> kernel \<Rightarrow> kernel \<Rightarrow> bool" for i where
  here: "limited s i \<Longrightarrow> waits_on i s s"
| on: "waits_on i s s' \<Longrightarrow> step s' s'' \<Longrightarrow> on_time s' s'' \<Longrightarrow> limited s'' i \<Longrightarrow> waits_on i s s''"

lemma not_runnable: "limited s i \<Longrightarrow> \<not> runnable (tcbs s i)"
  by (auto simp: limited_def)

lemma waits_on_kept:
  assumes "waits_on i s s'" and "reachable im s" and i: "i < CFN_MAX_TSKID"
  shows "reachable im s' \<and> limited s' i \<and> mtime s' = mtime s \<and> due s' i = due s i"
  using assms(1,2)
proof (induction rule: waits_on.induct)
  case (on s s' s'')
  then have IH: "reachable im s'" "limited s' i" "mtime s' = mtime s" "due s' i = due s i" by simp_all
  from step_deadline [OF on(2) reachable_alive [OF IH(1)] on(3) IH(2) i] not_runnable [OF on(4)]
  show ?case using IH on(2,4) reachable.step by auto
qed simp

text \<open>When the deadline is reached the compare register asks for the interrupt.\<close>

lemma due_pending: "armed s \<Longrightarrow> due s i \<le> unat (mtime s (clk s)) \<Longrightarrow> mtimecmp_reg s \<le> mtime s (clk s)"
  by (simp add: armed_def due_def word_le_nat_alt)

section \<open>How long a limit is\<close>

text \<open>The time limit that a call asks for, in milliseconds.\<close>

fun limit_of :: "svc \<Rightarrow> UINT option" where
  "limit_of (Dly_tsk dlytm) = (if dlytm = 0 then None else Some dlytm)"
| "limit_of (Slp_tsk tmout) = (if tmout > 0 then Some (word_of_int tmout) else None)"
| "limit_of (Wai_sem _ _ tmout) = (if tmout > 0 then Some (word_of_int tmout) else None)"
| "limit_of (Wai_flg _ _ _ _ tmout) = (if tmout > 0 then Some (word_of_int tmout) else None)"
| "limit_of (Rcv_mbx _ _ tmout) = (if tmout > 0 then Some (word_of_int tmout) else None)"
| "limit_of _ = None"

lemma void_Block: "void m = Some (Block, s') \<longleftrightarrow> m = Some (Block, s')"
proof (cases m)
  case (Some x)
  then show ?thesis by (cases x; cases "fst x") (auto simp: void_def)
qed (simp add: void_def)

text \<open>Every call with a time limit that blocks leaves its caller waiting for the ticks of that limit.\<close>

lemma limit_started:
  assumes A: "alive s" and e: "enabled c s" and l: "limit_of c = Some ms" and p: "perform c s = Some (Block, s')"
  shows "\<exists>i d. current s = Some i \<and> delayed_by ms s (clk s') d \<and> tskstat (tcbs s' i) = TTS_WAI \<and> delay_ticks (tcbs s' i) = d"
proof -
  have I: "sys_inv s" and C: "clock_ok (mtime s)" and st: "settled s"
    using A e l by (cases c; auto simp: alive_def may_wait_def split: if_split_asm)+
  note defs = void_Block ok_def sleeps_def blocked_def wait_tcb_def block_tcb_def time_limit_def TMO_FEVR_def
  show ?thesis
  proof (cases c)
    case (Dly_tsk m)
    then show ?thesis using tk_dly_tsk_ok [OF I st C, of m] l p
      by (auto simp: dly_tsk_result_def defs split: if_split_asm)
  next
    case (Slp_tsk tmout)
    then show ?thesis using tk_slp_tsk_ok [OF I st C, of tmout] l p
      by (auto simp: slp_tsk_result_def defs split: if_split_asm)
  next
    case (Wai_sem x n tmout)
    then show ?thesis using tk_wai_sem_ok [OF I st C, of x n tmout] l p
      by (auto simp: wai_sem_result_def wai_sem_body_def Let_def defs split: if_split_asm option.split_asm)
  next
    case (Wai_flg x w m a tmout)
    then show ?thesis using tk_wai_flg_ok [OF I st C, of x w m a tmout] l p
      by (auto simp: wai_flg_result_def wai_flg_body_def Let_def defs split: if_split_asm option.split_asm)
  next
    case (Rcv_mbx x a tmout)
    then show ?thesis using tk_rcv_mbx_ok [OF I st C, of x a tmout] l p
      by (auto simp: rcv_mbx_result_def rcv_mbx_body_def Let_def defs split: if_split_asm option.split_asm)
  qed (use l in auto)
qed

text \<open>The deadline of such a wait in real time.\<close>

lemma delayed_due:
  assumes d: "delayed_by ms s e d" and C: "clock_ok (mtime s)" and a: "armed s"
    and o: "unat (mtime s e) < unat (s_mtimecmp s) + 2 ^ 31 * 100000"
  shows "d \<noteq> 0" and "\<exists>k. clk s \<le> k \<and> k < e \<and>
    unat (mtime s k) + unat ms * 10000 < unat (s_mtimecmp s) + (unat d - 1) * 100000 \<and>
    unat (s_mtimecmp s) + (unat d - 1) * 100000 \<le> unat (mtime s k) + (unat ms + 19) * 10000"
proof -
  obtain n k where n: "d = tkmc_ms_to_ticks ms + of_nat n" and k: "clk s \<le> k" "k < e"
      "unat (mtime s k) < unat (s_mtimecmp s) + n * 100000"
      "0 < n \<longrightarrow> unat (s_mtimecmp s) + n * 100000 \<le> unat (mtime s k) + 100000"
    using d by (auto simp: delayed_by_def edges_def)
  define m where "m = (unat ms + 9) div 10"
  have t: "unat (tkmc_ms_to_ticks ms) = m + 1" using ms_to_ticks_bounds [of ms] by (simp add: m_def)
  have m: "unat ms \<le> 10 * m" "10 * m \<le> unat ms + 9" by (auto simp: m_def)
  have "unat ms < 2 ^ 32" using unsigned_less [of ms] by simp
  have le: "unat (mtime s (clk s)) \<le> unat (mtime s k)" "unat (mtime s k) \<le> unat (mtime s e)"
    using clock_mono [OF C, of "clk s" k] clock_mono [OF C, of k e] k by simp_all
  have u: "unat (s_mtimecmp s) + n * 100000 \<le> unat (mtime s k) + 100000"
    using k(4) a le by (cases "n = 0") (auto simp: armed_def)
  then have "n < 2 ^ 31 + 1" using le o by linarith
  then have "unat d = m + 1 + n"
    using \<open>unat ms < 2 ^ 32\<close> m unfolding n by (simp add: unat_word_ariths unat_of_nat t)
  then show "d \<noteq> 0" and "\<exists>k. clk s \<le> k \<and> k < e \<and>
    unat (mtime s k) + unat ms * 10000 < unat (s_mtimecmp s) + (unat d - 1) * 100000 \<and>
    unat (s_mtimecmp s) + (unat d - 1) * 100000 \<le> unat (mtime s k) + (unat ms + 19) * 10000"
    using k(1-3) u m by (auto intro!: exI [of _ k] simp: algebra_simps)
qed

lemma current_index: "sys_inv s \<Longrightarrow> current s = Some i \<Longrightarrow> i < CFN_MAX_TSKID"
  by (auto simp: sys_inv_def ginv_def cur_ok_def dest!: kinvD(3))

lemma limit_bounds:
  assumes r: "reachable im s" and e: "enabled c s" and l: "limit_of c = Some ms" and p: "perform c s = Some (Block, s')"
    and o: "on_time s s'" and i: "current s = Some i"
  shows "i < CFN_MAX_TSKID" and "limited s' i" and "mtime s' = mtime s" and "clk s' \<noteq> clk s"
    and "unat (mtime s (clk s)) + unat ms * 10000 < due s' i" and "due s' i \<le> unat (mtime s (clk s')) + (unat ms + 19) * 10000"
proof -
  have A: "alive s" and a: "armed s" using reachable_alive [OF r] reachable_armed [OF r] by simp_all
  have C: "clock_ok (mtime s)" using A by (simp add: alive_def)
  show "i < CFN_MAX_TSKID" using current_index i A by (auto simp: alive_def)
  obtain d where d: "delayed_by ms s (clk s') d" "tskstat (tcbs s' i) = TTS_WAI" "delay_ticks (tcbs s' i) = d"
    using limit_started [OF A e l p] i by auto
  have k: "mtime s' = mtime s" "s_mtimecmp s' = s_mtimecmp s" using perform_limits [OF A e] p by (simp_all add: limits_kept_def)
  then show "mtime s' = mtime s" by simp
  note D = delayed_due [OF d(1) C a o [unfolded on_time_def]]
  show "limited s' i" using d D(1) by (simp add: limited_def)
  obtain t where t: "clk s \<le> t" "t < clk s'" "unat (mtime s t) + unat ms * 10000 < due s' i"
      "due s' i \<le> unat (mtime s t) + (unat ms + 19) * 10000"
    using D(2) d(3) k by (auto simp: due_def)
  have "unat (mtime s (clk s)) \<le> unat (mtime s t)" "unat (mtime s t) \<le> unat (mtime s (clk s'))"
    using clock_mono [OF C] t by simp_all
  then show "clk s' \<noteq> clk s" "unat (mtime s (clk s)) + unat ms * 10000 < due s' i"
    "due s' i \<le> unat (mtime s (clk s')) + (unat ms + 19) * 10000" using t by simp_all
qed

section \<open>A sample delay\<close>

definition sample_delayed :: kernel where
  "sample_delayed = after (perform (Dly_tsk 10) sample_boot)"

lemma step_clk: "clk s \<le> k \<Longrightarrow> step s (s\<lparr>clk := k\<rparr>)"
  using step.runs [of s k "mstatus s" "stack_mem s"] by simp

lemma sample_on_time: "mtime s = sample_clock \<Longrightarrow> on_time s s'"
  by (simp add: on_time_def unat_sample_clock min_def)

lemma sample_delay:
  "enabled (Dly_tsk 10) sample_boot" "perform (Dly_tsk 10) sample_boot = Some (Block, sample_delayed)"
  "mtime sample_delayed = sample_clock" "limited sample_delayed 0" "clk sample_delayed \<le> 18" "on_time sample_boot sample_delayed"
proof -
  show e: "enabled (Dly_tsk 10) sample_boot" using sample_boot_tasks(1) by simp
  have "ok (perform (Dly_tsk 10) sample_boot) (\<lambda>(r, s'). r = Block)"
    using tk_dly_tsk_ok [OF sample_boot_inv(1,7,6), of 10] sample_boot_tasks(2)
    by (auto simp: void_def ok_def dly_tsk_result_def split: if_split_asm)
  from after_ok [OF this] show p: "perform (Dly_tsk 10) sample_boot = Some (Block, sample_delayed)"
    unfolding sample_delayed_def by (auto split: prod.splits)
  show o: "on_time sample_boot sample_delayed" by (rule sample_on_time [OF sample_start(3)])
  have l: "limit_of (Dly_tsk 10) = Some 10" by simp
  note b = limit_bounds [OF sample_reachable e l p o sample_boot_inv(3)]
  show "mtime sample_delayed = sample_clock" "limited sample_delayed 0" using b(2,3) sample_start(3) by simp_all
  obtain n k where n: "clk sample_delayed \<le> clk sample_boot + 6 * Suc n" "k < clk sample_delayed"
      "0 < n \<longrightarrow> unat (s_mtimecmp sample_boot) + n * 100000 \<le> unat (sample_clock k) + 100000"
    using limit_started [OF sample_alive e l p] sample_start(3) by (auto simp: delayed_by_def edges_def)
  have "unat (sample_clock k) \<le> k * 1000" by (simp add: unat_sample_clock)
  then have "n \<le> 1" using n sample_start(6) by (cases "n = 0") simp_all
  then show "clk sample_delayed \<le> 18" using n(1) sample_start(6) by simp
qed

section \<open>Time-outs come neither early nor late\<close>

text \<open>C7: a time-out never comes early. A task asks for a wait of ms milliseconds (a delay, a sleep, or a wait for
  a semaphore, a flag or a message with a time limit) and is blocked; then the kernel takes any steps
  - calls of other tasks, interrupts, switches - through which the task goes on waiting, and one step more.
  As long as no more than ms milliseconds have passed on the hardware clock since the call, the task
  still waits with its time limit, or something else than the limit has ended its wait. Each step is taken
  to end less than 2 ^ 31 ticks (248 days) after the timer interrupt was due.\<close>

theorem timeout_never_early:
  assumes "reachable im s" and "enabled c s" and "limit_of c = Some ms" and "perform c s = Some (Block, s1)"
    and "on_time s s1" and "current s = Some i"
    and "waits_on i s1 s2" and "step s2 s3" and "on_time s2 s3"
    and "unat (mtime s (clk s3)) \<le> unat (mtime s (clk s)) + unat ms * 10000"
  shows "limited s3 i \<or> runnable (tcbs s3 i) \<and> wupcause (tcbs s3 i) \<noteq> E_TMOUT"
proof -
  note b = limit_bounds [OF assms(1-6)]
  have r: "reachable im s1" using assms(1,2,4) by (auto intro: reachable.step step.call)
  note w = waits_on_kept [OF assms(7) r b(1)]
  have "unat (mtime s k) \<le> unat (mtime s (clk s3))" if "k < clk s3" for k
    using clock_mono [of "mtime s" k "clk s3"] reachable_alive [OF assms(1)] that by (simp add: alive_def)
  then show ?thesis
    using step_deadline [OF assms(8) reachable_alive assms(9) _ b(1)] w b(3,5) assms(10) by fastforce
qed

text \<open>The sample delay, 5 ms later.\<close>

theorem timeout_never_early_witness:
  "reachable sample_image sample_boot \<and> perform (Dly_tsk 10) sample_boot = Some (Block, sample_delayed) \<and>
   waits_on 0 sample_delayed sample_delayed \<and> step sample_delayed (sample_delayed\<lparr>clk := 50\<rparr>) \<and>
   (limited (sample_delayed\<lparr>clk := 50\<rparr>) 0 \<or> runnable (tcbs (sample_delayed\<lparr>clk := 50\<rparr>) 0) \<and>
     wupcause (tcbs (sample_delayed\<lparr>clk := 50\<rparr>) 0) \<noteq> E_TMOUT)"
proof -
  have w: "waits_on 0 sample_delayed sample_delayed" using sample_delay(4) by (rule waits_on.here)
  have st: "step sample_delayed (sample_delayed\<lparr>clk := 50\<rparr>)" using sample_delay(5) by (intro step_clk) simp
  have t: "unat (mtime sample_boot (clk (sample_delayed\<lparr>clk := 50\<rparr>))) \<le> unat (mtime sample_boot (clk sample_boot)) + unat (10 :: UINT) * 10000"
    by (simp add: sample_start(3) unat_sample_clock)
  have "limit_of (Dly_tsk 10) = Some 10" by simp
  from timeout_never_early [OF sample_reachable sample_delay(1) this sample_delay(2,6) sample_boot_inv(3) w st
      sample_on_time [OF sample_delay(3)] t]
  show ?thesis using sample_reachable sample_delay(2) w st by blast
qed

text \<open>C8: a time-out never comes late. Once ms + 19 milliseconds have passed on the hardware clock since such
  a task was blocked and it waits still, the compare register asks for the timer interrupt, and the
  interrupt, when it is taken, returns and has ended the wait: the task can run. The steps, and the interrupt
  for its effect, are taken to end less than 2 ^ 31 ticks (248 days) after the timer interrupt was due.\<close>

theorem timeout_never_late:
  assumes "reachable im s" and "enabled c s" and "limit_of c = Some ms" and "perform c s = Some (Block, s1)"
    and "on_time s s1" and "current s = Some i" and "waits_on i s1 s2"
    and "unat (mtime s (clk s1)) + (unat ms + 19) * 10000 \<le> unat (mtime s (clk s2))"
  shows "mtimecmp_reg s2 \<le> mtime s2 (clk s2) \<and>
    (\<exists>f s3. timer_interrupt a s2 = Some (f, s3) \<and> (on_time s2 s3 \<longrightarrow> runnable (tcbs s3 i)))"
proof -
  note b = limit_bounds [OF assms(1-6)]
  have r: "reachable im s1" using assms(1,2,4) by (auto intro: reachable.step step.call)
  have w: "reachable im s2" "limited s2 i" "mtime s2 = mtime s" "due s2 i = due s1 i"
    using waits_on_kept [OF assms(7) r b(1)] b(3) by simp_all
  have A: "alive s2" using reachable_alive [OF w(1)] .
  have d: "due s2 i \<le> unat (mtime s2 (clk s2))" using w b(6) assms(8) by simp
  obtain f s3 where t: "timer_interrupt a s2 = Some (f, s3)"
    using timer_interrupt_alive [OF A, of a] by (auto simp: ok_def)
  have "runnable (tcbs s3 i)" if o: "on_time s2 s3"
  proof -
    obtain k where k: "clk s2 \<le> k" "if unat (mtime s2 k) < due s2 i then limited s3 i \<and> due s3 i = due s2 i \<or> runnable (tcbs s3 i) \<and> wupcause (tcbs s3 i) \<noteq> E_TMOUT
        else runnable (tcbs s3 i)"
      using tick_deadline [OF A t o w(2) b(1)] by blast
    have "unat (mtime s2 (clk s2)) \<le> unat (mtime s2 k)" using clock_mono [OF _ k(1)] A by (simp add: alive_def)
    then show ?thesis using k(2) d by auto
  qed
  then show ?thesis using t due_pending [OF reachable_armed [OF w(1)] d] by auto
qed

text \<open>The sample delay, 10 s later: the interrupt ends it.\<close>

theorem timeout_never_late_witness:
  "waits_on 0 sample_delayed (sample_delayed\<lparr>clk := 100000\<rparr>) \<and>
   mtimecmp_reg (sample_delayed\<lparr>clk := 100000\<rparr>) \<le> mtime (sample_delayed\<lparr>clk := 100000\<rparr>) 100000 \<and>
   (\<exists>f s. timer_interrupt 0x80010100 (sample_delayed\<lparr>clk := 100000\<rparr>) = Some (f, s) \<and> runnable (tcbs s 0))"
proof -
  let ?s = "sample_delayed\<lparr>clk := 100000\<rparr>"
  have st: "step sample_delayed ?s" using sample_delay(5) by (intro step_clk) simp
  have "limited ?s 0" using sample_delay(4) by (simp add: limited_def)
  then have w: "waits_on 0 sample_delayed ?s"
    by (intro waits_on.on [OF waits_on.here [OF sample_delay(4)] st sample_on_time]) (simp_all add: sample_delay(3))
  have t: "unat (mtime sample_boot (clk sample_delayed)) + (unat (10 :: UINT) + 19) * 10000 \<le> unat (mtime sample_boot (clk ?s))"
    using sample_delay(5) by (simp add: sample_start(3) unat_sample_clock)
  have "limit_of (Dly_tsk 10) = Some 10" by simp
  from timeout_never_late [OF sample_reachable sample_delay(1) this sample_delay(2,6) sample_boot_inv(3) w t, of "0x80010100"]
  show ?thesis using w sample_on_time [of ?s] sample_delay(3) by auto
qed

end
