(* ===== verification/TK_Idle.thy ===== *)
theory TK_Idle
  imports TK_Deadline
begin

text \<open>
  The bodies of the two tasks that the kernel starts: the idle loop of \<^verbatim>\<open>kernel/asm/rv32/idl_tsk.S\<close>, instruction
  by instruction and with the interrupts that can come between them, and the initial task of
  \<^verbatim>\<open>kernel/ini_tsk.c\<close>, which runs the application and deletes itself.
\<close>

section \<open>The two tasks\<close>

text \<open>
  The places of the idle loop: before \<^verbatim>\<open>csrrci\<close>, before the call of \<open>tkmc_idle_can_halt\<close>, at \<^verbatim>\<open>wfi\<close>, before
  \<^verbatim>\<open>csrs\<close> (label 2), and before the call of \<open>tkmc_yield\<close>. The state has the place, the register \<^verbatim>\<open>s0\<close> and the kernel.
\<close>

datatype idle_pc = Idle_mask | Idle_check | Idle_wfi | Idle_unmask | Idle_yield

type_synonym idle_state = "idle_pc \<times> UW \<times> kernel"

text \<open>What the CLINT has pending: a software interrupt, or a machine time that has reached the compare register.\<close>

definition clint_pending :: "kernel \<Rightarrow> bool" where
  "clint_pending s \<longleftrightarrow> msip s \<or> mtimecmp_reg s \<le> mtime s (clk s)"

text \<open>\<^verbatim>\<open>wfi\<close> stays where it is until an interrupt is pending, masked or not.\<close>

fun idle_instr :: "idle_state \<Rightarrow> idle_state option" where
  "idle_instr (Idle_mask, s0, s) = Some (Idle_check, mstatus s, s\<lparr>mstatus := mstatus s AND NOT 8\<rparr>)"
| "idle_instr (Idle_check, s0, s) = do {
     a0 \<leftarrow> tkmc_idle_can_halt s;
     Some (if a0 then Idle_wfi else Idle_unmask, s0, s) }"
| "idle_instr (Idle_wfi, s0, s) = Some (if clint_pending s then Idle_unmask else Idle_wfi, s0, s)"
| "idle_instr (Idle_unmask, s0, s) = (let s0 = s0 AND 8 in Some (Idle_yield, s0, s\<lparr>mstatus := mstatus s OR s0\<rparr>))"
| "idle_instr (Idle_yield, s0, s) = do {
     (r, s) \<leftarrow> tkmc_yield s;
     Some (Idle_mask, s0, s) }"

text \<open>
  The runs of the idle task. With interrupts on a trap may come before any instruction; then other tasks and
  handlers make whatever steps they make until the idle task runs again, where it was, with its \<^verbatim>\<open>s0\<close>
  and with the interrupt state it had. Time passes, and the calls use the stack, at every place.
  \<^verbatim>\<open>wfi\<close> also ends for a request of the PLIC, which is not in the state, so it may end at any time.
\<close>

inductive idle_run :: "image \<Rightarrow> idle_state \<Rightarrow> bool" for im where
  entry: "reachable im s \<Longrightarrow> running s IDLE \<Longrightarrow> \<not> tkmc_in_isr s \<Longrightarrow> int_enabled s \<Longrightarrow> idle_run im (Idle_mask, s0, s)"
| instr: "idle_run im x \<Longrightarrow> idle_instr x = Some y \<Longrightarrow> idle_run im y"
| trap: "idle_run im (pc, s0, s) \<Longrightarrow> int_enabled s \<Longrightarrow> rtranclp step s s' \<Longrightarrow> running s' IDLE \<Longrightarrow> \<not> tkmc_in_isr s' \<Longrightarrow>
    int_enabled s' \<Longrightarrow> idle_run im (pc, s0, s')"
| time: "idle_run im (pc, s0, s) \<Longrightarrow> clk s \<le> k \<Longrightarrow> idle_run im (pc, s0, s\<lparr>stack_mem := g, clk := k\<rparr>)"
| woken: "idle_run im (Idle_wfi, s0, s) \<Longrightarrow> idle_run im (Idle_unmask, s0, s)"

text \<open>The application's \<^verbatim>\<open>usermain\<close> is a parameter; the weak one of \<^verbatim>\<open>kernel/usermain.c\<close> does nothing.\<close>

definition usermain :: "int \<Rightarrow> kernel \<Rightarrow> kernel option" where
  "usermain a0 s = Some s"

definition tkmc_ini_tsk :: "(int \<Rightarrow> kernel \<Rightarrow> kernel option) \<Rightarrow> int \<Rightarrow> kernel \<Rightarrow> (unit outcome \<times> kernel) option" where
  "tkmc_ini_tsk main stacd s = do { s \<leftarrow> main stacd s; tk_exd_tsk s }"

section \<open>When the idle task stops the processor\<close>

definition alone :: "kernel \<Rightarrow> bool" where
  "alone s \<longleftrightarrow> (\<forall>i < CFN_MAX_TSKID. runnable (tcbs s i) \<longrightarrow> i = IDLE)"

lemma ends_meet:
  assumes "distinct (q # xs)" and "xs \<noteq> []"
  shows "hd (xs @ [q]) = last (q # xs) \<longleftrightarrow> length xs = 1"
  using assms by (cases xs; cases "tl xs") (auto simp: last_in_set dest: last_in_set)

lemma idle_can_halt:
  assumes a: "alive s" and c: "current s = Some IDLE"
  shows "tkmc_idle_can_halt s = Some (alone s)"
proof -
  obtain Q where R: "rep (links s) Q" and K: "kinv s Q" using a by (auto simp: alive_def sys_inv_def ginv_def)
  let ?q = "ReadyQ (CFN_MAX_PRI - 1)"
  have i: "IDLE < CFN_MAX_TSKID" "runnable (tcbs s IDLE)" "itskpri (tcbs s IDLE) = int CFN_MAX_PRI"
    using a by (simp_all add: alive_def IDLE_def)
  have m: "in_ring Q ?q (TcbHead IDLE)" using runnable_member [OF K i(1,2)] i(3) by simp
  then obtain xs where q: "Q ?q = Some xs" and x: "TcbHead IDLE \<in> set xs" by (auto simp: in_ring_def)
  obtain t where t: "top_ready Q = Some t" using top_ready_exists [OF K i(1,2)] by blast
  note best = top_ready_best [OF R K t]
  have one: "(hd (xs @ [?q]) = last (?q # xs)) \<longleftrightarrow> xs = [TcbHead IDLE]"
    using ends_meet [OF repD(2) [OF R q]] x by (cases xs) auto
  have "(t = IDLE \<and> xs = [TcbHead IDLE]) \<longleftrightarrow> alone s"
  proof
    assume e: "t = IDLE \<and> xs = [TcbHead IDLE]"
    show "alone s"
      unfolding alone_def
    proof (intro allI impI)
      fix k assume k: "k < CFN_MAX_TSKID" "runnable (tcbs s k)"
      have "itskpri (tcbs s k) = int CFN_MAX_PRI" using best(3) [OF k] e i(3) task_pri [OF K k(1)] k(2) by auto
      then have "in_ring Q ?q (TcbHead k)" using runnable_member [OF K k] by simp
      then show "k = IDLE" using q e by (simp add: in_ring_def)
    qed
  next
    assume al: "alone s"
    then have "t = IDLE" using best(1,2) unfolding alone_def by blast
    have "n = TcbHead IDLE" if "n \<in> set xs" for n
    proof -
      have r: "in_ring Q ?q n" using q that by (simp add: in_ring_def)
      then obtain k where n: "n = TcbHead k" using typed_in_ring [OF kinvD(1) [OF K] r] by (auto split: node.splits)
      then show ?thesis using ready_member(1,2) [OF R K r [unfolded n]] al unfolding alone_def by blast
    qed
    with x have e: "set xs = {TcbHead IDLE}" by blast
    have "distinct xs" using repD(2) [OF R q] by simp
    with e have "xs = [TcbHead IDLE]" by (rule single_member)
    with \<open>t = IDLE\<close> show "t = IDLE \<and> xs = [TcbHead IDLE]" by simp
  qed
  then show ?thesis
    using tkmc_get_highest_priority_task_rep [OF R K] get_next_head [OF R q] get_prev_head [OF R q] one t c
    by (auto simp: tkmc_idle_can_halt_def)
qed

lemma yield_keeps: "part (tkmc_yield s) (\<lambda>(r, s'). r \<noteq> Halt \<and> tcbs s' = tcbs s)"
  unfolding tkmc_yield_def crit_def DI_def reschedule_def
  by (auto simp: EI_def dispatch_def part_def [of "current s"] intro!: part_links part_reads)

lemma yield_idle:
  assumes "alive s" and "running s IDLE"
  shows "ok (tkmc_yield s) (\<lambda>(r, s'). step s s' \<and> running s' IDLE \<and> isr_depth s' = isr_depth s \<and> mstatus s' = mstatus s)"
proof -
  have r: "resumes (\<lambda>_. True) s" using assms(2) by (auto simp: resumes_def)
  obtain v s' where y: "tkmc_yield s = Some (v, s')" using yield.serves [OF assms(1) r] by (auto simp: ok_def)
  have v: "v \<noteq> Halt" "tcbs s' = tcbs s" using yield_keeps [of s] y by simp_all
  have "step s s'" by (rule step.call [of Yield]) (use r y v in \<open>auto simp: void_def\<close>, cases v, auto)
  then show ?thesis using yield.serves [OF assms(1) r] y v assms(2) by (simp add: running_def)
qed

section \<open>Every run\<close>

lemma mask_bits: "(v OR (r AND 8)) AND 8 = (v AND 8) OR (r AND (8 :: UW))"
  by (rule bit_word_eqI) (auto simp: bit_simps)

text \<open>
  Between \<^verbatim>\<open>csrrci\<close> and \<^verbatim>\<open>csrs\<close> interrupts are masked and \<^verbatim>\<open>s0\<close> has the mask bit to be put back; at \<^verbatim>\<open>wfi\<close> what the check
  has found still holds, since nothing but time has passed.
\<close>

fun idle_inv :: "image \<Rightarrow> idle_state \<Rightarrow> bool" where
  "idle_inv im (pc, s0, s) \<longleftrightarrow> reachable im s \<and> running s IDLE \<and> \<not> tkmc_in_isr s \<and>
     (int_enabled s \<longleftrightarrow> pc = Idle_mask \<or> pc = Idle_yield) \<and>
     (pc = Idle_check \<or> pc = Idle_wfi \<or> pc = Idle_unmask \<longrightarrow> s0 AND 8 \<noteq> 0) \<and> (pc = Idle_wfi \<longrightarrow> alone s)"

lemma step_mstatus: "step s (s\<lparr>mstatus := v\<rparr>)"
  using step.runs [of s "clk s" v "stack_mem s"] by simp

lemma idle_instr_ok:
  assumes "idle_inv im (pc, s0, s)"
  shows "ok (idle_instr (pc, s0, s)) (idle_inv im)"
proof -
  have r: "reachable im s" and c: "running s IDLE" and d: "isr_depth s = 0" using assms by (simp_all add: tkmc_in_isr_def)
  have A: "alive s" by (rule reachable_alive [OF r])
  note m = reachable.step [OF r step_mstatus]
  show ?thesis
  proof (cases pc)
    case Idle_mask
    then show ?thesis using assms m by (simp add: running_def tkmc_in_isr_def MSTATUS_MIE_def and.assoc)
  next
    case Idle_check
    then show ?thesis using assms idle_can_halt [OF A] c by (simp add: running_def)
  next
    case Idle_unmask
    then show ?thesis using assms m by (simp add: running_def tkmc_in_isr_def MSTATUS_MIE_def mask_bits)
  next
    case Idle_yield
    then show ?thesis
      using yield_idle [OF A c] reachable.step [OF r] assms d by (auto simp: tkmc_in_isr_def elim!: ok_mono)
  qed (use assms in simp)
qed

lemma reachable_steps: "rtranclp step s s' \<Longrightarrow> reachable im s \<Longrightarrow> reachable im s'"
  by (induction rule: rtranclp_induct) (auto intro: reachable.step)

lemma idle_run_inv: "idle_run im x \<Longrightarrow> idle_inv im x"
proof (induction rule: idle_run.induct)
  case (instr x y)
  obtain pc s0 s where "x = (pc, s0, s)" by (rule prod_cases3)
  then show ?case using instr idle_instr_ok [of im pc s0 s] by simp
next
  case (trap pc s0 s s')
  then show ?case using reachable_steps [OF trap(3), of im] by auto
next
  case (time pc s0 s k g)
  then show ?case
    using reachable.step [OF _ step.runs [OF time(2), of "mstatus s" g], of im]
    by (simp add: running_def tkmc_in_isr_def alone_def)
qed auto

text \<open>A time limit that is reached has its interrupt pending.\<close>

lemma due_wakes: "reachable im s \<Longrightarrow> due s i \<le> unat (mtime s (clk s)) \<Longrightarrow> clint_pending s"
  by (simp add: clint_pending_def due_pending [OF reachable_armed])

text \<open>A machine whose only task that can run is the idle one.\<close>

lemma sample_asleep_tcbs:
  "tcbs sample_asleep = (tcbs sample_boot)(0 := wait_tcb TTW_SLP 0 (tcbs sample_boot 0))" "mstatus sample_asleep = 0x1808"
  "reachable sample_image sample_asleep"
proof -
  have c: "ok (tk_slp_tsk TMO_FEVR sample_boot) (\<lambda>(r, s'). sys_inv s' \<and> (r \<noteq> Halt \<longrightarrow> mstatus s' = mstatus sample_boot))"
    using tk_slp_tsk_call_ok [OF sample_boot_inv(1,7,6), of TMO_FEVR] by (simp add: call_ok_def)
  have slp: "part (tk_slp_tsk TMO_FEVR sample_boot) (\<lambda>(r, s'). slp_tsk_result TMO_FEVR True sample_boot r s')"
    using tk_slp_tsk_ok [OF sample_boot_inv(1,7,6), of TMO_FEVR] sample_boot_tasks(2) by (auto simp: ok_def part_def)
  obtain r where r: "tk_slp_tsk TMO_FEVR sample_boot = Some (r, sample_asleep)" "r = Block" "mstatus sample_asleep = mstatus sample_boot"
      "tcbs sample_asleep = (tcbs sample_boot)(0 := wait_tcb TTW_SLP 0 (tcbs sample_boot 0))"
    using after_ok [OF part_ok [OF c slp]] sample_boot_tasks(3) sample_boot_inv(3)
    by (auto simp: time_limit_def sample_asleep_def slp_tsk_result_def sleeps_def TMO_FEVR_def TMO_POL_def)
  then show "tcbs sample_asleep = (tcbs sample_boot)(0 := wait_tcb TTW_SLP 0 (tcbs sample_boot 0))" "mstatus sample_asleep = 0x1808"
    using sample_start(4) by simp_all
  have "perform (Slp_tsk TMO_FEVR) sample_boot = Some (Block, sample_asleep)" using r by (simp add: void_def)
  then show "reachable sample_image sample_asleep"
    using sample_boot_tasks(1) by (intro reachable.step [OF sample_reachable] step.call [of "Slp_tsk TMO_FEVR"]) auto
qed

lemma sample_idle_runs: "reachable sample_image sample_idle" "running sample_idle IDLE" "alone sample_idle"
proof -
  obtain f where r: "mtrap_handler 0x80010100 sample_asleep = Some (f, sample_idle)" "resumed 0x80010100 sample_asleep f sample_idle"
    using after_ok [OF mtrap_handler_alive [OF sample_asleep(1,2), of "0x80010100"]] by (auto simp: sample_idle_def)
  show "reachable sample_image sample_idle"
    by (rule reachable.step [OF sample_asleep_tcbs(3) step.soft [OF sample_asleep(2) _ r(1)]]) (simp add: tkmc_in_isr_def sample_asleep(4))
  have same: "\<forall>i < CFN_MAX_TSKID. runnable (tcbs sample_idle i) \<longleftrightarrow> runnable (tcbs sample_asleep i)" using r(2) unfolding resumed_def by blast
  have "\<not> runnable (tcbs sample_asleep i)" if "i < CFN_MAX_TSKID" "i \<noteq> IDLE" for i
  proof (cases "i = 0")
    case False
    then have "1 < i" using that by (simp add: IDLE_def)
    then have "tskstat (tcbs sample_boot i) = TTS_NOEXS" using that sample_start(2) by (simp add: boot_ok_def)
    then show ?thesis using sample_asleep_tcbs(1) False by auto
  qed (use sample_asleep(5) in simp)
  then show "alone sample_idle" using same by (auto simp: alone_def)
  obtain n where n: "running sample_idle n" using r(2) by (auto simp: resumed_def)
  then have "n = IDLE"
    using \<open>alone sample_idle\<close> sample_idle(1)
    by (auto simp: alone_def running_def alive_def sys_inv_def ginv_def cur_ok_def dest!: kinvD(3))
  then show "running sample_idle IDLE" using n by simp
qed

lemma sample_idle_status: "mstatus sample_idle = 0x1808"
  using after_ok [OF mtrap_handler_alive [OF sample_asleep(1,2), of "0x80010100"]] sample_asleep_tcbs(2)
  by (simp add: sample_idle_def)

text \<open>The idle task of that machine gets to its \<^verbatim>\<open>wfi\<close>.\<close>

lemma sample_idle_wfi: "idle_run sample_image (Idle_wfi, 0x1808, sample_idle\<lparr>mstatus := 0x1800\<rparr>)"
proof -
  let ?s = "sample_idle\<lparr>mstatus := 0x1800\<rparr>"
  have "idle_run sample_image (Idle_mask, 0, sample_idle)"
    by (rule idle_run.entry [OF sample_idle_runs(1,2)])
      (simp_all add: tkmc_in_isr_def sample_idle(4) sample_idle_status MSTATUS_MIE_def)
  then have c: "idle_run sample_image (Idle_check, 0x1808, ?s)" by (rule idle_run.instr) (simp add: sample_idle_status)
  have "tkmc_idle_can_halt ?s = Some True"
    using idle_can_halt [of ?s] sample_idle(1) sample_idle_runs(2,3) by (simp add: running_def alone_def)
  then show ?thesis by (intro idle_run.instr [OF c]) simp
qed

text \<open>
  C24: the idle task stops the processor only when nothing else can run, and a time limit that is reached meanwhile ends the stop. At
  every place of the idle loop, in every run of it, with traps wherever interrupts are on and time
  passing everywhere: the idle task is in a reachable state in which it is the running task, and its
  next instruction or call returns. Interrupts are masked exactly from \<^verbatim>\<open>csrrci\<close> to \<^verbatim>\<open>csrs\<close>, that is at
  the check, at \<^verbatim>\<open>wfi\<close> and up to \<^verbatim>\<open>csrs\<close>. The check leads to \<^verbatim>\<open>wfi\<close> exactly when no other task can run, and
  at \<^verbatim>\<open>wfi\<close>, as long as it lasts, no other task can run. If the time limit of a waiting task is
  reached there, the timer interrupt is pending and \<^verbatim>\<open>wfi\<close> ends; the next instruction then turns
  interrupts on with the request still pending.
\<close>

theorem idle_halts_only_alone:
  assumes "idle_run im (pc, s0, s)"
  shows "reachable im s \<and> running s IDLE \<and>
    (int_enabled s \<longleftrightarrow> pc \<notin> {Idle_check, Idle_wfi, Idle_unmask}) \<and>
    (pc = Idle_wfi \<longrightarrow> (\<forall>i < CFN_MAX_TSKID. runnable (tcbs s i) \<longrightarrow> i = IDLE)) \<and>
    (\<exists>pc' s0' s'. idle_instr (pc, s0, s) = Some (pc', s0', s') \<and>
      (pc = Idle_check \<longrightarrow> s' = s \<and> (pc' = Idle_wfi \<longleftrightarrow> (\<forall>i < CFN_MAX_TSKID. runnable (tcbs s i) \<longrightarrow> i = IDLE))) \<and>
      (pc = Idle_wfi \<and> limited s i \<and> due s i \<le> unat (mtime s (clk s)) \<longrightarrow> pc' = Idle_unmask \<and> s' = s) \<and>
      (pc = Idle_unmask \<longrightarrow> pc' = Idle_yield \<and> int_enabled s' \<and> (clint_pending s \<longrightarrow> clint_pending s')))"
proof -
  have I: "idle_inv im (pc, s0, s)" by (rule idle_run_inv [OF assms])
  obtain pc' s0' s' where n: "idle_instr (pc, s0, s) = Some (pc', s0', s')" and I': "idle_inv im (pc', s0', s')"
    using idle_instr_ok [OF I] by (auto simp: ok_def)
  have "tkmc_idle_can_halt s = Some (alone s)"
    using I by (intro idle_can_halt reachable_alive [of im]) (simp_all add: running_def)
  then have "pc = Idle_check \<longrightarrow> s' = s \<and> (pc' = Idle_wfi \<longleftrightarrow> alone s)" using n by (cases "alone s") auto
  moreover have "pc = Idle_wfi \<and> limited s i \<and> due s i \<le> unat (mtime s (clk s)) \<longrightarrow> pc' = Idle_unmask \<and> s' = s"
    using n I due_wakes [of im s i] by auto
  moreover have "pc = Idle_unmask \<longrightarrow> pc' = Idle_yield \<and> int_enabled s' \<and> (clint_pending s \<longrightarrow> clint_pending s')"
    using n I' by (auto simp: clint_pending_def Let_def)
  moreover have "int_enabled s \<longleftrightarrow> pc \<notin> {Idle_check, Idle_wfi, Idle_unmask}" using I by (cases pc) simp_all
  ultimately show ?thesis using I n unfolding idle_inv.simps alone_def [symmetric] by blast
qed

theorem idle_halts_only_alone_witness:
  "idle_run sample_image (Idle_wfi, 0x1808, sample_idle\<lparr>mstatus := 0x1800\<rparr>) \<and> running sample_idle IDLE \<and>
   \<not> int_enabled (sample_idle\<lparr>mstatus := 0x1800\<rparr>) \<and> \<not> runnable (tcbs sample_idle 0)"
proof -
  note D = idle_halts_only_alone [OF sample_idle_wfi, of 0]
  have "\<forall>i < CFN_MAX_TSKID. runnable (tcbs sample_idle i) \<longrightarrow> i = IDLE" using D by simp
  then have "\<not> runnable (tcbs sample_idle 0)" by (auto simp: IDLE_def dest!: spec [of _ 0])
  then show ?thesis using D sample_idle_wfi by (simp add: running_def)
qed

end
