(* ===== verification/TK_Port.thy ===== *)
theory TK_Port
  imports TK_Timer TK_IntCtl
begin

text \<open>
  The device registers by address: the addresses of \<^verbatim>\<open>kernel/asm/rv32/address.h\<close> and of the macros of
  \<^verbatim>\<open>kernel/intctl.c\<close>, and the word accesses of \<^verbatim>\<open>include/sys/ioport.h\<close> on the registers of the timer (CLINT)
  and of the interrupt controller (PLIC). The other theories name a register directly; here it is
  shown that the addresses the code computes lead to these registers and to no others.
\<close>

section \<open>Addresses\<close>

definition CLINT_BASE_ADDRESS :: addr where "CLINT_BASE_ADDRESS = 0x2000000"
definition CLINT_MSIP_OFFSET :: addr where "CLINT_MSIP_OFFSET = 0x0"
definition CLINT_MTIMECMP_OFFSET :: addr where "CLINT_MTIMECMP_OFFSET = 0x4000"
definition CLINT_MTIME_OFFSET :: addr where "CLINT_MTIME_OFFSET = 0xBFF8"
definition PLIC_BASE_ADDRESS :: addr where "PLIC_BASE_ADDRESS = 0xC000000"
definition PLIC_PRIORITY_OFFSET :: addr where "PLIC_PRIORITY_OFFSET = 0x0"
definition PLIC_ENABLE_OFFSET :: addr where "PLIC_ENABLE_OFFSET = 0x2000"
definition PLIC_THRESHOLD_OFFSET :: addr where "PLIC_THRESHOLD_OFFSET = 0x200000"
definition PLIC_CLAIM_OFFSET :: addr where "PLIC_CLAIM_OFFSET = 0x200004"

definition CLINT_MSIP_ADDRESS :: addr where "CLINT_MSIP_ADDRESS = CLINT_BASE_ADDRESS + CLINT_MSIP_OFFSET"
definition CLINT_MTIME_ADDRESS :: addr where "CLINT_MTIME_ADDRESS = CLINT_BASE_ADDRESS + CLINT_MTIME_OFFSET"
definition CLINT_MTIMECMP_ADDRESS :: addr where "CLINT_MTIMECMP_ADDRESS = CLINT_BASE_ADDRESS + CLINT_MTIMECMP_OFFSET"

definition PLIC_PRIORITY :: "UINT \<Rightarrow> addr" where
  "PLIC_PRIORITY src = PLIC_BASE_ADDRESS + PLIC_PRIORITY_OFFSET + 4 * src"

definition PLIC_ENABLE :: "UINT \<Rightarrow> addr" where
  "PLIC_ENABLE src = PLIC_BASE_ADDRESS + PLIC_ENABLE_OFFSET + 4 * (src div 32)"

definition PLIC_THRESHOLD :: addr where "PLIC_THRESHOLD = PLIC_BASE_ADDRESS + PLIC_THRESHOLD_OFFSET"
definition PLIC_CLAIM :: addr where "PLIC_CLAIM = PLIC_BASE_ADDRESS + PLIC_CLAIM_OFFSET"

lemmas address_defs = CLINT_BASE_ADDRESS_def CLINT_MSIP_OFFSET_def CLINT_MTIMECMP_OFFSET_def CLINT_MTIME_OFFSET_def
  PLIC_BASE_ADDRESS_def PLIC_PRIORITY_OFFSET_def PLIC_ENABLE_OFFSET_def PLIC_THRESHOLD_OFFSET_def PLIC_CLAIM_OFFSET_def
  CLINT_MSIP_ADDRESS_def CLINT_MTIME_ADDRESS_def CLINT_MTIMECMP_ADDRESS_def PLIC_PRIORITY_def PLIC_ENABLE_def
  PLIC_THRESHOLD_def PLIC_CLAIM_def

section \<open>The board\<close>

text \<open>
  Which register answers at an address: a word for each half of the two 64-bit registers, a word
  for the priority of each source, and a word for the enable bits of each 32 sources.
\<close>

datatype device =
    Msip | Mtimecmp_low | Mtimecmp_high | Mtime_low | Mtime_high
  | Priority nat | Enable nat | Threshold | Claim

definition word_index :: "addr \<Rightarrow> addr \<Rightarrow> nat \<Rightarrow> nat option" where
  "word_index base port n =
     (let d = unat (port - base) in if d mod 4 = 0 \<and> d div 4 < n then Some (d div 4) else None)"

definition decode :: "addr \<Rightarrow> device option" where
  "decode port =
     (if port = 0x2000000 then Some Msip
      else if port = 0x2004000 then Some Mtimecmp_low
      else if port = 0x2004004 then Some Mtimecmp_high
      else if port = 0x200BFF8 then Some Mtime_low
      else if port = 0x200BFFC then Some Mtime_high
      else if port = 0xC200000 then Some Threshold
      else if port = 0xC200004 then Some Claim
      else case word_index 0xC000000 port PLIC_SOURCE_COUNT of
          Some i \<Rightarrow> Some (Priority i)
        | None \<Rightarrow> map_option Enable (word_index 0xC002000 port 3))"

text \<open>
  The word accesses. A read of the claim register gives the number that the controller chooses,
  here the first argument; a write to it completes that source.
\<close>

definition in_w :: "UW \<Rightarrow> addr \<Rightarrow> kernel \<times> intctl \<Rightarrow> (UW \<times> kernel \<times> intctl) option" where
  "in_w claimed port st = (case st of (s, ic) \<Rightarrow> (case decode port of
       Some Msip \<Rightarrow> Some (if msip s then 1 else 0, s, ic)
     | Some Mtimecmp_low \<Rightarrow> Some (ucast (mtimecmp_reg s), s, ic)
     | Some Mtimecmp_high \<Rightarrow> Some (ucast (drop_bit 32 (mtimecmp_reg s)), s, ic)
     | Some Mtime_low \<Rightarrow> (case in_mtime_low s of (v, s) \<Rightarrow> Some (v, s, ic))
     | Some Mtime_high \<Rightarrow> (case in_mtime_high s of (v, s) \<Rightarrow> Some (v, s, ic))
     | Some (Priority i) \<Rightarrow> Some (plic_priority ic i, s, ic)
     | Some (Enable i) \<Rightarrow> Some (plic_enable ic i, s, ic)
     | Some Threshold \<Rightarrow> Some (plic_threshold ic, s, ic)
     | Some Claim \<Rightarrow> Some (claimed, s, ic)
     | None \<Rightarrow> None))"

definition out_w :: "addr \<Rightarrow> UW \<Rightarrow> kernel \<times> intctl \<Rightarrow> (kernel \<times> intctl) option" where
  "out_w port v st = (case st of (s, ic) \<Rightarrow> (case decode port of
       Some Msip \<Rightarrow> Some (s\<lparr>msip := (v AND 1 \<noteq> 0)\<rparr>, ic)
     | Some Mtimecmp_low \<Rightarrow> Some (out_mtimecmp_low v s, ic)
     | Some Mtimecmp_high \<Rightarrow> Some (out_mtimecmp_high v s, ic)
     | Some (Priority i) \<Rightarrow> Some (s, ic\<lparr>plic_priority := (plic_priority ic)(i := v)\<rparr>)
     | Some (Enable i) \<Rightarrow> Some (s, ic\<lparr>plic_enable := (plic_enable ic)(i := v)\<rparr>)
     | Some Threshold \<Rightarrow> Some (s, ic\<lparr>plic_threshold := v\<rparr>)
     | Some Claim \<Rightarrow> Some (s, complete v ic)
     | _ \<Rightarrow> None))"

text \<open>The double-word accesses: the low half first, then the high one.\<close>

definition out_d :: "addr \<Rightarrow> UD \<Rightarrow> kernel \<times> intctl \<Rightarrow> (kernel \<times> intctl) option" where
  "out_d port data st = do {
     st \<leftarrow> out_w port (ucast (data AND 0xFFFFFFFF)) st;
     out_w (port + 4) (ucast (drop_bit 32 data)) st }"

definition in_d :: "UW \<Rightarrow> addr \<Rightarrow> kernel \<times> intctl \<Rightarrow> (UD \<times> kernel \<times> intctl) option" where
  "in_d claimed port st = do {
     (low, st) \<leftarrow> in_w claimed port st;
     (high, st) \<leftarrow> in_w claimed (port + 4) st;
     Some (ucast low OR push_bit 32 (ucast high), st) }"

section \<open>Addresses lead to registers\<close>

lemma word_index_plus:
  assumes "i < n" and "n \<le> 1000"
  shows "word_index base (base + 4 * of_nat i) n = Some i"
proof -
  have "unat (4 * of_nat i :: 32 word) = 4 * i" using assms by (simp add: unat_word_ariths unat_of_nat)
  then show ?thesis using assms by (simp add: word_index_def)
qed

lemma word_index_above: "unat base + 4 * n \<le> unat port \<Longrightarrow> word_index base port n = None"
  by (auto simp: word_index_def Let_def unat_sub_if')

lemma decode_registers:
  "decode CLINT_MSIP_ADDRESS = Some Msip" "decode CLINT_MTIMECMP_ADDRESS = Some Mtimecmp_low"
  "decode (CLINT_MTIMECMP_ADDRESS + 4) = Some Mtimecmp_high" "decode CLINT_MTIME_ADDRESS = Some Mtime_low"
  "decode (CLINT_MTIME_ADDRESS + 4) = Some Mtime_high" "decode PLIC_THRESHOLD = Some Threshold" "decode PLIC_CLAIM = Some Claim"
  by (simp_all add: decode_def address_defs)

lemma double_word:
  "push_bit 32 (ucast (ucast (drop_bit 32 d) :: UW)) OR take_bit 32 (push_bit 32 r OR ucast (ucast (d AND 0xFFFFFFFF) :: UW)) = (d :: UD)"
  "ucast (ucast d :: UW) OR push_bit 32 (ucast (ucast (drop_bit 32 d) :: UW)) = (d :: UD)"
proof -
  have low: "bit (0xFFFFFFFF :: UD) n \<longleftrightarrow> n < 32" if "n < 64" for n
    using bit_mask_iff [of 32 n, where 'a = UD] that by (simp add: mask_eq_exp_minus_1)
  show "push_bit 32 (ucast (ucast (drop_bit 32 d) :: UW)) OR take_bit 32 (push_bit 32 r OR ucast (ucast (d AND 0xFFFFFFFF) :: UW)) = d"
    by (rule bit_word_eqI) (use low in \<open>auto simp: bit_simps\<close>)
  show "ucast (ucast d :: UW) OR push_bit 32 (ucast (ucast (drop_bit 32 d) :: UW)) = d"
    by (rule bit_word_eqI) (auto simp: bit_simps)
qed

lemma decode_plic:
  assumes "src < 96"
  shows "decode (PLIC_PRIORITY src) = Some (Priority (unat src))" and "decode (PLIC_ENABLE src) = Some (Enable (unat (src div 32)))"
proof -
  have u: "unat (base + 4 * x) = unat base + 4 * unat x" if "unat x < 96" "unat base < 0x10000000" for base x :: addr
    using that by (simp add: unat_word_ariths)
  have s: "unat src < 96" "unat (src div 32) < 3" using assms by (simp_all add: word_less_nat_alt unat_div)
  have p: "unat (PLIC_PRIORITY src) = 0xC000000 + 4 * unat src" using u [of src "0xC000000"] s by (simp add: address_defs)
  have e: "unat (PLIC_ENABLE src) = 0xC002000 + 4 * unat (src div 32)"
    using u [of "src div 32" "0xC002000"] s by (simp add: address_defs)
  have "word_index 0xC000000 (PLIC_PRIORITY src) PLIC_SOURCE_COUNT = Some (unat src)"
    using word_index_plus [of "unat src" 96 "0xC000000"] s by (simp add: address_defs PLIC_SOURCE_COUNT_def)
  then show "decode (PLIC_PRIORITY src) = Some (Priority (unat src))"
    using p s(1) by (auto simp: decode_def word_unat_eq_iff)
  have "word_index 0xC002000 (PLIC_ENABLE src) 3 = Some (unat (src div 32))"
    using word_index_plus [of "unat (src div 32)" 3 "0xC002000"] s by (simp add: address_defs)
  moreover have "word_index 0xC000000 (PLIC_ENABLE src) PLIC_SOURCE_COUNT = None"
    using e by (intro word_index_above) (simp add: PLIC_SOURCE_COUNT_def)
  ultimately show "decode (PLIC_ENABLE src) = Some (Enable (unat (src div 32)))"
    using e s(2) by (auto simp: decode_def word_unat_eq_iff)
qed

section \<open>Properties\<close>

text \<open>
  C39: the addresses that the code computes lead to the registers it means. The switch request, the
  two halves of the time and of the compare value, and, for every source of the board, its
  priority, its enable bit (a read, a change of one bit and a write), the threshold and the
  completion are exactly the accesses to the register at the address in question; a double-word
  access to the compare register reads back what it wrote.
\<close>

theorem ports_reach_registers:
  assumes "src < 96"
  shows "out_w CLINT_MSIP_ADDRESS 1 (s, ic) = Some (dispatch s, ic) \<and>
    in_w c (CLINT_MTIME_ADDRESS + 4) (s, ic) = (case in_mtime_high s of (v, s') \<Rightarrow> Some (v, s', ic)) \<and>
    in_w c CLINT_MTIME_ADDRESS (s, ic) = (case in_mtime_low s of (v, s') \<Rightarrow> Some (v, s', ic)) \<and>
    out_w CLINT_MTIMECMP_ADDRESS v (s, ic) = Some (out_mtimecmp_low v s, ic) \<and>
    out_w (CLINT_MTIMECMP_ADDRESS + 4) v (s, ic) = Some (out_mtimecmp_high v s, ic) \<and>
    out_w (PLIC_PRIORITY src) v (s, ic) = Some (s, ic\<lparr>plic_priority := (plic_priority ic)(unat src := v)\<rparr>) \<and>
    ok (in_w c (PLIC_ENABLE src) (s, ic)) (\<lambda>(word, st). st = (s, ic) \<and>
      (is_enabled src ic \<longleftrightarrow> drop_bit (unat (src mod 32)) word AND 1 \<noteq> 0) \<and>
      (\<forall>on. out_w (PLIC_ENABLE src) (let b = push_bit (unat (src mod 32)) 1 in if on then word OR b else word AND NOT b) st =
        Some (s, set_enabled src on ic))) \<and>
    out_w PLIC_THRESHOLD v (s, ic) = Some (s, ic\<lparr>plic_threshold := v\<rparr>) \<and>
    in_w c PLIC_THRESHOLD (s, ic) = Some (plic_threshold ic, s, ic) \<and>
    in_w c PLIC_CLAIM (s, ic) = Some (c, s, ic) \<and> out_w PLIC_CLAIM src (s, ic) = Some (s, complete src ic) \<and>
    ok (out_d CLINT_MTIMECMP_ADDRESS d (s, ic)) (\<lambda>st. st = (s\<lparr>mtimecmp_reg := d\<rparr>, ic) \<and>
      in_d c CLINT_MTIMECMP_ADDRESS st = Some (d, st))"
proof -
  have d: "out_mtimecmp_high (ucast (drop_bit 32 d)) (out_mtimecmp_low (ucast (d AND 0xFFFFFFFF)) s) = s\<lparr>mtimecmp_reg := d\<rparr>"
    using double_word [of d] by (simp add: out_mtimecmp_high_def out_mtimecmp_low_def)
  show ?thesis
    using d double_word [of d]
    by (simp add: out_w_def in_w_def out_d_def in_d_def decode_registers decode_plic [OF assms] dispatch_def is_enabled_def
        set_enabled_def Let_def split: prod.split)
qed

theorem ports_reach_registers_witness:
  "\<forall>s ic. out_w (PLIC_PRIORITY 95) 7 (s, ic) = Some (s, ic\<lparr>plic_priority := (plic_priority ic)(95 := 7)\<rparr>)"
  using ports_reach_registers [of 95] by simp

end
