(* ===== verification/TK_Trap.thy ===== *)
theory TK_Trap
  imports TK_Idle TK_Port
begin

text \<open>
  The assembly of \<^verbatim>\<open>kernel/asm/rv32/start.S\<close> and \<^verbatim>\<open>kernel/asm/rv32/launch_task.S\<close> on a processor with registers
  and the control registers that traps use: the frame that a trap pushes and pops, the move to the
  interrupt stack, the trap entries, the vector table, and the first entry into a task. The C
  functions that the entries call are those of the other theories. Of the registers, a C function
  keeps those of the calling convention and leaves anything in the others; of the memory, it may
  use the interrupt stack below the stack pointer it is called with.
\<close>

section \<open>The processor\<close>

datatype reg =
    X_ra | X_sp | X_gp | X_tp
  | X_t0 | X_t1 | X_t2 | X_t3 | X_t4 | X_t5 | X_t6
  | X_s0 | X_s1 | X_s2 | X_s3 | X_s4 | X_s5 | X_s6 | X_s7 | X_s8 | X_s9 | X_s10 | X_s11
  | X_a0 | X_a1 | X_a2 | X_a3 | X_a4 | X_a5 | X_a6 | X_a7

text \<open>\<open>priv\<close> is the privilege mode, 3 for machine mode; \<open>mstatus\<close> is a field of the kernel state.\<close>

record cpu =
  regs :: "reg \<Rightarrow> UW"
  pc :: addr
  priv :: UW
  mepc :: addr
  mcause :: UW
  mtval :: UW
  mie :: UW
  last_trap :: "UW \<times> UW \<times> UW"
  kern :: kernel

text \<open>What the linker places: the variable \<open>tkmc_isr_depth\<close>, the interrupt stack, the boot stack, the small data.\<close>

record layout =
  isr_depth_at :: addr
  isr_stack_begin :: addr
  isr_stack_end :: addr
  boot_stack_end :: addr
  global_pointer :: addr

text \<open>Loads and stores reach the depth counter, the switch request of the CLINT or the stacks.\<close>

definition load :: "layout \<Rightarrow> addr \<Rightarrow> cpu \<Rightarrow> UW" where
  "load lay a m =
     (if a = isr_depth_at lay then isr_depth (kern m)
      else if a = CLINT_MSIP_ADDRESS then (if msip (kern m) then 1 else 0)
      else stack_mem (kern m) a)"

definition store :: "layout \<Rightarrow> addr \<Rightarrow> UW \<Rightarrow> cpu \<Rightarrow> cpu" where
  "store lay a v m =
     (if a = isr_depth_at lay then m\<lparr>kern := (kern m)\<lparr>isr_depth := v\<rparr>\<rparr>
      else if a = CLINT_MSIP_ADDRESS then m\<lparr>kern := (kern m)\<lparr>msip := (v AND 1 \<noteq> 0)\<rparr>\<rparr>
      else m\<lparr>kern := (kern m)\<lparr>stack_mem := (stack_mem (kern m))(a := v)\<rparr>\<rparr>)"

definition set_reg :: "reg \<Rightarrow> UW \<Rightarrow> cpu \<Rightarrow> cpu" where
  "set_reg r v m = m\<lparr>regs := (regs m)(r := v)\<rparr>"

text \<open>
  The instructions of the entries; the offset of a load or store counts words. \<open>SW_zero\<close> stores
  the register zero, \<open>LI\<close> is also the \<open>la\<close> of an address.
\<close>

datatype instr =
    SW reg nat reg | SW_zero nat reg | LW reg nat reg
  | ADDI reg reg UW | ANDI reg reg UW | MV reg reg | LI reg UW
  | CSRR_mepc reg | CSRW_mepc reg | CSRRC_mie reg reg | CSRS_mie reg | CSRS_mstatus reg

fun exec1 :: "layout \<Rightarrow> instr \<Rightarrow> cpu \<Rightarrow> cpu" where
  "exec1 lay (SW r k b) m = store lay (frame_word (regs m b) k) (regs m r) m"
| "exec1 lay (SW_zero k b) m = store lay (frame_word (regs m b) k) 0 m"
| "exec1 lay (LW r k b) m = set_reg r (load lay (frame_word (regs m b) k) m) m"
| "exec1 lay (ADDI r b i) m = set_reg r (regs m b + i) m"
| "exec1 lay (ANDI r b i) m = set_reg r (regs m b AND i) m"
| "exec1 lay (MV r b) m = set_reg r (regs m b) m"
| "exec1 lay (LI r i) m = set_reg r i m"
| "exec1 lay (CSRR_mepc r) m = set_reg r (mepc m) m"
| "exec1 lay (CSRW_mepc r) m = m\<lparr>mepc := regs m r\<rparr>"
| "exec1 lay (CSRRC_mie d r) m = set_reg d (mie m) (m\<lparr>mie := mie m AND NOT (regs m r)\<rparr>)"
| "exec1 lay (CSRS_mie r) m = m\<lparr>mie := mie m OR regs m r\<rparr>"
| "exec1 lay (CSRS_mstatus r) m = m\<lparr>kern := (kern m)\<lparr>mstatus := mstatus (kern m) OR regs m r\<rparr>\<rparr>"

fun exec :: "layout \<Rightarrow> instr list \<Rightarrow> cpu \<Rightarrow> cpu" where
  "exec lay [] m = m"
| "exec lay (i # is) m = exec lay is (exec1 lay i m)"

section \<open>The macros\<close>

text \<open>The registers of a frame, in the order of its words.\<close>

definition frame_regs :: "reg list" where
  "frame_regs = [X_ra, X_t0, X_t1, X_t2, X_s0, X_s1, X_a0, X_a1, X_a2, X_a3, X_a4, X_a5, X_a6, X_a7,
     X_s2, X_s3, X_s4, X_s5, X_s6, X_s7, X_s8, X_s9, X_s10, X_s11, X_t3, X_t4, X_t5, X_t6]"

definition slots :: "(reg \<times> nat) list" where
  "slots = zip frame_regs [0..<28]"

definition SAVE_FRAME :: "instr list" where
  "SAVE_FRAME = [ADDI X_sp X_sp (- 128)] @ map (\<lambda>(r, k). SW r k X_sp) slots @ [CSRR_mepc X_t0, SW X_t0 28 X_sp]"

definition RESTORE_FRAME :: "instr list" where
  "RESTORE_FRAME = [LW X_t0 28 X_sp, CSRW_mepc X_t0] @ map (\<lambda>(r, k). LW r k X_sp) (rev slots) @ [ADDI X_sp X_sp 128]"

definition ENTER_ISR :: "layout \<Rightarrow> instr list" where
  "ENTER_ISR lay = [LI X_t0 (isr_depth_at lay), LW X_t1 0 X_t0, ADDI X_t1 X_t1 1, SW X_t1 0 X_t0, MV X_s0 X_sp,
     LI X_sp (isr_stack_end lay)]"

definition LEAVE_ISR :: "layout \<Rightarrow> instr list" where
  "LEAVE_ISR lay = [LI X_t0 (isr_depth_at lay), LW X_t1 0 X_t0, ADDI X_t1 X_t1 (- 1), SW X_t1 0 X_t0]"

section \<open>Traps and calls\<close>

definition MSTATUS_MPIE :: UW where "MSTATUS_MPIE = 0x80"
definition MSTATUS_MPP :: UW where "MSTATUS_MPP = 0x1800"

text \<open>What the processor does when it takes a trap, and at the end of one.\<close>

definition trap_mstatus :: "UW \<Rightarrow> UW \<Rightarrow> UW" where
  "trap_mstatus from_priv st = (st AND NOT (MSTATUS_MIE OR MSTATUS_MPIE OR MSTATUS_MPP)) OR
     (if st AND MSTATUS_MIE \<noteq> 0 then MSTATUS_MPIE else 0) OR push_bit 11 (from_priv AND 3)"

definition mret_mstatus :: "UW \<Rightarrow> UW" where
  "mret_mstatus st = (st AND NOT (MSTATUS_MIE OR MSTATUS_MPIE OR MSTATUS_MPP)) OR
     (if st AND MSTATUS_MPIE \<noteq> 0 then MSTATUS_MIE else 0) OR MSTATUS_MPIE"

definition take_trap :: "UW \<Rightarrow> cpu \<Rightarrow> cpu" where
  "take_trap cause m = m\<lparr>mepc := pc m, mcause := cause, priv := 3,
     kern := (kern m)\<lparr>mstatus := trap_mstatus (priv m) (mstatus (kern m))\<rparr>\<rparr>"

definition mret :: "cpu \<Rightarrow> cpu" where
  "mret m = m\<lparr>pc := mepc m, priv := drop_bit 11 (mstatus (kern m) AND MSTATUS_MPP),
     kern := (kern m)\<lparr>mstatus := mret_mstatus (mstatus (kern m))\<rparr>\<rparr>"

text \<open>
  A call of a C function. \<open>callee_saved\<close> registers are kept; the others, and the interrupt stack
  below the stack pointer, hold afterwards what the two components of a \<open>clobber\<close> say.
\<close>

definition callee_saved :: "reg \<Rightarrow> bool" where
  "callee_saved r \<longleftrightarrow> r \<in> {X_sp, X_gp, X_tp, X_s0, X_s1, X_s2, X_s3, X_s4, X_s5, X_s6, X_s7, X_s8, X_s9, X_s10, X_s11}"

type_synonym clobber = "(reg \<Rightarrow> UW) \<times> (addr \<Rightarrow> UW)"

definition c_called :: "layout \<Rightarrow> clobber \<Rightarrow> kernel \<Rightarrow> cpu \<Rightarrow> cpu" where
  "c_called lay j k m = m\<lparr>regs := (\<lambda>r. if callee_saved r then regs m r else fst j r),
     kern := k\<lparr>stack_mem := (\<lambda>a. if isr_stack_begin lay \<le> a \<and> a < regs m X_sp then snd j a else stack_mem k a)\<rparr>\<rparr>"

definition call_schedule :: "layout \<Rightarrow> clobber \<Rightarrow> cpu \<Rightarrow> cpu option" where
  "call_schedule lay j m = do {
     (v, k) \<leftarrow> schedule (regs m X_a0) (kern m);
     Some (set_reg X_a0 v (c_called lay j k m)) }"

definition call_void :: "layout \<Rightarrow> clobber \<Rightarrow> (kernel \<Rightarrow> kernel option) \<Rightarrow> cpu \<Rightarrow> cpu option" where
  "call_void lay j f m = do { k \<leftarrow> f (kern m); Some (c_called lay j k m) }"

section \<open>The trap entries\<close>

text \<open>The end that the entries share: a switch that is asked for is served from the frame in \<open>s0\<close>.\<close>

definition clear_msip :: "instr list" where
  "clear_msip = [LI X_t0 CLINT_MSIP_ADDRESS, SW_zero 0 X_t0]"

definition serve_switch :: "layout \<Rightarrow> clobber \<Rightarrow> cpu \<Rightarrow> cpu option" where
  "serve_switch lay j m = do {
     let m = exec lay [LI X_t0 CLINT_MSIP_ADDRESS, LW X_t1 0 X_t0] m;
     if regs m X_t1 = 0 then Some (exec lay [MV X_sp X_s0] m)
     else do {
       m \<leftarrow> call_schedule lay j (exec lay [SW_zero 0 X_t0, MV X_a0 X_s0] m);
       Some (exec lay [MV X_sp X_a0] m) } }"

definition entry_mtrap_handler :: "layout \<Rightarrow> clobber \<Rightarrow> cpu \<Rightarrow> cpu option" where
  "entry_mtrap_handler lay j m = do {
     let m = exec lay (SAVE_FRAME @ ENTER_ISR lay @ clear_msip @ [MV X_a0 X_s0]) m;
     m \<leftarrow> call_schedule lay j m;
     Some (mret (exec lay ([MV X_sp X_a0] @ LEAVE_ISR lay @ RESTORE_FRAME) m)) }"

definition entry_timer_interrupt :: "layout \<Rightarrow> clobber \<Rightarrow> clobber \<Rightarrow> cpu \<Rightarrow> cpu option" where
  "entry_timer_interrupt lay j j' m = do {
     let m = exec lay (SAVE_FRAME @ ENTER_ISR lay) m;
     m \<leftarrow> call_void lay j tkmc_timer_handler m;
     m \<leftarrow> serve_switch lay j' m;
     Some (mret (exec lay (LEAVE_ISR lay @ RESTORE_FRAME) m)) }"

text \<open>
  The external interrupt; \<open>handler\<close> is the run of \<open>tkmc_external_interrupt\<close> with the handlers that
  the application defined.
\<close>

definition MIE_SWITCH :: UW where "MIE_SWITCH = 0x88"

definition set_mpp :: "instr list" where
  "set_mpp = [LI X_t0 0x1800, CSRS_mstatus X_t0]"

definition enter_external :: "layout \<Rightarrow> cpu \<Rightarrow> cpu" where
  "enter_external lay m = (let
       m = exec lay (SAVE_FRAME @ [LI X_t0 (isr_depth_at lay), LW X_t1 0 X_t0, ADDI X_t1 X_t1 1, SW X_t1 0 X_t0,
         MV X_s0 X_sp, LI X_t0 1]) m
     in if regs m X_t1 \<noteq> regs m X_t0 then m
        else exec lay [LI X_sp (isr_stack_end lay), LI X_t1 MIE_SWITCH, CSRRC_mie X_t1 X_t1, SW X_t1 29 X_s0] m)"

definition unmask :: "instr list" where
  "unmask = [LW X_t0 29 X_s0, ANDI X_t0 X_t0 MIE_SWITCH, CSRS_mie X_t0]"

definition entry_external_interrupt :: "layout \<Rightarrow> (kernel \<Rightarrow> kernel option) \<Rightarrow> clobber \<Rightarrow> clobber \<Rightarrow> cpu \<Rightarrow> cpu option" where
  "entry_external_interrupt lay handler j j' m = do {
     m \<leftarrow> call_void lay j handler (enter_external lay m);
     let m = exec lay [LI X_t0 (isr_depth_at lay), LW X_t1 0 X_t0, LI X_t0 1] m;
     if regs m X_t1 \<noteq> regs m X_t0 then Some (mret (exec lay ([MV X_sp X_s0] @ set_mpp @ LEAVE_ISR lay @ RESTORE_FRAME) m))
     else do {
       m \<leftarrow> serve_switch lay j' m;
       Some (mret (exec lay (unmask @ set_mpp @ LEAVE_ISR lay @ RESTORE_FRAME) m)) } }"

section \<open>Exceptions and the vector table\<close>

text \<open>A synchronous exception stops the system; its cause, address and value are on record.\<close>

partial_function (option) tkmc_panic :: "UW \<Rightarrow> UW \<Rightarrow> UW \<Rightarrow> cpu \<Rightarrow> cpu option" where
  "tkmc_panic cause epc tval m = tkmc_panic cause epc tval m"

lemma panic_stops: "tkmc_panic cause epc tval m = None"
  by (cases "tkmc_panic cause epc tval m") (auto dest: tkmc_panic.raw_induct [rotated, where P = "\<lambda>_ _ _ _ _. False"])

definition tkmc_fatal_trap :: "UW \<Rightarrow> UW \<Rightarrow> UW \<Rightarrow> cpu \<Rightarrow> unit outcome \<times> cpu" where
  "tkmc_fatal_trap cause epc tval m = (Halt, m\<lparr>last_trap := (cause, epc, tval)\<rparr>)"

definition sync_exception_handler :: "layout \<Rightarrow> cpu \<Rightarrow> unit outcome \<times> cpu" where
  "sync_exception_handler lay m = (let
       m = set_reg X_a2 (mtval m) (set_reg X_a1 (mepc m) (set_reg X_a0 (mcause m) (set_reg X_sp (boot_stack_end lay) m)))
     in tkmc_fatal_trap (regs m X_a0) (regs m X_a1) (regs m X_a2) m)"

datatype trap_entry = Sync_exception | Default | Mtrap | Timer_interrupt | External_interrupt

definition trap_handlers :: "trap_entry list" where
  "trap_handlers = [Sync_exception, Default, Default, Mtrap, Default, Default, Default, Timer_interrupt,
     Default, Default, Default, External_interrupt, Default, Default, Default, Default]"

text \<open>In vectored mode an interrupt enters at the vector of its number, an exception at the first one.\<close>

definition vector_of :: "UW \<Rightarrow> nat" where
  "vector_of cause = (if 0x80000000 \<le> cause then unat (cause - 0x80000000) else 0)"

definition trap :: "layout \<Rightarrow> (kernel \<Rightarrow> kernel option) \<Rightarrow> clobber \<Rightarrow> clobber \<Rightarrow> UW \<Rightarrow> cpu \<Rightarrow> (unit outcome \<times> cpu) option" where
  "trap lay handler j j' cause m = (let m = take_trap cause m in
     if length trap_handlers \<le> vector_of cause then None
     else case trap_handlers ! vector_of cause of
         Sync_exception \<Rightarrow> Some (sync_exception_handler lay m)
       | Default \<Rightarrow> Some (Return (), mret m)
       | Mtrap \<Rightarrow> map_option (Pair (Return ())) (entry_mtrap_handler lay j m)
       | Timer_interrupt \<Rightarrow> map_option (Pair (Return ())) (entry_timer_interrupt lay j j' m)
       | External_interrupt \<Rightarrow> map_option (Pair (Return ())) (entry_external_interrupt lay handler j j' m))"

section \<open>Reset and the first task\<close>

definition launch_task :: "layout \<Rightarrow> nat \<Rightarrow> cpu \<Rightarrow> cpu" where
  "launch_task lay i m = (let
       m = set_reg X_sp (sp (tcbs (kern m) i)) m;
       m = exec lay (map (\<lambda>(r, k). LW r k X_sp) (rev slots) @ [LW X_a3 28 X_sp, ADDI X_sp X_sp 128]) m
     in m\<lparr>pc := regs m X_a3\<rparr>)"

definition start_entry :: "layout \<Rightarrow> image \<Rightarrow> clobber \<Rightarrow> intctl \<Rightarrow> cpu \<Rightarrow> (unit outcome \<times> cpu \<times> intctl) option" where
  "start_entry lay im j ic m = do {
     let m = set_reg X_gp (global_pointer lay) m;
     let m = exec lay [LI X_t0 0x888, CSRS_mie X_t0, LI X_sp (boot_stack_end lay)] m;
     (r, k, ic) \<leftarrow> tkmc_start im (sint (regs m X_a0)) (kern m, ic);
     let m = m\<lparr>regs := (\<lambda>r. if callee_saved r then regs m r else fst j r), kern := k\<rparr>;
     (case r of Return () \<Rightarrow> do { i \<leftarrow> current k; Some (Return (), launch_task lay i m, ic) }
      | _ \<Rightarrow> Some (r, m, ic)) }"

section \<open>Pushing and popping a frame\<close>

lemma exec_append [simp]: "exec lay (is @ js) m = exec lay js (exec lay is m)"
  by (induction "is" arbitrary: m) simp_all

lemma frame_word_0 [simp]: "frame_word a 0 = a"
  by (simp add: frame_word_def)

text \<open>A frame that covers neither the depth counter nor the register of the CLINT.\<close>

definition frame_clear :: "layout \<Rightarrow> addr \<Rightarrow> bool" where
  "frame_clear lay fp \<longleftrightarrow> (\<forall>k < 32. frame_word fp k \<noteq> isr_depth_at lay \<and> frame_word fp k \<noteq> CLINT_MSIP_ADDRESS)"

definition put_words :: "addr \<Rightarrow> (reg \<times> nat) list \<Rightarrow> (reg \<Rightarrow> UW) \<Rightarrow> (addr \<Rightarrow> UW) \<Rightarrow> addr \<Rightarrow> UW" where
  "put_words fp xs rs g = fold (\<lambda>(r, k) g. g(frame_word fp k := rs r)) xs g"

definition put_frame :: "addr \<Rightarrow> (reg \<Rightarrow> UW) \<Rightarrow> addr \<Rightarrow> (addr \<Rightarrow> UW) \<Rightarrow> addr \<Rightarrow> UW" where
  "put_frame fp rs a g = (put_words fp slots rs g)(frame_word fp 28 := a)"

lemma put_words_simps [simp]:
  "put_words fp [] rs g = g"
  "put_words fp ((r, k) # xs) rs g = put_words fp xs rs (g(frame_word fp k := rs r))"
  by (simp_all add: put_words_def)

lemma put_words_other: "(\<And>k. k \<in> snd ` set xs \<Longrightarrow> a \<noteq> frame_word fp k) \<Longrightarrow> put_words fp xs rs g a = g a"
  by (induction xs arbitrary: g) auto

lemma put_words_at:
  "(r, k) \<in> set xs \<Longrightarrow> distinct (map snd xs) \<Longrightarrow> \<forall>k \<in> snd ` set xs. k < 32 \<Longrightarrow> put_words fp xs rs g (frame_word fp k) = rs r"
proof (induction xs arbitrary: g)
  case (Cons x xs)
  show ?case
  proof (cases "x = (r, k)")
    case True
    then have "frame_word fp k \<noteq> frame_word fp j" if "j \<in> snd ` set xs" for j
      using Cons.prems that by (subst frame_word_eq) auto
    then have "put_words fp xs rs h (frame_word fp k) = h (frame_word fp k)" for h by (rule put_words_other)
    then show ?thesis using True by simp
  next
    case False
    then show ?thesis using Cons by (cases x) auto
  qed
qed simp

lemma slots_props:
  "distinct (map fst slots)" "distinct (map snd slots)" "snd ` set slots = {..<28}"
  "fst ` set slots = UNIV - {X_sp, X_gp, X_tp}"
proof -
  show "distinct (map fst slots)" "distinct (map snd slots)" by (simp_all add: slots_def frame_regs_def)
  show "snd ` set slots = {..<28}" by (auto simp: slots_def frame_regs_def upt_conv_Cons lessThan_nat_numeral)
  have "r \<in> fst ` set slots \<longleftrightarrow> r \<notin> {X_sp, X_gp, X_tp}" for r
    by (cases r) (simp_all add: slots_def frame_regs_def upt_conv_Cons)
  then show "fst ` set slots = UNIV - {X_sp, X_gp, X_tp}" by auto
qed

lemma exec_stores:
  assumes "frame_clear lay (regs m X_sp)" and "\<forall>k \<in> snd ` set xs. k < 32"
  shows "exec lay (map (\<lambda>(r, k). SW r k X_sp) xs) m =
    m\<lparr>kern := (kern m)\<lparr>stack_mem := put_words (regs m X_sp) xs (regs m) (stack_mem (kern m))\<rparr>\<rparr>"
  using assms by (induction xs arbitrary: m) (auto simp: store_def frame_clear_def)

lemma exec_SAVE_FRAME:
  assumes "frame_clear lay (regs m X_sp - 128)"
  shows "exec lay SAVE_FRAME m = m\<lparr>regs := (regs m)(X_sp := regs m X_sp - 128, X_t0 := mepc m),
    kern := (kern m)\<lparr>stack_mem := put_frame (regs m X_sp - 128) (regs m) (mepc m) (stack_mem (kern m))\<rparr>\<rparr>"
proof -
  let ?m = "set_reg X_sp (regs m X_sp - 128) m"
  have w: "put_words fp slots ((regs m)(X_sp := v)) g = put_words fp slots (regs m) g" for fp v g
  proof -
    have "\<forall>x \<in> set xs. fst x \<noteq> X_sp \<Longrightarrow> put_words fp xs ((regs m)(X_sp := v)) g = put_words fp xs (regs m) g" for xs
      by (induction xs arbitrary: g) auto
    moreover have "\<forall>x \<in> set slots. fst x \<noteq> X_sp" using slots_props(4) by blast
    ultimately show ?thesis by blast
  qed
  have "exec lay (map (\<lambda>(r, k). SW r k X_sp) slots) ?m =
      ?m\<lparr>kern := (kern m)\<lparr>stack_mem := put_words (regs m X_sp - 128) slots (regs m) (stack_mem (kern m))\<rparr>\<rparr>"
    using exec_stores [of lay ?m slots] assms slots_props(3) by (auto simp: set_reg_def w)
  then show ?thesis
    using assms by (auto simp: SAVE_FRAME_def set_reg_def store_def frame_clear_def put_frame_def fun_upd_twist)
qed

text \<open>What a frame in memory holds: the registers and the address to resume at.\<close>

definition saved_at :: "(addr \<Rightarrow> UW) \<Rightarrow> addr \<Rightarrow> (reg \<Rightarrow> UW) \<Rightarrow> addr \<Rightarrow> bool" where
  "saved_at g fp rs a \<longleftrightarrow> (\<forall>(r, k) \<in> set slots. g (frame_word fp k) = rs r) \<and> g (frame_word fp 28) = a \<and> rs X_sp = fp + 128"

lemma put_frame_saved: "saved_at (put_frame (fp - 128) rs a g) (fp - 128) (rs(X_sp := fp)) a"
proof -
  have "put_frame (fp - 128) rs a g (frame_word (fp - 128) k) = rs r" if "(r, k) \<in> set slots" for r k
  proof -
    have "k < 28" using that slots_props(3) by force
    then show ?thesis
      using put_words_at [OF that slots_props(2)] slots_props(3) by (auto simp: put_frame_def frame_word_eq)
  qed
  moreover have "r \<noteq> X_sp" if "(r, k) \<in> set slots" for r k using that slots_props(4) by force
  moreover have "put_frame (fp - 128) rs a g (frame_word (fp - 128) 28) = a" by (simp add: put_frame_def)
  ultimately show ?thesis by (auto simp: saved_at_def)
qed

lemma put_frame_other: "(\<And>k. k < 29 \<Longrightarrow> a \<noteq> frame_word fp k) \<Longrightarrow> put_frame fp rs v g a = g a"
  unfolding put_frame_def by (simp, rule put_words_other) (simp add: slots_props(3))

lemma put_frame_same:
  assumes "saved_at g fp rs a"
  shows "put_frame fp rs a g = g"
proof -
  have "\<forall>(r, k) \<in> set xs. g (frame_word fp k) = rs r \<Longrightarrow> put_words fp xs rs g = g" for xs
    by (induction xs) (auto simp: fun_upd_idem)
  then show ?thesis using assms by (simp add: put_frame_def saved_at_def fun_upd_idem)
qed

lemma saved_at_unique:
  assumes "saved_at g fp rs a" and "saved_at g fp rs' a'"
  shows "a = a' \<and> (\<forall>r. r \<notin> {X_gp, X_tp} \<longrightarrow> rs r = rs' r)"
proof -
  have "rs r = rs' r" if "r \<notin> {X_gp, X_tp}" for r
  proof (cases "r = X_sp")
    case False
    then have "r \<in> fst ` set slots" using that slots_props(4) by blast
    then obtain k where "(r, k) \<in> set slots" by auto
    then show ?thesis using assms by (fastforce simp: saved_at_def)
  qed (use assms in \<open>simp add: saved_at_def\<close>)
  then show ?thesis using assms by (simp add: saved_at_def)
qed

lemma saved_at_cong:
  assumes "\<And>k. k < 29 \<Longrightarrow> g (frame_word fp k) = g' (frame_word fp k)"
  shows "saved_at g fp rs a = saved_at g' fp rs a"
proof -
  have "k < 29" if "(r, k) \<in> set slots" for r k
  proof -
    have "k \<in> snd ` set slots" using that by force
    then show ?thesis by (simp add: slots_props(3))
  qed
  then show ?thesis using assms unfolding saved_at_def by (auto 0 3)
qed

lemma exec_loads:
  assumes "X_sp \<notin> fst ` set xs" and "distinct (map fst xs)"
  shows "exec lay (map (\<lambda>(r, k). LW r k X_sp) xs) m =
    m\<lparr>regs := (\<lambda>r. case map_of xs r of Some k \<Rightarrow> load lay (frame_word (regs m X_sp) k) m | None \<Rightarrow> regs m r)\<rparr>"
  using assms
proof (induction xs arbitrary: m)
  case (Cons x xs)
  obtain r k where x: "x = (r, k)" by (cases x)
  have r: "r \<noteq> X_sp" "map_of xs r = None" using Cons.prems x by (auto simp: map_of_eq_None_iff)
  let ?m = "set_reg r (load lay (frame_word (regs m X_sp) k) m) m"
  have l: "load lay a ?m = load lay a m" "regs ?m X_sp = regs m X_sp" for a using r by (simp_all add: load_def set_reg_def)
  have "exec lay (map (\<lambda>(r, k). LW r k X_sp) xs) ?m =
      ?m\<lparr>regs := (\<lambda>r. case map_of xs r of Some k \<Rightarrow> load lay (frame_word (regs m X_sp) k) m | None \<Rightarrow> regs ?m r)\<rparr>"
    unfolding Cons.IH [of ?m] l using Cons.prems by (subst Cons.IH) (simp_all add: l cong: option.case_cong)
  then show ?case using x r by (auto simp: set_reg_def fun_eq_iff intro!: cpu.equality split: option.split)
qed simp

lemma exec_RESTORE_FRAME:
  assumes "frame_clear lay fp" and "regs m X_sp = fp"
  shows "\<exists>rs a. saved_at (stack_mem (kern m)) fp rs a \<and> rs X_gp = regs m X_gp \<and> rs X_tp = regs m X_tp \<and>
    exec lay RESTORE_FRAME m = m\<lparr>regs := rs, mepc := a\<rparr>"
proof -
  let ?g = "stack_mem (kern m)"
  define rs where "rs r = (case map_of slots r of Some k \<Rightarrow> ?g (frame_word fp k) | None \<Rightarrow> if r = X_sp then fp + 128 else regs m r)" for r
  have ld: "load lay (frame_word fp k) m' = stack_mem (kern m') (frame_word fp k)" if "k < 32" for k m'
    using assms(1) that by (simp add: load_def frame_clear_def)
  have rev: "map_of (rev slots) = map_of slots" by (subst map_of_inject_set) (simp_all add: slots_props(1) flip: rev_map)
  have k: "k < 28" if "map_of slots r = Some k" for r k
    using map_of_SomeD [OF that] slots_props(3) by force
  have none: "map_of slots r = None \<longleftrightarrow> r \<in> {X_sp, X_gp, X_tp}" for r
    using slots_props(4) by (simp add: map_of_eq_None_iff)
  have sp: "rs X_sp = fp + 128" and gp: "rs X_gp = regs m X_gp" "rs X_tp = regs m X_tp"
    using none [of X_sp] none [of X_gp] none [of X_tp] by (simp_all add: rs_def)
  have some: "rs r = ?g (frame_word fp k)" if "(r, k) \<in> set slots" for r k
    using map_of_is_SomeI [OF slots_props(1) that] by (simp add: rs_def)
  have "saved_at ?g fp rs (?g (frame_word fp 28))"
    unfolding saved_at_def using some sp by auto
  moreover have "exec lay RESTORE_FRAME m = m\<lparr>regs := rs, mepc := ?g (frame_word fp 28)\<rparr>"
  proof -
    let ?m = "(set_reg X_t0 (?g (frame_word fp 28)) m)\<lparr>mepc := ?g (frame_word fp 28)\<rparr>"
    have "(case map_of slots r of Some k \<Rightarrow> load lay (frame_word fp k) ?m | None \<Rightarrow> regs ?m r) = (rs(X_sp := fp)) r" for r
    proof (cases "map_of slots r")
      case None
      then have "r \<noteq> X_t0" using none by auto
      then show ?thesis using None assms(2) by (simp add: set_reg_def rs_def)
    next
      case (Some k')
      then have "r \<noteq> X_sp" "k' < 32" using none [of r] k [of r k'] by auto
      then show ?thesis using Some by (simp add: ld set_reg_def rs_def)
    qed
    then have rs: "(\<lambda>r. case map_of slots r of Some k \<Rightarrow> load lay (frame_word fp k) ?m | None \<Rightarrow> regs ?m r) = rs(X_sp := fp)"
      by (rule ext)
    have "regs ?m X_sp = fp" using assms(2) by (simp add: set_reg_def)
    moreover have "X_sp \<notin> fst ` set (rev slots)" "distinct (map fst (rev slots))"
      using slots_props(1,4) by (simp_all flip: rev_map)
    ultimately have l: "exec lay (map (\<lambda>(r, k). LW r k X_sp) (rev slots)) ?m = ?m\<lparr>regs := rs(X_sp := fp)\<rparr>"
      using exec_loads [of "rev slots" lay ?m] unfolding rev by (simp only: rs simp_thms not_False_eq_True)
    have a: "exec lay [LW X_t0 28 X_sp, CSRW_mepc X_t0] m = ?m" using assms(2) by (simp add: ld set_reg_def)
    show ?thesis
      unfolding RESTORE_FRAME_def exec_append a l by (simp add: set_reg_def fun_upd_idem sp)
  qed
  ultimately show ?thesis using gp by blast
qed

lemmas mstatus_bits = MSTATUS_MIE_def MSTATUS_MPIE_def MSTATUS_MPP_def

lemma trap_mstatus_bits:
  assumes "st AND MSTATUS_MIE \<noteq> 0"
  shows "drop_bit 11 (trap_mstatus 3 st AND MSTATUS_MPP) = 3" and "trap_mstatus 3 st AND MSTATUS_MPIE \<noteq> 0"
    and "drop_bit 11 ((trap_mstatus x st OR 0x1800) AND MSTATUS_MPP) = 3" 
  using assms by (simp_all add: trap_mstatus_def mstatus_bits bit.conj_disj_distrib2 and.assoc)

lemma mret_mstatus_MIE: "st AND MSTATUS_MPIE \<noteq> 0 \<Longrightarrow> mret_mstatus st AND MSTATUS_MIE \<noteq> 0"
  by (simp add: mret_mstatus_def mstatus_bits bit.conj_disj_distrib2 and.assoc)

lemma exec_ENTER_ISR:
  assumes "isr_depth_at lay \<noteq> CLINT_MSIP_ADDRESS"
  shows "exec lay (ENTER_ISR lay) m = m\<lparr>regs := (regs m)(X_t0 := isr_depth_at lay, X_t1 := isr_depth (kern m) + 1,
      X_s0 := regs m X_sp, X_sp := isr_stack_end lay), kern := enter_isr (kern m)\<rparr>"
  by (simp add: ENTER_ISR_def set_reg_def load_def store_def enter_isr_def fun_upd_twist)

lemma leave_trap:
  assumes "frame_clear lay (regs m X_sp)"
  shows "\<exists>rs a. saved_at (stack_mem (kern m)) (regs m X_sp) rs a \<and> rs X_gp = regs m X_gp \<and> rs X_tp = regs m X_tp \<and>
    mret (exec lay (LEAVE_ISR lay @ RESTORE_FRAME) m) = m\<lparr>regs := rs, mepc := a, pc := a,
      priv := drop_bit 11 (mstatus (kern m) AND MSTATUS_MPP),
      kern := (leave_isr (kern m))\<lparr>mstatus := mret_mstatus (mstatus (kern m))\<rparr>\<rparr>"
proof -
  let ?m = "exec lay (LEAVE_ISR lay) m"
  have m: "?m = m\<lparr>regs := (regs m)(X_t0 := isr_depth_at lay, X_t1 := isr_depth (kern m) - 1), kern := leave_isr (kern m)\<rparr>"
    by (simp add: LEAVE_ISR_def set_reg_def load_def store_def leave_isr_def fun_upd_twist)
  have "frame_clear lay (regs ?m X_sp)" using assms by (simp add: m)
  from exec_RESTORE_FRAME [OF this refl] show ?thesis
    by (elim exE conjE) (auto simp: m mret_def leave_isr_def intro!: exI)
qed

section \<open>Calls\<close>

text \<open>What a C function leaves alone.\<close>

definition c_keeps :: "layout \<Rightarrow> cpu \<Rightarrow> cpu \<Rightarrow> bool" where
  "c_keeps lay m m' \<longleftrightarrow> (\<forall>r. callee_saved r \<longrightarrow> regs m' r = regs m r) \<and>
     (\<forall>a. \<not> (isr_stack_begin lay \<le> a \<and> a < regs m X_sp) \<longrightarrow> stack_mem (kern m') a = stack_mem (kern m) a) \<and>
     mepc m' = mepc m \<and> mie m' = mie m \<and> priv m' = priv m \<and> mstatus (kern m') = mstatus (kern m) \<and>
     isr_depth (kern m') = isr_depth (kern m)"

lemma schedule_keeps:
  "part (schedule a s) (\<lambda>(f, s'). stack_mem s' = stack_mem s \<and> (\<forall>i. current s \<noteq> Some i \<longrightarrow> sp (tcbs s' i) = sp (tcbs s i)) \<and>
    (\<forall>i. live (tcbs s i) \<longrightarrow> live (tcbs s' i)))"
  by (auto simp: schedule_def part_def bind_eq_Some_conv Let_def split: if_splits)

text \<open>
  The task that a switch resumes: it is running and the stack pointer is the frame it was left
  with, which for a task that is switched out now is \<open>fp\<close>.
\<close>

definition picked :: "nat \<Rightarrow> addr \<Rightarrow> kernel \<Rightarrow> addr \<Rightarrow> kernel \<Rightarrow> bool" where
  "picked c fp k f k' \<longleftrightarrow> alive k' \<and> \<not> msip k' \<and> (\<exists>n. running k' n \<and> runnable (tcbs k n) \<and> f = (if n = c then fp else sp (tcbs k n)) \<and>
     (n \<noteq> c \<longrightarrow> sp (tcbs k' c) = fp)) \<and> (\<forall>i. i \<noteq> c \<longrightarrow> sp (tcbs k' i) = sp (tcbs k i)) \<and>
     (\<forall>i. live (tcbs k i) \<longrightarrow> live (tcbs k' i))"

lemma running_index: "alive s \<Longrightarrow> running s n \<Longrightarrow> n < CFN_MAX_TSKID"
  by (auto simp: alive_def sys_inv_def ginv_def running_def cur_ok_def dest: kinvD(3))

lemma call_schedule_ok:
  assumes a: "alive k" "msip k" and k: "kern m = k\<lparr>msip := False\<rparr>" and c: "current k = Some c"
  shows "ok (call_schedule lay j m) (\<lambda>m'. c_keeps lay m m' \<and> picked c (regs m X_a0) k (regs m' X_a0) (kern m'))"
proof -
  note s = part_ok [OF schedule_alive [OF a, of "regs m X_a0"] schedule_keeps]
  show ?thesis
    unfolding call_schedule_def ok_bind k
  proof (rule ok_mono [OF s], clarify, goal_cases)
    case (1 f k')
    obtain n where n: "running k' n" "f = (if n = c then regs m X_a0 else sp (tcbs k n))" "sp (tcbs k' c) = regs m X_a0"
      and r: "\<forall>i < CFN_MAX_TSKID. runnable (tcbs k' i) \<longleftrightarrow> runnable (tcbs k i)"
      using 1 c by (auto simp: resumed_def)
    have "runnable (tcbs k n)" using r running_index [OF 1(1) n(1)] n(1) by (auto simp: running_def)
    then show ?case
      using 1 n c k by (auto simp: c_keeps_def c_called_def picked_def set_reg_def callee_saved_def running_def)
  qed
qed

definition asked :: "cpu \<Rightarrow> cpu" where
  "asked m = m\<lparr>kern := (kern m)\<lparr>msip := False\<rparr>, regs := (regs m)(X_t0 := CLINT_MSIP_ADDRESS, X_t1 := 1, X_a0 := regs m X_s0)\<rparr>"

lemma callee_saved_simps [simp]:
  "callee_saved X_sp" "callee_saved X_s0" "callee_saved X_gp" "callee_saved X_tp" "\<not> callee_saved X_t0"
  "\<not> callee_saved X_t1" "\<not> callee_saved X_a0"
  by (simp_all add: callee_saved_def)

lemma c_keepsD: "c_keeps lay m m' \<Longrightarrow> callee_saved r \<Longrightarrow> regs m' r = regs m r"
  by (simp add: c_keeps_def)

lemma c_keeps_trans: "c_keeps lay m m1 \<Longrightarrow> c_keeps lay m1 m2 \<Longrightarrow> c_keeps lay m m2"
  unfolding c_keeps_def using callee_saved_simps(1) by metis

lemma c_keeps_sp:
  assumes "c_keeps lay m m'"
  shows "c_keeps lay m ((set_reg X_sp v m')\<lparr>regs := (regs (set_reg X_sp v m'))(X_sp := regs m X_sp)\<rparr>)"
  using assms c_keepsD [OF assms, of X_sp] by (simp add: set_reg_def fun_upd_idem)

lemma c_keeps_regs:
  assumes "c_keeps lay m (m'\<lparr>regs := (regs m')(X_sp := v)\<rparr>)"
  shows "regs m' X_gp = regs m X_gp" "regs m' X_tp = regs m X_tp" "regs m' X_s0 = regs m X_s0"
  using c_keepsD [OF assms, of X_gp] c_keepsD [OF assms, of X_tp] c_keepsD [OF assms, of X_s0] by simp_all

lemma serve_switch_eq:
  assumes d: "isr_depth_at lay \<noteq> CLINT_MSIP_ADDRESS"
  shows "serve_switch lay j m = (if msip (kern m) then do { m \<leftarrow> call_schedule lay j (asked m); Some (set_reg X_sp (regs m X_a0) m) }
    else Some (m\<lparr>regs := (regs m)(X_t0 := CLINT_MSIP_ADDRESS, X_t1 := 0, X_sp := regs m X_s0)\<rparr>))"
  using d by (simp add: serve_switch_def asked_def set_reg_def load_def store_def)

lemma serve_switch_ok:
  assumes a: "alive (kern m)" and c: "current (kern m) = Some c" and d: "isr_depth_at lay \<noteq> CLINT_MSIP_ADDRESS"
    and r: "running (kern m) c \<or> msip (kern m)"
  shows "ok (serve_switch lay j m) (\<lambda>m'. c_keeps lay m (m'\<lparr>regs := (regs m')(X_sp := regs m X_sp)\<rparr>) \<and>
    picked c (regs m X_s0) (kern m) (regs m' X_sp) (kern m'))"
proof (cases "msip (kern m)")
  case True
  have k: "kern (asked m) = (kern m)\<lparr>msip := False\<rparr>" "regs (asked m) X_a0 = regs m X_s0" "c_keeps lay m (asked m)"
    by (auto simp: asked_def c_keeps_def)
  have "ok (call_schedule lay j (asked m)) (\<lambda>m'. c_keeps lay m m' \<and> picked c (regs m X_s0) (kern m) (regs m' X_a0) (kern m'))"
    by (rule ok_mono [OF call_schedule_ok [OF a True k(1) c]]) (use k c_keeps_trans [OF k(3)] in auto)
  then show ?thesis
    unfolding serve_switch_eq [OF d] if_P [OF True] ok_bind ok_Some
    by (rule ok_mono) (use c_keeps_sp in \<open>auto simp: set_reg_def\<close>)
next
  case False
  then have "picked c (regs m X_s0) (kern m) (regs m X_s0) (kern m)" using a r by (auto simp: picked_def running_def)
  then show ?thesis using False by (auto simp: serve_switch_eq [OF d] c_keeps_def)
qed

section \<open>What a trap does to the tasks\<close>

definition task_frame :: "layout \<Rightarrow> addr \<Rightarrow> bool" where
  "task_frame lay fp \<longleftrightarrow> frame_clear lay fp \<and>
     (\<forall>k < 32. \<not> (isr_stack_begin lay \<le> frame_word fp k \<and> frame_word fp k < isr_stack_end lay))"

definition apart_frames :: "addr \<Rightarrow> addr \<Rightarrow> bool" where
  "apart_frames fp fq \<longleftrightarrow> (\<forall>j < 32. \<forall>k < 32. frame_word fp j \<noteq> frame_word fq k)"

lemma apart_framesD: "apart_frames fp fq \<Longrightarrow> j \<le> 29 \<Longrightarrow> k \<le> 29 \<Longrightarrow> frame_word fq k \<noteq> frame_word fp j"
  unfolding apart_frames_def by (drule spec [of _ j], drule mp, simp, drule spec [of _ k]) auto

text \<open>
  What the traps rely on of the stacks: the frame \<open>fp\<close> of the running task and the frames of the
  other live tasks lie on stacks of their own, apart from each other, from the interrupt stack and
  from the two words that the entries access.
\<close>

definition stacks_ok :: "layout \<Rightarrow> addr \<Rightarrow> kernel \<Rightarrow> bool" where
  "stacks_ok lay fp k \<longleftrightarrow> isr_depth_at lay \<noteq> CLINT_MSIP_ADDRESS \<and> task_frame lay fp \<and>
     (\<forall>i < CFN_MAX_TSKID. current k \<noteq> Some i \<longrightarrow> live (tcbs k i) \<longrightarrow> task_frame lay (sp (tcbs k i)) \<and> apart_frames fp (sp (tcbs k i)))"

text \<open>
  A trap on the task \<open>c\<close> is over: some live task runs again in machine mode with interrupts on. If it is
  \<open>c\<close>, it has the registers it had; if it is another one, it has those of the frame that \<open>k\<close> has for
  it, and the frame of \<open>c\<close> holds the registers that \<open>c\<close> had. The frames of all other tasks live in
  \<open>k\<close> are as they were there; \<open>k\<close> is the state before the trap or, when an external interrupt has
  called a handler, after it.
\<close>

definition trap_over :: "nat \<Rightarrow> cpu \<Rightarrow> kernel \<Rightarrow> cpu \<Rightarrow> bool" where
  "trap_over c m k m' \<longleftrightarrow> alive (kern m') \<and> \<not> msip (kern m') \<and> isr_depth (kern m') = isr_depth (kern m) \<and>
     mie m' = mie m \<and> priv m' = 3 \<and> int_enabled (kern m') \<and> regs m' X_gp = regs m X_gp \<and> regs m' X_tp = regs m X_tp \<and>
     (\<exists>n. running (kern m') n \<and> live (tcbs k n) \<and> (if n = c then regs m' = regs m \<and> pc m' = pc m
        else saved_at (stack_mem k) (sp (tcbs k n)) (regs m') (pc m') \<and>
          saved_at (stack_mem (kern m')) (sp (tcbs (kern m') c)) (regs m) (pc m))) \<and>
     (\<forall>i rs a. i < CFN_MAX_TSKID \<longrightarrow> i \<noteq> c \<longrightarrow> live (tcbs k i) \<longrightarrow> saved_at (stack_mem k) (sp (tcbs k i)) rs a \<longrightarrow>
        saved_at (stack_mem (kern m')) (sp (tcbs (kern m') i)) rs a) \<and>
     (\<forall>i. live (tcbs k i) \<longrightarrow> live (tcbs (kern m') i))"

text \<open>The state before the end of a trap: the frame is pushed, the handler has run, the next task is chosen.\<close>

definition trap_served :: "layout \<Rightarrow> nat \<Rightarrow> cpu \<Rightarrow> kernel \<Rightarrow> kernel \<Rightarrow> cpu \<Rightarrow> bool" where
  "trap_served lay c m k0 k m2 \<longleftrightarrow> picked c (regs m X_sp - 128) k (regs m2 X_sp) (kern m2) \<and>
     (\<forall>i. (i \<noteq> c \<longrightarrow> sp (tcbs k i) = sp (tcbs k0 i)) \<and> (runnable (tcbs k i) \<longrightarrow> live (tcbs k0 i)) \<and>
       (live (tcbs k0 i) \<longrightarrow> live (tcbs k i))) \<and>
     (\<forall>a. \<not> (isr_stack_begin lay \<le> a \<and> a < isr_stack_end lay) \<longrightarrow> a \<noteq> frame_word (regs m X_sp - 128) 29 \<longrightarrow>
       stack_mem (kern m2) a = put_frame (regs m X_sp - 128) (regs m) (pc m) (stack_mem k0) a) \<and>
     regs m2 X_gp = regs m X_gp \<and> regs m2 X_tp = regs m X_tp \<and> mie m2 = mie m \<and>
     isr_depth (kern m2) = isr_depth (kern m) + 1 \<and> mstatus (kern m2) AND MSTATUS_MPIE \<noteq> 0 \<and>
     drop_bit 11 (mstatus (kern m2) AND MSTATUS_MPP) = 3"

lemma frames_kept:
  fixes m :: cpu and k0 :: kernel
  defines "fp \<equiv> regs m X_sp - 128"
  assumes S: "stacks_ok lay fp k0" and c: "current k0 = Some c"
    and mem: "\<And>x. \<not> (isr_stack_begin lay \<le> x \<and> x < isr_stack_end lay) \<Longrightarrow> x \<noteq> frame_word fp 29 \<Longrightarrow>
      g x = put_frame fp (regs m) (pc m) (stack_mem k0) x"
  shows "saved_at g fp (regs m) (pc m)"
    and "i < CFN_MAX_TSKID \<Longrightarrow> i \<noteq> c \<Longrightarrow> live (tcbs k0 i) \<Longrightarrow> task_frame lay (sp (tcbs k0 i))"
    and "i < CFN_MAX_TSKID \<Longrightarrow> i \<noteq> c \<Longrightarrow> live (tcbs k0 i) \<Longrightarrow>
      saved_at g (sp (tcbs k0 i)) rs x = saved_at (stack_mem k0) (sp (tcbs k0 i)) rs x"
proof -
  let ?g = "stack_mem k0"
  have own: "g (frame_word fp j) = put_frame fp (regs m) (pc m) ?g (frame_word fp j)" if "j < 29" for j
    using S that mem by (simp add: stacks_ok_def task_frame_def frame_word_eq)
  show "saved_at g fp (regs m) (pc m)"
    by (subst saved_at_cong [of _ _ "put_frame fp (regs m) (pc m) ?g"])
      (use own put_frame_saved [of "regs m X_sp" "regs m" "pc m" ?g] in \<open>auto simp: fp_def\<close>)
  assume i: "i < CFN_MAX_TSKID" "i \<noteq> c" "live (tcbs k0 i)"
  have f: "task_frame lay (sp (tcbs k0 i))" and p: "apart_frames fp (sp (tcbs k0 i))"
    using S c i by (auto simp: stacks_ok_def)
  show "task_frame lay (sp (tcbs k0 i))" by (rule f)
  have "put_frame fp (regs m) (pc m) ?g (frame_word (sp (tcbs k0 i)) j) = ?g (frame_word (sp (tcbs k0 i)) j)"
    if "j < 29" for j
    using apart_framesD [OF p] that by (intro put_frame_other) simp
  moreover have "frame_word (sp (tcbs k0 i)) j \<noteq> frame_word fp 29" if "j < 29" for j
    using apart_framesD [OF p] that by simp
  ultimately show "saved_at g (sp (tcbs k0 i)) rs x = saved_at ?g (sp (tcbs k0 i)) rs x"
    using f mem by (intro saved_at_cong) (simp add: task_frame_def)
qed

lemma trap_ends:
  assumes S: "stacks_ok lay (regs m X_sp - 128) k0" and c: "current k0 = Some c" and T: "trap_served lay c m k0 k m2"
  shows "trap_over c m k0 (mret (exec lay (LEAVE_ISR lay @ RESTORE_FRAME) m2))"
proof -
  let ?fp = "regs m X_sp - 128" and ?g = "stack_mem k0" and ?g2 = "stack_mem (kern m2)"
  obtain n where n: "running (kern m2) n" "runnable (tcbs k n)" "regs m2 X_sp = (if n = c then ?fp else sp (tcbs k n))"
      "n \<noteq> c \<longrightarrow> sp (tcbs (kern m2) c) = ?fp" and a: "alive (kern m2)" "\<not> msip (kern m2)"
      and spk: "\<And>i. i \<noteq> c \<Longrightarrow> sp (tcbs (kern m2) i) = sp (tcbs k i)" and lk: "\<And>i. live (tcbs k i) \<Longrightarrow> live (tcbs (kern m2) i)"
    using T by (auto simp: trap_served_def picked_def)
  have k: "i \<noteq> c \<Longrightarrow> sp (tcbs k i) = sp (tcbs k0 i)" "runnable (tcbs k i) \<Longrightarrow> live (tcbs k0 i)" "live (tcbs k0 i) \<Longrightarrow> live (tcbs k i)" for i
    using T unfolding trap_served_def by blast+
  have mem: "?g2 x = put_frame ?fp (regs m) (pc m) ?g x"
    if "\<not> (isr_stack_begin lay \<le> x \<and> x < isr_stack_end lay)" "x \<noteq> frame_word ?fp 29" for x
    using T that by (simp add: trap_served_def)
  note saved = frames_kept(1) [OF S c mem] and others = frames_kept(2,3) [OF S c mem]
  note lt = running_index [OF a(1) n(1)]
  have "frame_clear lay (regs m2 X_sp)"
    using n(2,3) k [of n] others(1) [of n] lt S by (auto simp: stacks_ok_def task_frame_def)
  from leave_trap [OF this] obtain rs x where r: "saved_at ?g2 (regs m2 X_sp) rs x" "rs X_gp = regs m X_gp" "rs X_tp = regs m X_tp"
    and e: "mret (exec lay (LEAVE_ISR lay @ RESTORE_FRAME) m2) = m2\<lparr>regs := rs, mepc := x, pc := x,
      priv := drop_bit 11 (mstatus (kern m2) AND MSTATUS_MPP),
      kern := (leave_isr (kern m2))\<lparr>mstatus := mret_mstatus (mstatus (kern m2))\<rparr>\<rparr>" (is "_ = ?m'")
    using T by (auto simp: trap_served_def)
  have "if n = c then rs = regs m \<and> x = pc m else saved_at ?g (sp (tcbs k0 n)) rs x \<and> saved_at ?g2 (sp (tcbs (kern m2) c)) (regs m) (pc m)"
  proof (cases "n = c")
    case True
    then have "saved_at ?g2 ?fp rs x" using r n(3) by simp
    from saved_at_unique [OF this saved] r(2,3) have "rs q = regs m q" "x = pc m" for q by (cases "q \<in> {X_gp, X_tp}"; auto)+
    then show ?thesis using True by auto
  next
    case False
    then show ?thesis using r n k others(2) [of n] lt saved by auto
  qed
  moreover have "\<And>i rs a. i < CFN_MAX_TSKID \<Longrightarrow> i \<noteq> c \<Longrightarrow> live (tcbs k0 i) \<Longrightarrow> saved_at ?g (sp (tcbs k0 i)) rs a \<Longrightarrow>
      saved_at ?g2 (sp (tcbs (kern m2) i)) rs a"
    using others(2) spk k by simp
  moreover have "\<And>i. live (tcbs k0 i) \<Longrightarrow> live (tcbs (kern m2) i)" using k(3) lk by blast
  ultimately show ?thesis
    unfolding trap_over_def e
    using a n(1) k(2) [OF n(2)] r T mret_mstatus_MIE [of "mstatus (kern m2)"]
    by (auto simp: trap_served_def leave_isr_def running_def)
qed

section \<open>The software trap\<close>

lemma alive_running: "alive s \<Longrightarrow> current s = Some c \<Longrightarrow> \<not> msip s \<Longrightarrow> running s c"
  by (auto simp: alive_def sys_inv_def ginv_def sched_ok_def running_def)

lemma exec_enter:
  assumes "isr_depth_at lay \<noteq> CLINT_MSIP_ADDRESS" and "frame_clear lay (regs m X_sp - 128)"
  shows "exec lay (SAVE_FRAME @ ENTER_ISR lay) (take_trap cause m) = m\<lparr>mepc := pc m, mcause := cause, priv := 3,
    regs := (regs m)(X_t0 := isr_depth_at lay, X_t1 := isr_depth (kern m) + 1, X_s0 := regs m X_sp - 128, X_sp := isr_stack_end lay),
    kern := enter_isr ((kern m)\<lparr>mstatus := trap_mstatus (priv m) (mstatus (kern m)),
      stack_mem := put_frame (regs m X_sp - 128) (regs m) (pc m) (stack_mem (kern m))\<rparr>)\<rparr>"
  using assms by (simp add: exec_SAVE_FRAME exec_ENTER_ISR take_trap_def fun_upd_twist)

lemma mtrap_served:
  assumes S: "stacks_ok lay (regs m X_sp - 128) (kern m)" and a: "alive (kern m)" "msip (kern m)" and c: "current (kern m) = Some c"
    and e: "int_enabled (kern m)" "priv m = 3"
  shows "ok (entry_mtrap_handler lay j (take_trap 0x80000003 m)) (trap_over c m (kern m))"
proof -
  let ?fp = "regs m X_sp - 128"
  let ?k = "enter_isr ((kern m)\<lparr>mstatus := trap_mstatus 3 (mstatus (kern m)),
      stack_mem := put_frame ?fp (regs m) (pc m) (stack_mem (kern m))\<rparr>)"
  define m1 where "m1 = exec lay (SAVE_FRAME @ ENTER_ISR lay @ clear_msip @ [MV X_a0 X_s0]) (take_trap 0x80000003 m)"
  have d: "isr_depth_at lay \<noteq> CLINT_MSIP_ADDRESS" "frame_clear lay ?fp" using S by (simp_all add: stacks_ok_def task_frame_def)
  have m1: "kern m1 = ?k\<lparr>msip := False\<rparr>" "regs m1 X_a0 = ?fp" "regs m1 X_sp = isr_stack_end lay" "mie m1 = mie m"
    "regs m1 X_gp = regs m X_gp" "regs m1 X_tp = regs m X_tp"
    using exec_enter [OF d, of "0x80000003"] d e(2)
    by (simp_all add: m1_def clear_msip_def set_reg_def store_def)
  have "ok (call_schedule lay j m1) (\<lambda>m'. c_keeps lay m1 m' \<and> picked c ?fp ?k (regs m' X_a0) (kern m'))"
    using call_schedule_ok [where k = ?k and m = m1 and c = c] a c m1(1,2) by (simp add: enter_isr_def)
  moreover have "trap_served lay c m (kern m) ?k (exec lay [MV X_sp X_a0] m')"
    if "c_keeps lay m1 m'" "picked c ?fp ?k (regs m' X_a0) (kern m')" for m'
    using that m1 trap_mstatus_bits [OF e(1)]
    by (auto simp: trap_served_def c_keeps_def set_reg_def enter_isr_def)
  ultimately show ?thesis
    unfolding entry_mtrap_handler_def Let_def m1_def [symmetric] ok_bind ok_Some exec_append [of lay "[MV X_sp X_a0]"]
    by (elim ok_mono) (blast intro: trap_ends [OF S c])
qed

section \<open>The timer trap\<close>

lemma timer_handler_keeps:
  assumes "alive s"
  shows "ok (tkmc_timer_handler s) (\<lambda>s'. alive s' \<and> mstatus s' = mstatus s \<and> isr_depth s' = isr_depth s \<and>
    current s' = current s \<and> stack_mem s' = stack_mem s \<and> (\<forall>i. sp (tcbs s' i) = sp (tcbs s i) \<and> (live (tcbs s' i) \<longleftrightarrow> live (tcbs s i))))"
proof -
  obtain Q where R: "rep (links s) Q" and G: "ginv s Q" using assms by (auto simp: alive_def sys_inv_def)
  have K: "kinv s Q" using G by (simp add: ginv_def)
  have c: "clock_ok (mtime s)" using assms by (simp add: alive_def)
  have aged: "sp t' = sp (tcbs s i) \<and> (live t' \<longleftrightarrow> live (tcbs s i))" if "aged p (timed Q i) (tcbs s i) t'" for p i t'
    using that timed_waits(2) [OF R K, of i] by (auto simp: aged_def wake_tcb_def split: if_split_asm)
  have same: "sp (tcbs s' i) = sp (tcbs s i) \<and> (live (tcbs s' i) \<longleftrightarrow> live (tcbs s i))" if D: "timer_done s Q s'" for s' i
  proof -
    obtain n mc s1 where "passed (s_mtimecmp s) s n mc s1" and
      n: "if of_nat n = (0 :: UINT) then s' = s1 else \<forall>k. aged (of_nat n) (timed Q k) (tcbs s k) (tcbs s' k)"
      using D by (auto simp: timer_done_def split: if_split_asm)
    then have "tcbs s1 = tcbs s" by (auto simp: passed_def)
    then show ?thesis using n aged by (auto split: if_split_asm)
  qed
  show ?thesis
    by (rule ok_mono [OF part_ok [OF tkmc_timer_handler_ok [OF R G c] kept.handler [of s "(None, True)"]]])
      (use same assms in \<open>auto simp: alive_def fr_def timer_done_def\<close>)
qed

lemma timer_served:
  assumes S: "stacks_ok lay (regs m X_sp - 128) (kern m)" and a: "alive (kern m)" and c: "current (kern m) = Some c" and e: "int_enabled (kern m)" "priv m = 3"
  shows "ok (entry_timer_interrupt lay j j' (take_trap 0x80000007 m)) (trap_over c m (kern m))"
proof -
  let ?fp = "regs m X_sp - 128"
  let ?k = "enter_isr ((kern m)\<lparr>mstatus := trap_mstatus 3 (mstatus (kern m)),
      stack_mem := put_frame ?fp (regs m) (pc m) (stack_mem (kern m))\<rparr>)"
  define m1 where "m1 = exec lay (SAVE_FRAME @ ENTER_ISR lay) (take_trap 0x80000007 m)"
  have d: "isr_depth_at lay \<noteq> CLINT_MSIP_ADDRESS" "frame_clear lay ?fp" using S by (simp_all add: stacks_ok_def task_frame_def)
  have m1: "kern m1 = ?k" "regs m1 X_s0 = ?fp" "regs m1 X_sp = isr_stack_end lay" "mie m1 = mie m"
    "regs m1 X_gp = regs m X_gp" "regs m1 X_tp = regs m X_tp"
    using exec_enter [OF d, of "0x80000007"] e(2) by (simp_all add: m1_def)
  have served: "ok (serve_switch lay j' m2) (\<lambda>m'. trap_over c m (kern m) (mret (exec lay (LEAVE_ISR lay @ RESTORE_FRAME) m')))"
    if k: "c_keeps lay m1 m2" "alive (kern m2)" "current (kern m2) = Some c"
      "\<And>i. sp (tcbs (kern m2) i) = sp (tcbs (kern m) i) \<and> (live (tcbs (kern m2) i) \<longleftrightarrow> live (tcbs (kern m) i))" for m2
  proof (rule ok_mono [OF serve_switch_ok [OF k(2,3) d(1)]])
    show "running (kern m2) c \<or> msip (kern m2)" using alive_running [OF k(2,3)] by blast
    fix m' assume x: "c_keeps lay m2 (m'\<lparr>regs := (regs m')(X_sp := regs m2 X_sp)\<rparr>) \<and>
      picked c (regs m2 X_s0) (kern m2) (regs m' X_sp) (kern m')"
    have "regs m' X_gp = regs m X_gp" "regs m' X_tp = regs m X_tp" "regs m2 X_s0 = ?fp"
      using c_keeps_regs [OF conjunct1 [OF x]] c_keepsD [OF k(1)] m1 by simp_all
    moreover have "sp (tcbs (kern m2) i) = sp (tcbs (kern m) i) \<and> (runnable (tcbs (kern m2) i) \<longrightarrow> live (tcbs (kern m) i)) \<and>
        (live (tcbs (kern m) i) \<longrightarrow> live (tcbs (kern m2) i))" for i
      using k(4) [of i] by auto
    ultimately have "trap_served lay c m (kern m) (kern m2) m'"
      using x k(1) m1 trap_mstatus_bits(1,2) [OF e(1)] unfolding trap_served_def by (auto simp: c_keeps_def enter_isr_def)
    then show "trap_over c m (kern m) (mret (exec lay (LEAVE_ISR lay @ RESTORE_FRAME) m'))" by (rule trap_ends [OF S c])
  qed
  have "ok (call_void lay j tkmc_timer_handler m1) (\<lambda>m2. c_keeps lay m1 m2 \<and> alive (kern m2) \<and> current (kern m2) = Some c \<and>
      (\<forall>i. sp (tcbs (kern m2) i) = sp (tcbs (kern m) i) \<and> (live (tcbs (kern m2) i) \<longleftrightarrow> live (tcbs (kern m) i))))"
    unfolding call_void_def ok_bind m1(1)
    by (rule ok_mono [OF timer_handler_keeps]) (use a c m1(1) in \<open>auto simp: c_called_def c_keeps_def enter_isr_def\<close>)
  then show ?thesis
    unfolding entry_timer_interrupt_def Let_def m1_def [symmetric] ok_bind ok_Some
    by (elim ok_mono) (use served in blast)
qed

section \<open>The external interrupt\<close>

text \<open>
  The kernel state in which the handler of an external interrupt starts, with the mask of the
  interrupts in the frame when the trap is the outermost one.
\<close>

definition pushed :: "cpu \<Rightarrow> kernel" where
  "pushed m = enter_isr ((kern m)\<lparr>mstatus := trap_mstatus (priv m) (mstatus (kern m)),
     stack_mem := put_frame (regs m X_sp - 128) (regs m) (pc m) (stack_mem (kern m))\<rparr>)"

definition at_handler :: "cpu \<Rightarrow> kernel" where
  "at_handler m = (if isr_depth (kern m) = 0
     then (pushed m)\<lparr>stack_mem := (stack_mem (pushed m))(frame_word (regs m X_sp - 128) 29 := mie m)\<rparr> else pushed m)"

text \<open>
  What the entry relies on of a handler: it leaves the frame that was pushed as it is, returns at
  the depth it was called at, the traps it let in have returned, and MPIE is set, as a trap that is taken with
  interrupts on leaves it and every \<^verbatim>\<open>mret\<close> sets it.
\<close>

definition handler_returns :: "addr \<Rightarrow> kernel \<Rightarrow> kernel \<Rightarrow> bool" where
  "handler_returns fp k kh \<longleftrightarrow> (\<forall>j < 32. stack_mem kh (frame_word fp j) = stack_mem k (frame_word fp j)) \<and>
     isr_depth kh = isr_depth k \<and> mstatus kh AND MSTATUS_MPIE \<noteq> 0"

lemma enter_external:
  assumes d: "isr_depth_at lay \<noteq> CLINT_MSIP_ADDRESS" "frame_clear lay (regs m X_sp - 128)"
  defines "m2 \<equiv> enter_external lay (take_trap 0x8000000B m)"
  shows "kern m2 = at_handler m" "regs m2 X_s0 = regs m X_sp - 128" "regs m2 X_gp = regs m X_gp" "regs m2 X_tp = regs m X_tp"
    "regs m2 X_sp = (if isr_depth (kern m) = 0 then isr_stack_end lay else regs m X_sp - 128)"
    "mie m2 = (if isr_depth (kern m) = 0 then mie m AND NOT MIE_SWITCH else mie m)"
proof -
  let ?m1 = "exec lay (SAVE_FRAME @ [LI X_t0 (isr_depth_at lay), LW X_t1 0 X_t0, ADDI X_t1 X_t1 1, SW X_t1 0 X_t0,
       MV X_s0 X_sp, LI X_t0 1]) (take_trap 0x8000000B m)"
  have m1: "?m1 = m\<lparr>mepc := pc m, mcause := 0x8000000B, priv := 3, kern := pushed m, regs := (regs m)(X_sp := regs m X_sp - 128,
      X_t1 := isr_depth (kern m) + 1, X_s0 := regs m X_sp - 128, X_t0 := 1)\<rparr>"
    using d by (simp add: exec_SAVE_FRAME take_trap_def pushed_def enter_isr_def set_reg_def load_def store_def fun_upd_twist)
  have z: "isr_depth (kern m) + 1 = 1 \<longleftrightarrow> isr_depth (kern m) = 0" by simp
  have "frame_word (regs m X_sp - 128) 29 \<noteq> isr_depth_at lay" "frame_word (regs m X_sp - 128) 29 \<noteq> CLINT_MSIP_ADDRESS"
    using d(2) by (simp_all add: frame_clear_def)
  then show "kern m2 = at_handler m" "regs m2 X_s0 = regs m X_sp - 128" "regs m2 X_gp = regs m X_gp" "regs m2 X_tp = regs m X_tp"
    "regs m2 X_sp = (if isr_depth (kern m) = 0 then isr_stack_end lay else regs m X_sp - 128)"
    "mie m2 = (if isr_depth (kern m) = 0 then mie m AND NOT MIE_SWITCH else mie m)"
    unfolding m2_def enter_external_def Let_def m1 by (auto simp: set_reg_def store_def at_handler_def z)
qed

lemma handler_frame:
  assumes H: "handler_returns (regs m X_sp - 128) (at_handler m) kh"
  shows "saved_at (stack_mem kh) (regs m X_sp - 128) (regs m) (pc m)"
    and "isr_depth (kern m) = 0 \<Longrightarrow> stack_mem kh (frame_word (regs m X_sp - 128) 29) = mie m"
proof -
  let ?fp = "regs m X_sp - 128"
  have g: "stack_mem kh (frame_word ?fp j) = stack_mem (at_handler m) (frame_word ?fp j)" if "j < 32" for j
    using H that by (simp add: handler_returns_def)
  have p: "stack_mem (pushed m) = put_frame ?fp (regs m) (pc m) (stack_mem (kern m))" by (simp add: pushed_def enter_isr_def)
  have "stack_mem kh (frame_word ?fp j) = put_frame ?fp (regs m) (pc m) (stack_mem (kern m)) (frame_word ?fp j)" if "j < 29" for j
    using that by (simp add: g at_handler_def p frame_word_eq)
  from saved_at_cong [of "stack_mem kh" ?fp, OF this] show "saved_at (stack_mem kh) ?fp (regs m) (pc m)"
    using put_frame_saved [of "regs m X_sp" "regs m" "pc m"] by simp
  show "stack_mem kh (frame_word ?fp 29) = mie m" if "isr_depth (kern m) = 0" using that by (simp add: g at_handler_def)
qed

lemma picked_mstatus [simp]: "picked c fp k f (k'\<lparr>mstatus := v\<rparr>) = picked c fp k f k'"
  by (simp add: picked_def running_def)

lemma mask_unmask: "(x AND NOT y) OR (x AND y) = (x :: UW)"
  by (rule bit_word_eqI) (auto simp: bit_simps)

lemma external_trap_served:
  assumes h: "handler (at_handler m) = Some kh" and H: "handler_returns (regs m X_sp - 128) (at_handler m) kh"
    and S: "stacks_ok lay (regs m X_sp - 128) kh" and a: "alive kh" and c: "current kh = Some c" and z: "isr_depth (kern m) = 0"
  shows "ok (entry_external_interrupt lay handler j j' (take_trap 0x8000000B m)) (trap_over c m kh)"
proof -
  let ?fp = "regs m X_sp - 128"
  have d: "isr_depth_at lay \<noteq> CLINT_MSIP_ADDRESS" "frame_clear lay ?fp" and
    off: "\<And>i. i < 32 \<Longrightarrow> \<not> (isr_stack_begin lay \<le> frame_word ?fp i \<and> frame_word ?fp i < isr_stack_end lay)"
    using S by (simp_all add: stacks_ok_def task_frame_def)
  define m2 where "m2 = enter_external lay (take_trap 0x8000000B m)"
  note m2 = enter_external [OF d, folded m2_def]
  define m4 where "m4 = exec lay [LI X_t0 (isr_depth_at lay), LW X_t1 0 X_t0, LI X_t0 1] (c_called lay j kh m2)"
  have kd: "isr_depth kh = 1" "mstatus kh AND MSTATUS_MPIE \<noteq> 0"
    using H z by (simp_all add: handler_returns_def at_handler_def pushed_def enter_isr_def)
  have m4: "kern m4 = kern (c_called lay j kh m2)" "regs m4 X_t1 = regs m4 X_t0" "regs m4 X_s0 = ?fp" "regs m4 X_sp = isr_stack_end lay"
    "regs m4 X_gp = regs m X_gp" "regs m4 X_tp = regs m X_tp" "mie m4 = mie m AND NOT MIE_SWITCH"
    using m2 z kd(1) by (simp_all add: m4_def set_reg_def load_def c_called_def)
  have k4: "alive (kern m4)" "current (kern m4) = Some c" "tcbs (kern m4) = tcbs kh" "mstatus (kern m4) = mstatus kh"
    "isr_depth (kern m4) = 1" "\<And>x. \<not> (isr_stack_begin lay \<le> x \<and> x < isr_stack_end lay) \<Longrightarrow> stack_mem (kern m4) x = stack_mem kh x"
    using a c kd m2(5) z by (auto simp: m4(1) c_called_def)
  have "ok (serve_switch lay j' m4) (\<lambda>m'. trap_over c m kh (mret (exec lay (LEAVE_ISR lay @ RESTORE_FRAME) (exec lay (unmask @ set_mpp) m'))))"
  proof (rule ok_mono [OF serve_switch_ok [OF k4(1,2) d(1)]])
    show "running (kern m4) c \<or> msip (kern m4)" using alive_running [OF k4(1,2)] by blast
    fix m' assume x: "c_keeps lay m4 (m'\<lparr>regs := (regs m')(X_sp := regs m4 X_sp)\<rparr>) \<and> picked c (regs m4 X_s0) (kern m4) (regs m' X_sp) (kern m')"
    note r = c_keeps_regs [OF conjunct1 [OF x]]
    have mem: "stack_mem (kern m') y = stack_mem kh y" if "\<not> (isr_stack_begin lay \<le> y \<and> y < isr_stack_end lay)" for y
      using x k4(6) [OF that] that m4(4) by (auto simp: c_keeps_def)
    have rest: "mie m' = mie m AND NOT MIE_SWITCH" "mstatus (kern m') = mstatus kh" "isr_depth (kern m') = 1"
      using x m4(7) k4(4,5) by (simp_all add: c_keeps_def)
    have "load lay (frame_word ?fp 29) m' = mie m"
      using d(2) mem off [of 29] handler_frame(2) [OF H z] by (simp add: load_def frame_clear_def)
    then have e: "exec lay (unmask @ set_mpp) m' = m'\<lparr>regs := (regs m')(X_t0 := 0x1800), mie := mie m,
        kern := (kern m')\<lparr>mstatus := mstatus kh OR 0x1800\<rparr>\<rparr>"
      using r(3) m4(3) rest by (simp add: unmask_def set_mpp_def set_reg_def mask_unmask)
    have "(mstatus kh OR 0x1800) AND MSTATUS_MPIE \<noteq> 0" "drop_bit 11 ((mstatus kh OR 0x1800) AND MSTATUS_MPP) = 3"
      using kd(2) by (simp_all add: mstatus_bits bit.conj_disj_distrib2)
    then have "trap_served lay c m kh (kern m4) (exec lay (unmask @ set_mpp) m')"
      unfolding e trap_served_def put_frame_same [OF handler_frame(1) [OF H]]
      using x m4 r rest mem k4(3) z by auto
    then show "trap_over c m kh (mret (exec lay (LEAVE_ISR lay @ RESTORE_FRAME) (exec lay (unmask @ set_mpp) m')))"
      by (rule trap_ends [OF S c])
  qed
  then show ?thesis
    using h m4(2) m2(1)
    by (simp add: entry_external_interrupt_def call_void_def m2_def [symmetric] m4_def [symmetric] del: exec.simps)
qed

text \<open>
  A trap inside a handler, on the interrupt stack: the code it interrupted goes on as if nothing
  had happened, in machine mode, and a switch that was asked for stays asked for.
\<close>

definition resumes_handler :: "cpu \<Rightarrow> kernel \<Rightarrow> cpu \<Rightarrow> bool" where
  "resumes_handler m kh m' \<longleftrightarrow> regs m' = regs m \<and> pc m' = pc m \<and> priv m' = 3 \<and> mie m' = mie m \<and> int_enabled (kern m') \<and>
     isr_depth (kern m') = isr_depth (kern m) \<and> msip (kern m') = msip kh \<and> tcbs (kern m') = tcbs kh \<and> current (kern m') = current kh"

lemma frame_above: "unat fp + 128 \<le> 2 ^ 32 \<Longrightarrow> k < 32 \<Longrightarrow> fp \<le> frame_word fp k"
  by (simp add: frame_word_def word_le_nat_alt unat_word_ariths unat_of_nat)

lemma external_nested:
  assumes h: "handler (at_handler m) = Some kh" and H: "handler_returns (regs m X_sp - 128) (at_handler m) kh"
    and d: "isr_depth_at lay \<noteq> CLINT_MSIP_ADDRESS" "frame_clear lay (regs m X_sp - 128)"
    and b: "unat (regs m X_sp - 128) + 128 \<le> 2 ^ 32" and n: "isr_depth (kern m) \<noteq> 0"
  shows "ok (entry_external_interrupt lay handler j j' (take_trap 0x8000000B m)) (resumes_handler m kh)"
proof -
  let ?fp = "regs m X_sp - 128"
  define m2 where "m2 = enter_external lay (take_trap 0x8000000B m)"
  note m2 = enter_external [OF d, folded m2_def]
  define m4 where "m4 = exec lay [LI X_t0 (isr_depth_at lay), LW X_t1 0 X_t0, LI X_t0 1] (c_called lay j kh m2)"
  have kd: "isr_depth kh = isr_depth (kern m) + 1" "mstatus kh AND MSTATUS_MPIE \<noteq> 0"
    using H by (simp_all add: handler_returns_def at_handler_def pushed_def enter_isr_def)
  have m4: "kern m4 = kern (c_called lay j kh m2)" "regs m4 X_t1 \<noteq> regs m4 X_t0" "regs m4 X_s0 = ?fp"
    "regs m4 X_gp = regs m X_gp" "regs m4 X_tp = regs m X_tp" "mie m4 = mie m"
    using m2 n kd(1) by (simp_all add: m4_def set_reg_def load_def c_called_def)
  have k4: "tcbs (kern m4) = tcbs kh" "mstatus (kern m4) = mstatus kh" "isr_depth (kern m4) = isr_depth (kern m) + 1"
    "msip (kern m4) = msip kh" "current (kern m4) = current kh"
    and mem: "\<And>i. i < 32 \<Longrightarrow> stack_mem (kern m4) (frame_word ?fp i) = stack_mem kh (frame_word ?fp i)"
    using kd m2(5) n frame_above [OF b] by (auto simp: m4(1) c_called_def dest: leD)
  define m5 where "m5 = exec lay ([MV X_sp X_s0] @ set_mpp) m4"
  have m5: "m5 = m4\<lparr>regs := (regs m4)(X_sp := ?fp, X_t0 := 0x1800), kern := (kern m4)\<lparr>mstatus := mstatus kh OR 0x1800\<rparr>\<rparr>"
    using m4(3) k4(2) by (simp add: m5_def set_mpp_def set_reg_def)
  have "frame_clear lay (regs m5 X_sp)" using d(2) by (simp add: m5)
  from leave_trap [OF this] obtain rs x where r: "saved_at (stack_mem (kern m4)) ?fp rs x" "rs X_gp = regs m X_gp" "rs X_tp = regs m X_tp"
    and e: "mret (exec lay (LEAVE_ISR lay @ RESTORE_FRAME) m5) = m4\<lparr>regs := rs, kern := (leave_isr (kern m4))\<lparr>mstatus :=
      mret_mstatus (mstatus kh OR 0x1800)\<rparr>, mepc := x, pc := x, priv := drop_bit 11 ((mstatus kh OR 0x1800) AND MSTATUS_MPP)\<rparr>"
    using m4 by (auto simp: m5 leave_isr_def)
  have "saved_at (stack_mem (kern m4)) ?fp (regs m) (pc m)"
    by (subst saved_at_cong [of _ _ "stack_mem kh"]) (use mem handler_frame(1) [OF H] in auto)
  from saved_at_unique [OF r(1) this] r(2,3) have "rs q = regs m q" "x = pc m" for q by (cases "q \<in> {X_gp, X_tp}"; auto)+
  then have "rs = regs m" "x = pc m" by auto
  moreover have "(mstatus kh OR 0x1800) AND MSTATUS_MPIE \<noteq> 0" "drop_bit 11 ((mstatus kh OR 0x1800) AND MSTATUS_MPP) = 3"
    using kd(2) by (simp_all add: mstatus_bits bit.conj_disj_distrib2)
  ultimately have "resumes_handler m kh (mret (exec lay (LEAVE_ISR lay @ RESTORE_FRAME) m5))"
    unfolding e resumes_handler_def using k4 m4(6) mret_mstatus_MIE [of "mstatus kh OR 0x1800"] by (simp add: leave_isr_def)
  then show ?thesis
    using h m4(2) m2(1)
    by (simp add: entry_external_interrupt_def call_void_def m2_def [symmetric] m4_def [symmetric] m5_def del: exec.simps append.simps)
qed

end
