(* ===== verification/TK_Machine.thy ===== *)
theory TK_Machine
  imports TK_Trap
begin

text \<open>
  The machine and the kernel: every trap entry of \<^verbatim>\<open>kernel/asm/rv32/start.S\<close> does to the state of the
  kernel what the steps of the transition system say, and to the registers of the tasks what a task
  switch promises.
\<close>

section \<open>The entries and the steps of the kernel\<close>

text \<open>The state of the kernel without the stack memory and the status word of the processor.\<close>

definition core :: "kernel \<Rightarrow> kernel" where
  "core k = k\<lparr>stack_mem := (\<lambda>_. 0), mstatus := 0\<rparr>"

text \<open>The state of the kernel when the frame of a trap is pushed.\<close>

definition trapped :: "cpu \<Rightarrow> kernel" where
  "trapped m = (kern m)\<lparr>mstatus := trap_mstatus (priv m) (mstatus (kern m)),
     stack_mem := put_frame (regs m X_sp - 128) (regs m) (pc m) (stack_mem (kern m))\<rparr>"

lemma pushed_trapped: "pushed m = enter_isr (trapped m)"
  by (simp add: pushed_def trapped_def)

lemma core_eqD: "core k = core k' \<Longrightarrow> k = k'\<lparr>stack_mem := stack_mem k, mstatus := mstatus k\<rparr>"
  by (drule arg_cong [where f = "\<lambda>x. x\<lparr>stack_mem := stack_mem k, mstatus := mstatus k\<rparr>"]) (simp add: core_def)

lemma core_simps [simp]:
  "core (k\<lparr>stack_mem := g\<rparr>) = core k" "core (k\<lparr>mstatus := v\<rparr>) = core k"
  "core (leave_isr (k\<lparr>stack_mem := g\<rparr>)) = core (leave_isr k)" "core (k\<lparr>stack_mem := g, msip := b\<rparr>) = core (k\<lparr>msip := b\<rparr>)"
  by (simp_all add: core_def leave_isr_def)

lemma schedule_stack_mem:
  "schedule a (s\<lparr>stack_mem := g\<rparr>) = map_option (\<lambda>(f, s). (f, s\<lparr>stack_mem := g\<rparr>)) (schedule a s)"
  by (simp add: schedule_def Let_def split: Option.bind_split)

lemma kern_leave [simp]: "kern (exec lay (LEAVE_ISR lay) m) = leave_isr (kern m)"
  by (simp add: LEAVE_ISR_def set_reg_def load_def store_def leave_isr_def)

lemma kern_restore [simp]: "kern (exec lay RESTORE_FRAME m) = kern m"
proof -
  have "kern (exec lay (map (\<lambda>(r, k). LW r k X_sp) xs) m) = kern m" for xs m
    by (induction xs arbitrary: m) (auto simp: set_reg_def)
  then show ?thesis by (simp add: RESTORE_FRAME_def set_reg_def)
qed

lemma core_mret [simp]: "core (kern (mret m)) = core (kern m)"
  by (simp add: mret_def)

text \<open>The software trap.\<close>

lemma mtrap_refines:
  assumes "isr_depth_at lay \<noteq> CLINT_MSIP_ADDRESS" and "frame_clear lay (regs m X_sp - 128)"
  shows "map_option (core \<circ> kern) (entry_mtrap_handler lay j (take_trap cause m)) =
    map_option (core \<circ> snd) (mtrap_handler (regs m X_sp - 128) (trapped m))"
proof -
  define m1 where "m1 = exec lay (SAVE_FRAME @ ENTER_ISR lay @ clear_msip @ [MV X_a0 X_s0]) (take_trap cause m)"
  have "kern m1 = (enter_isr (trapped m))\<lparr>msip := False\<rparr>" "regs m1 X_a0 = regs m X_sp - 128"
    using exec_enter [OF assms, of cause] assms
    by (simp_all add: m1_def clear_msip_def set_reg_def store_def trapped_def)
  then show ?thesis
    unfolding entry_mtrap_handler_def Let_def m1_def [symmetric] call_schedule_def
    by (cases "schedule (regs m X_sp - 128) ((enter_isr (trapped m))\<lparr>msip := False\<rparr>)")
      (auto simp: mtrap_handler_def c_called_def set_reg_def)
qed

text \<open>The timer trap and the external interrupt share the service of a pending switch.\<close>

lemma serve_refines:
  assumes "isr_depth_at lay \<noteq> CLINT_MSIP_ADDRESS" and "kern m = k\<lparr>stack_mem := g\<rparr>"
  shows "map_option (\<lambda>m. core (leave_isr (kern m))) (serve_switch lay j m) =
    map_option (\<lambda>(f, k). core (leave_isr k)) (serve_msip (regs m X_s0) k)"
proof -
  have "schedule (regs m X_s0) (k\<lparr>stack_mem := g, msip := False\<rparr>) =
      map_option (\<lambda>(f, s). (f, s\<lparr>stack_mem := g\<rparr>)) (schedule (regs m X_s0) (k\<lparr>msip := False\<rparr>))"
    unfolding schedule_stack_mem [symmetric] by (rule arg_cong [where f = "schedule (regs m X_s0)"]) simp
  then show ?thesis
    using assms(2)
    by (cases "schedule (regs m X_s0) (k\<lparr>msip := False\<rparr>)")
      (auto simp: serve_switch_eq [OF assms(1)] serve_msip_def call_schedule_def asked_def c_called_def set_reg_def)
qed

lemma timer_refines:
  assumes d: "isr_depth_at lay \<noteq> CLINT_MSIP_ADDRESS" "frame_clear lay (regs m X_sp - 128)"
  shows "map_option (core \<circ> kern) (entry_timer_interrupt lay j j' (take_trap cause m)) =
    map_option (core \<circ> snd) (timer_interrupt (regs m X_sp - 128) (trapped m))"
proof -
  define m1 where "m1 = exec lay (SAVE_FRAME @ ENTER_ISR lay) (take_trap cause m)"
  have m1: "kern m1 = enter_isr (trapped m)" "regs m1 X_s0 = regs m X_sp - 128"
    using exec_enter [OF d, of cause] by (simp_all add: m1_def trapped_def)
  show ?thesis
  proof (cases "tkmc_timer_handler (enter_isr (trapped m))")
    case (Some k)
    have "map_option (\<lambda>m. core (leave_isr (kern m))) (serve_switch lay j' (c_called lay j k m1)) =
        map_option (\<lambda>(f, k). core (leave_isr k)) (serve_msip (regs m X_sp - 128) k)"
      using serve_refines [OF d(1), where m = "c_called lay j k m1" and k = k] m1(2) by (simp add: c_called_def)
    then show ?thesis
      using Some m1(1)
      unfolding entry_timer_interrupt_def Let_def m1_def [symmetric] call_void_def timer_interrupt_def
      by (simp add: bind_Some_map case_prod_unfold option.map_comp o_def)
  next
    case None
    then show ?thesis
      using m1(1) unfolding entry_timer_interrupt_def Let_def m1_def [symmetric] call_void_def timer_interrupt_def by simp
  qed
qed

lemma external_refines:
  assumes d: "isr_depth_at lay \<noteq> CLINT_MSIP_ADDRESS" "frame_clear lay (regs m X_sp - 128)"
    and h: "handler (at_handler m) = Some kh"
  shows "map_option (core \<circ> kern) (entry_external_interrupt lay handler j j' (take_trap 0x8000000B m)) =
    map_option (core \<circ> snd) (external_exit (regs m X_sp - 128) kh)"
proof -
  define m2 where "m2 = enter_external lay (take_trap 0x8000000B m)"
  note m2 = enter_external [OF d, folded m2_def]
  define m4 where "m4 = exec lay [LI X_t0 (isr_depth_at lay), LW X_t1 0 X_t0, LI X_t0 1] (c_called lay j kh m2)"
  have m4: "\<exists>g. kern m4 = kh\<lparr>stack_mem := g\<rparr>" "regs m4 X_s0 = regs m X_sp - 128" "regs m4 X_t1 = isr_depth kh" "regs m4 X_t0 = 1"
    using m2 by (auto simp: m4_def set_reg_def load_def c_called_def)
  have u: "core (kern (exec lay unmask x)) = core (kern x)" "core (kern (exec lay set_mpp x)) = core (kern x)"
    "kern (exec lay [MV X_sp X_s0] x) = kern x" for x
    by (simp_all add: unmask_def set_mpp_def set_reg_def)
  have l: "core k = core k' \<Longrightarrow> core (leave_isr k) = core (leave_isr k')" for k k'
    by (subst core_eqD [of k k']) (simp_all add: core_def leave_isr_def)
  show ?thesis
  proof (cases "isr_depth kh = 1")
    case True
    obtain g where g: "kern m4 = kh\<lparr>stack_mem := g\<rparr>" using m4(1) by blast
    have "map_option (\<lambda>x. core (leave_isr (kern (exec lay set_mpp (exec lay unmask x))))) (serve_switch lay j' m4) =
        map_option (\<lambda>x. core (leave_isr (kern x))) (serve_switch lay j' m4)"
      by (intro option.map_cong refl l) (simp add: u)
    then show ?thesis
      using serve_refines [OF d(1) g] m4 True h m2(1)
      by (simp add: entry_external_interrupt_def call_void_def m2_def [symmetric] m4_def [symmetric] external_exit_def
          bind_Some_map case_prod_unfold option.map_comp o_def del: exec.simps)
  next
    case False
    have "core (leave_isr (kern (exec lay set_mpp (exec lay [MV X_sp X_s0] m4)))) = core (leave_isr kh)"
      using m4(1) by (intro l) (auto simp: u(2) set_reg_def)
    then show ?thesis
      using m4 False h m2(1)
      by (simp add: entry_external_interrupt_def call_void_def m2_def [symmetric] m4_def [symmetric] external_exit_def del: exec.simps append.simps)
  qed
qed

section \<open>Every trap is a step of the kernel\<close>

lemma reachable_core:
  assumes "reachable im s" and "core k = core s"
  shows "reachable im k"
  using reachable.step [OF assms(1) step.runs [OF order_refl]] core_eqD [OF assms(2)] by simp metis

lemma reachable_refined:
  assumes e: "map_option (core \<circ> kern) x = map_option (core \<circ> snd) y" and y: "ok y P" "\<And>f s'. y = Some (f, s') \<Longrightarrow> reachable im s'"
  shows "ok x (\<lambda>m'. reachable im (kern m'))"
proof -
  obtain f s' where s: "y = Some (f, s')" using y(1) by (auto simp: ok_def)
  then obtain m' where "x = Some m'" "core (kern m') = core s'" using e by auto
  then show ?thesis using reachable_core [OF y(2) [OF s]] by simp
qed

text \<open>What a handler of the application does is a run of the kernel that ends where it began: at the same depth.\<close>

definition handler_runs :: "image \<Rightarrow> (kernel \<Rightarrow> kernel option) \<Rightarrow> bool" where
  "handler_runs im handler \<longleftrightarrow> (\<forall>k. reachable im k \<longrightarrow> ok (handler k) (\<lambda>k'. reachable im k' \<and> isr_depth k' = isr_depth k))"

lemma trapped_reachable: "reachable im (kern m) \<Longrightarrow> reachable im (trapped m)"
  by (erule reachable_core) (simp add: trapped_def)

lemma at_handler_reachable:
  assumes "reachable im (kern m)"
  shows "reachable im (at_handler m)" and "isr_depth (at_handler m) = isr_depth (kern m) + 1"
proof -
  have "reachable im (enter_isr (trapped m))"
    using reachable.step [OF trapped_reachable [OF assms] step.ext_in] by (simp add: external_enter_def)
  then show "reachable im (at_handler m)"
    by (rule reachable_core) (simp add: at_handler_def pushed_trapped)
  show "isr_depth (at_handler m) = isr_depth (kern m) + 1" by (simp add: at_handler_def pushed_trapped trapped_def enter_isr_def)
qed

lemma trap_steps:
  assumes r: "reachable im (kern m)" and h: "handler_runs im handler"
    and d: "isr_depth_at lay \<noteq> CLINT_MSIP_ADDRESS" "frame_clear lay (regs m X_sp - 128)" and n: "isr_depth (kern m) \<noteq> - 1"
  shows "msip (kern m) \<Longrightarrow> \<not> tkmc_in_isr (kern m) \<Longrightarrow>
      ok (entry_mtrap_handler lay j (take_trap cause m)) (\<lambda>m'. reachable im (kern m'))"
    and "\<not> tkmc_in_isr (kern m) \<Longrightarrow> ok (entry_timer_interrupt lay j j' (take_trap cause m)) (\<lambda>m'. reachable im (kern m'))"
    and "ok (entry_external_interrupt lay handler j j' (take_trap 0x8000000B m)) (\<lambda>m'. reachable im (kern m'))"
proof -
  let ?fp = "regs m X_sp - 128"
  note t = trapped_reachable [OF r] and a = reachable_alive [OF trapped_reachable [OF r]]
  have k: "msip (trapped m) = msip (kern m)" "tkmc_in_isr (trapped m) = tkmc_in_isr (kern m)"
    by (simp_all add: trapped_def tkmc_in_isr_def)
  show "ok (entry_mtrap_handler lay j (take_trap cause m)) (\<lambda>m'. reachable im (kern m'))"
    if "msip (kern m)" "\<not> tkmc_in_isr (kern m)"
    by (rule reachable_refined [OF mtrap_refines [OF d] mtrap_handler_alive [OF a]])
      (use that k t in \<open>auto intro: reachable.step step.soft\<close>)
  show "ok (entry_timer_interrupt lay j j' (take_trap cause m)) (\<lambda>m'. reachable im (kern m'))" if "\<not> tkmc_in_isr (kern m)"
    by (rule reachable_refined [OF timer_refines [OF d] timer_interrupt_alive [OF a]])
      (use that k t in \<open>auto intro: reachable.step step.tick\<close>)
  obtain kh where kh: "handler (at_handler m) = Some kh" "reachable im kh" "isr_depth kh = isr_depth (kern m) + 1"
    using h at_handler_reachable [OF r] by (auto simp: handler_runs_def ok_def)
  have "isr_depth (kern m) + 1 \<noteq> 0" using n by (simp add: eq_neg_iff_add_eq_0)
  then have "tkmc_in_isr kh" using kh(3) by (simp add: tkmc_in_isr_def)
  then show "ok (entry_external_interrupt lay handler j j' (take_trap 0x8000000B m)) (\<lambda>m'. reachable im (kern m'))"
    by (intro reachable_refined [OF external_refines [where handler = handler, OF d kh(1)] external_exit_alive [OF reachable_alive [OF kh(2)]]])
      (use kh(2) in \<open>auto intro: reachable.step step.ext_out\<close>)
qed

lemma vector_of_number: "vector_of cause = n \<Longrightarrow> 0 < n \<Longrightarrow> cause = 0x80000000 + of_nat n"
  by (auto simp: vector_of_def split: if_split_asm)

lemma vector_entry:
  assumes "vector_of cause < 16"
  shows "trap_handlers ! vector_of cause = (if vector_of cause = 0 then Sync_exception else if vector_of cause = 3 then Mtrap
    else if vector_of cause = 7 then Timer_interrupt else if vector_of cause = 11 then External_interrupt else Default)"
proof -
  have "\<forall>v \<in> set [0..<16]. trap_handlers ! v = (if v = 0 then Sync_exception else if v = 3 then Mtrap
    else if v = 7 then Timer_interrupt else if v = 11 then External_interrupt else Default)"
    by (simp add: trap_handlers_def upt_conv_Cons)
  then show ?thesis using assms by (auto simp del: upt_rec_numeral)
qed

section \<open>The first entry into a task\<close>

text \<open>The frame of a task that has not run since it was started, and the registers such a task begins with.\<close>

definition first_entry :: "kernel \<Rightarrow> nat \<Rightarrow> UW \<Rightarrow> UW \<Rightarrow> UW \<Rightarrow> UW \<Rightarrow> bool" where
  "first_entry k i ret entry arg0 arg1 \<longleftrightarrow> (let fp = sp (tcbs k i) in
     \<forall>n < FRAME_WORDS. stack_mem k (frame_word fp n) = initial_frame fp ret entry arg0 arg1 (\<lambda>_. 0) (frame_word fp n))"

definition entry_regs :: "addr \<Rightarrow> UW \<Rightarrow> UW \<Rightarrow> UW \<Rightarrow> (reg \<Rightarrow> UW) \<Rightarrow> reg \<Rightarrow> UW" where
  "entry_regs fp ret arg0 arg1 rs = (\<lambda>_. 0xdeadbeef)(X_ra := ret, X_a0 := arg0, X_a1 := arg1, X_sp := fp + FRAME_SIZE,
     X_gp := rs X_gp, X_tp := rs X_tp)"

lemma initial_frame_words:
  "initial_frame fp ret entry arg0 arg1 m (frame_word fp 0) = ret"
  "initial_frame fp ret entry arg0 arg1 m (frame_word fp 28) = entry"
  "initial_frame fp ret entry arg0 arg1 m (frame_word fp 6) = arg0"
  "initial_frame fp ret entry arg0 arg1 m (frame_word fp 7) = arg1"
  "k < FRAME_WORDS \<Longrightarrow> k \<notin> {0, 6, 7, 28} \<Longrightarrow> initial_frame fp ret entry arg0 arg1 m (frame_word fp k) = 0xdeadbeef"
  "(\<And>k. k < FRAME_WORDS \<Longrightarrow> a \<noteq> frame_word fp k) \<Longrightarrow> initial_frame fp ret entry arg0 arg1 m a = m a"
  by (auto simp: initial_frame_def FRAME_WORDS_def frame_word_eq fill_frame_word fill_frame_other simp del: frame_word_0)

lemma initial_frame_anywhere:
  assumes "k < FRAME_WORDS"
  shows "initial_frame fp ret entry arg0 arg1 m (frame_word fp k) = initial_frame fp ret entry arg0 arg1 m' (frame_word fp k)"
  using assms by (cases "k \<in> {0, 6, 7, 28}") (auto simp: initial_frame_words simp del: frame_word_0)

lemma initial_frame_saved: "saved_at (initial_frame fp ret entry arg0 arg1 m) fp (entry_regs fp ret arg0 arg1 rs) entry"
proof -
  have "initial_frame fp ret entry arg0 arg1 m (frame_word fp k) = entry_regs fp ret arg0 arg1 rs r" if "(r, k) \<in> set slots" for r k
    using that by (auto simp: slots_def frame_regs_def upt_conv_Cons initial_frame_words entry_regs_def FRAME_WORDS_def
        simp del: frame_word_0 simp flip: One_nat_def)
  then show ?thesis by (auto simp: saved_at_def initial_frame_words entry_regs_def FRAME_SIZE_def)
qed

lemma first_entry_saved:
  assumes "first_entry k i ret entry arg0 arg1"
  shows "saved_at (stack_mem k) (sp (tcbs k i)) (entry_regs (sp (tcbs k i)) ret arg0 arg1 rs) entry"
  by (subst saved_at_cong [of _ _ "initial_frame (sp (tcbs k i)) ret entry arg0 arg1 (\<lambda>_. 0)"])
    (use assms initial_frame_saved in \<open>auto simp: first_entry_def FRAME_WORDS_def Let_def\<close>)

lemma tk_sta_tsk_first_entry:
  assumes "sta_tsk_result objid stacd s (Return E_OK) s'" and "i = nat (objid - 1)"
  shows "first_entry s' i (ext_entry s) (task (tcbs s i)) (word_of_int stacd) (exinf (tcbs s i))"
  using assms initial_frame_anywhere
  by (auto simp: sta_tsk_result_def Let_def first_entry_def start_frame_def started_tcb_def er_defs split: if_split_asm)

lemma launch_task_enters:
  assumes c: "frame_clear lay (sp (tcbs (kern m) i))" and s: "saved_at (stack_mem (kern m)) (sp (tcbs (kern m) i)) rs a"
  shows "launch_task lay i m = m\<lparr>regs := rs(X_gp := regs m X_gp, X_tp := regs m X_tp, X_a3 := a), pc := a\<rparr>"
proof -
  let ?fp = "sp (tcbs (kern m) i)"
  let ?m = "set_reg X_sp ?fp m" and ?rs = "rs(X_sp := ?fp, X_gp := regs m X_gp, X_tp := regs m X_tp)"
  have ld: "load lay (frame_word ?fp k) m' = stack_mem (kern m') (frame_word ?fp k)" if "k < 32" for k m'
    using c that by (simp add: load_def frame_clear_def)
  have "(case map_of (rev slots) r of Some k \<Rightarrow> load lay (frame_word ?fp k) ?m | None \<Rightarrow> regs ?m r) = ?rs r" for r
  proof (cases "map_of (rev slots) r")
    case None
    then have "r \<in> {X_sp, X_gp, X_tp}" using slots_props(4) by (auto simp: map_of_eq_None_iff)
    then show ?thesis using None by (auto simp: set_reg_def)
  next
    case (Some k)
    then have k: "(r, k) \<in> set slots" by (auto dest: map_of_SomeD)
    then have "k \<in> snd ` set slots" "r \<in> fst ` set slots" by (simp_all add: rev_image_eqI)
    then have "k < 28" "r \<notin> {X_sp, X_gp, X_tp}" unfolding slots_props(3,4) by simp_all
    then show ?thesis using Some k s by (auto simp: ld set_reg_def saved_at_def)
  qed
  then have f: "(\<lambda>r. case map_of (rev slots) r of Some k \<Rightarrow> load lay (frame_word ?fp k) ?m | None \<Rightarrow> regs ?m r) = ?rs" by (rule ext)
  have "X_sp \<notin> fst ` set (rev slots)" "distinct (map fst (rev slots))" using slots_props(1,4) by (simp_all flip: rev_map)
  moreover have "regs ?m X_sp = ?fp" by (simp add: set_reg_def)
  ultimately have "exec lay (map (\<lambda>(r, k). LW r k X_sp) (rev slots)) ?m = ?m\<lparr>regs := ?rs\<rparr>"
    using exec_loads [of "rev slots" lay ?m] f by (simp only: simp_thms not_False_eq_True)
  then show ?thesis
    using s unfolding launch_task_def Let_def exec_append by (simp add: ld set_reg_def saved_at_def fun_eq_iff)
qed

text \<open>The two tasks of the boot wait with their first frames, on stacks that do not overlap.\<close>

abbreviation boot_frame :: "addr \<Rightarrow> addr" where
  "boot_frame stack \<equiv> stack + word_of_int STACK_BYTES - FRAME_SIZE"

lemma boot_first_entries:
  assumes b: "boot_ok im s'" "stack_mem s' = boot_stacks im a0 s" and a: "apart_frames (boot_frame (ini_tsk_stack im)) (boot_frame (idl_tsk_stack im))"
  shows "sp (tcbs s' 0) = boot_frame (ini_tsk_stack im)" "sp (tcbs s' 1) = boot_frame (idl_tsk_stack im)"
    "first_entry s' 0 (ext_entry s) (ini_entry im) (word_of_int a0) NULL" "first_entry s' 1 (ext_entry s) (idl_entry im) (word_of_int a0) NULL"
proof -
  show sp: "sp (tcbs s' 0) = boot_frame (ini_tsk_stack im)" "sp (tcbs s' 1) = boot_frame (idl_tsk_stack im)"
    using b(1) by (simp_all add: boot_ok_def started_tcb_def new_tcb_def ini_ctsk_def idl_ctsk_def Let_def del: One_nat_def)
  have "first_frame (idl_ctsk im) a0 x g (frame_word (boot_frame (ini_tsk_stack im)) n) = g (frame_word (boot_frame (ini_tsk_stack im)) n)"
    if "n < FRAME_WORDS" for x g n
    unfolding first_frame_def
    by (rule initial_frame_words(6)) (use a that in \<open>auto simp: apart_frames_def idl_ctsk_def FRAME_WORDS_def\<close>)
  then show "first_entry s' 0 (ext_entry s) (ini_entry im) (word_of_int a0) NULL"
    unfolding first_entry_def sp Let_def b(2) boot_stacks_def
    by (auto simp: first_frame_def ini_ctsk_def intro: initial_frame_anywhere)
  show "first_entry s' 1 (ext_entry s) (idl_entry im) (word_of_int a0) NULL"
    unfolding first_entry_def sp Let_def b(2) boot_stacks_def
    by (auto simp: first_frame_def idl_ctsk_def intro: initial_frame_anywhere)
qed

section \<open>A machine to apply the theorems to\<close>

lemma unat_frame_word: "k < 32 \<Longrightarrow> unat fp + 128 \<le> 2 ^ 32 \<Longrightarrow> unat (frame_word fp k) = unat fp + 4 * k"
  by (simp add: frame_word_def unat_word_ariths unat_of_nat)

lemma apart_framesI:
  assumes "unat fp + 128 \<le> unat fq" and "unat fq + 128 \<le> 2 ^ 32"
  shows "apart_frames fp fq"
proof -
  have "unat (frame_word fp j) < unat (frame_word fq k)" if "j < 32" "k < 32" for j k
    using assms that by (simp add: unat_frame_word)
  then show ?thesis by (metis apart_frames_def less_irrefl)
qed

definition sample_layout :: layout where
  "sample_layout = \<lparr>isr_depth_at = 0x80000F00, isr_stack_begin = 0x80001000, isr_stack_end = 0x80002000,
     boot_stack_end = 0x80003000, global_pointer = 0x80000800\<rparr>"

definition sample_cpu :: "kernel \<Rightarrow> cpu" where
  "sample_cpu k = \<lparr>regs = (\<lambda>_. 0)(X_sp := 0x80010180), pc = 0x80000104, priv = 3, mepc = 0, mcause = 0, mtval = 0, mie = 0x888,
     last_trap = (0, 0, 0), kern = k\<rparr>"

lemma sample_task_frame:
  assumes "0x80010000 \<le> unat fp" and "unat fp + 128 \<le> 2 ^ 32"
  shows "task_frame sample_layout fp"
proof -
  have "frame_word fp k \<noteq> 0x80000F00 \<and> frame_word fp k \<noteq> 0x2000000 \<and> \<not> frame_word fp k < 0x80002000" if "k < 32" for k
  proof -
    have "0x80010000 \<le> frame_word fp k" using assms that by (simp add: word_le_nat_alt unat_frame_word)
    then show ?thesis using order_trans [of "0x80002000" "0x80010000" "frame_word fp k"] by auto
  qed
  then show ?thesis by (simp add: task_frame_def frame_clear_def sample_layout_def address_defs)
qed

lemma sample_stacks_boot: "stacks_ok sample_layout 0x80010100 sample_boot"
proof -
  have f: "task_frame sample_layout 0x80010100" "task_frame sample_layout 0x80010380" "apart_frames 0x80010100 0x80010380"
    by (rule sample_task_frame apart_framesI; simp)+
  have s: "sp (tcbs sample_boot 1) = 0x80010380" 
    using sample_start(2) by (simp add: boot_ok_def started_tcb_def new_tcb_def idl_ctsk_def sample_image_def
        STACK_BYTES_def FRAME_SIZE_def Let_def)
  have "i = 1" if "i < CFN_MAX_TSKID" "current sample_boot \<noteq> Some i" "live (tcbs sample_boot i)" for i
  proof -
    have "\<not> 1 < i" using that sample_start(2) by (auto simp: boot_ok_def)
    then show ?thesis using that sample_boot_inv(3) by (cases i) auto
  qed
  then show ?thesis using f s by (auto simp: stacks_ok_def sample_layout_def address_defs)
qed

lemma sample_ended_stacks:
  "stacks_ok sample_layout 0x80010100 sample_ended" "mstatus sample_ended = 0x1808" "isr_depth sample_ended = 0"
  "stack_mem sample_ended = stack_mem sample_boot" "reachable sample_image sample_ended"
  and sample_ended_tcbs: "tcbs sample_ended = (tcbs sample_boot)(0 := (tcbs sample_boot 0)\<lparr>tskstat := TTS_DMT, tskwait := TTW_NONE\<rparr>)"
proof -
  have c: "ok (tk_ext_tsk sample_boot) (\<lambda>(r, s'). sys_inv s' \<and> (r \<noteq> Halt \<longrightarrow> mstatus s' = mstatus sample_boot))"
    using tk_ext_tsk_call_ok [OF sample_boot_inv(1,7)] by (simp add: call_ok_def)
  obtain r where e: "tk_ext_tsk sample_boot = Some (r, sample_ended)" "mstatus sample_ended = mstatus sample_boot" "r = Block"
      and x: "tcbs sample_ended = (tcbs sample_boot)(0 := (tcbs sample_boot 0)\<lparr>tskstat := TTS_DMT, tskwait := TTW_NONE\<rparr>)"
      "current sample_ended = Some 0" "isr_depth sample_ended = 0" "stack_mem sample_ended = stack_mem sample_boot"
    using after_ok [OF part_ok [OF c exit_effect(1)]] sample_boot_tasks(2) sample_boot_inv(3,4)
    by (auto simp: sample_ended_def exit_result_def)
  show "mstatus sample_ended = 0x1808" "isr_depth sample_ended = 0" "stack_mem sample_ended = stack_mem sample_boot"
    using e x sample_start(4) by simp_all
  show "tcbs sample_ended = (tcbs sample_boot)(0 := (tcbs sample_boot 0)\<lparr>tskstat := TTS_DMT, tskwait := TTW_NONE\<rparr>)" by (fact x(1))
  show "stacks_ok sample_layout 0x80010100 sample_ended"
    using sample_stacks_boot sample_boot_inv(3) x by (auto simp: stacks_ok_def)
  have "perform Ext_tsk sample_boot = Some (Block, sample_ended)" using e by (simp add: void_def)
  then show "reachable sample_image sample_ended"
    using sample_boot_tasks(1) by (intro reachable.step [OF sample_reachable] step.call [of Ext_tsk]) auto
qed

lemma sample_ended_live:
  assumes "i < CFN_MAX_TSKID"
  shows "live (tcbs sample_ended i) \<longleftrightarrow> i = 1"
proof -
  have "1 < i \<Longrightarrow> tskstat (tcbs sample_boot i) = TTS_NOEXS" using assms sample_start(2) by (simp add: boot_ok_def)
  moreover have "tskstat (tcbs sample_boot 1) = TTS_RDY" using sample_start(2) by (simp add: boot_ok_def started_tcb_def)
  moreover have "i = 0 \<or> i = 1 \<or> 1 < i" by auto
  ultimately show ?thesis using sample_ended(4) sample_ended_tcbs by auto
qed

lemma sample_first_entry: "first_entry sample_ended 1 0x80000300 0x80000200 0 0" "sp (tcbs sample_ended 1) = 0x80010380"
proof -
  have "stack_mem sample_boot = boot_stacks sample_image 0 sample_reset"
    using tkmc_start_boots [OF sample_hyps, of 0 sample_intctl] sample_start(1) by simp
  moreover have "apart_frames (boot_frame (ini_tsk_stack sample_image)) (boot_frame (idl_tsk_stack sample_image))"
    by (rule apart_framesI) (simp_all add: sample_image_def STACK_BYTES_def FRAME_SIZE_def)
  moreover have "ext_entry sample_reset = 0x80000300" "idl_entry sample_image = 0x80000200" "boot_frame (idl_tsk_stack sample_image) = 0x80010380"
    by (simp_all add: sample_reset_def sample_image_def STACK_BYTES_def FRAME_SIZE_def)
  ultimately have "first_entry sample_boot 1 0x80000300 0x80000200 0 0" "sp (tcbs sample_boot 1) = 0x80010380"
    using boot_first_entries [OF sample_start(2), of 0 sample_reset] by (simp_all del: One_nat_def)
  then show "first_entry sample_ended 1 0x80000300 0x80000200 0 0" "sp (tcbs sample_ended 1) = 0x80010380"
    using sample_ended_stacks(4) sample_ended_tcbs by (simp_all add: first_entry_def)
qed

section \<open>The properties of the machine\<close>

text \<open>
  C5: the trap entries implement the kernel. Whatever trap the processor takes, through the vector
  table, the frame, the interrupt stack, the calls into C and the return, the state of the kernel
  afterwards is one that the transition system of the kernel reaches, so that all its invariants
  hold again; only an exception, or an interrupt at vector 0, stops the system. The handlers of the
  application are any runs of the kernel that end at the depth they began at.
\<close>

theorem traps_are_steps:
  assumes "reachable im (kern m)" and "handler_runs im handler" and "isr_depth_at lay \<noteq> CLINT_MSIP_ADDRESS"
    and "frame_clear lay (regs m X_sp - 128)" and "isr_depth (kern m) \<noteq> - 1" and "vector_of cause < length trap_handlers"
    and "vector_of cause = 3 \<Longrightarrow> msip (kern m)" and "vector_of cause \<in> {3, 7} \<Longrightarrow> \<not> tkmc_in_isr (kern m)"
  shows "ok (trap lay handler j j' cause m) (\<lambda>(r, m'). reachable im (kern m') \<and> r = (if vector_of cause = 0 then Halt else Return ()))"
proof -
  note t = trap_steps [OF assms(1-5)]
  have n: "vector_of cause < 16" using assms(6) by (simp add: trap_handlers_def)
  have k: "reachable im (kern (mret (take_trap cause m)))"
    by (rule reachable_core [OF assms(1)]) (simp add: take_trap_def)
  obtain mx where "sync_exception_handler lay (take_trap cause m) = (Halt, mx)" "core (kern mx) = core (kern m)"
    by (simp add: sync_exception_handler_def tkmc_fatal_trap_def Let_def set_reg_def take_trap_def)
  with reachable_core [OF assms(1)] have "sync_exception_handler lay (take_trap cause m) = (Halt, mx)" "reachable im (kern mx)" by auto
  then show ?thesis
    using n k t assms(7,8) vector_of_number [of cause 11]
    unfolding trap_def Let_def vector_entry [OF n]
    by (auto simp: trap_handlers_def intro!: ok_mono [OF t(1)] ok_mono [OF t(2)] ok_mono [OF t(3)])
qed

definition sample_handler :: "kernel \<Rightarrow> kernel option" where
  "sample_handler k = map_option snd (tk_sig_sem 1 1 k)"

lemma sample_handler: "handler_runs im sample_handler"
proof -
  have "ok (sample_handler k) (\<lambda>k'. reachable im k' \<and> isr_depth k' = isr_depth k)" if r: "reachable im k" for k
  proof -
    have I: "sys_inv k" using reachable_alive [OF r] by (simp add: alive_def)
    have "part (tk_sig_sem 1 1 k) (\<lambda>(r, k'). fr (None, True) k k')" by (rule framed_fr [OF framed_object(2)])
    from part_ok [OF tk_sig_sem_ok [OF I] this] obtain e k' where k: "tk_sig_sem 1 1 k = Some (Return e, k')" "fr (None, True) k k'"
      by (auto simp: ok_def sig_sem_result_def Let_def split: if_split_asm)
    then have "perform (Sig_sem 1 1) k = Some (Return (), k')" by (simp add: void_def)
    then have "reachable im k'" by (intro reachable.step [OF r] step.call [of "Sig_sem 1 1"]) auto
    then show ?thesis using k by (simp add: sample_handler_def fr_def)
  qed
  then show ?thesis by (simp add: handler_runs_def)
qed

theorem traps_are_steps_witness:
  "\<forall>j j'. ok (trap sample_layout sample_handler j j' 0x80000003 (sample_cpu sample_ended))
     (\<lambda>(r, m'). reachable sample_image (kern m') \<and> r = Return ()) \<and>
   ok (trap sample_layout sample_handler j j' 0x8000000B (sample_cpu sample_ended))
     (\<lambda>(r, m'). reachable sample_image (kern m') \<and> r = Return ()) \<and>
   ok (trap sample_layout sample_handler j j' 2 (sample_cpu sample_ended)) (\<lambda>(r, m'). reachable sample_image (kern m') \<and> r = Halt)"
proof -
  have f: "isr_depth_at sample_layout \<noteq> CLINT_MSIP_ADDRESS" "frame_clear sample_layout 0x80010100"
    using sample_ended_stacks(1) by (simp_all add: stacks_ok_def task_frame_def)
  then have "ok (trap sample_layout sample_handler j j' cause (sample_cpu sample_ended)) (\<lambda>(r, m'). reachable sample_image (kern m') \<and>
      r = (if vector_of cause = 0 then Halt else Return ()))" if "vector_of cause < 16" for j j' cause
    using that sample_ended(2) sample_ended_stacks(3,5) sample_handler
    by (intro traps_are_steps) (simp_all add: sample_cpu_def trap_handlers_def tkmc_in_isr_def)
  from this [of "0x80000003"] this [of "0x8000000B"] this [of 2] show ?thesis by (simp add: vector_of_def)
qed

text \<open>
  A software or timer trap: when it is over some task runs in machine mode with interrupts on, the
  interrupt mask and the nesting depth as before, the interrupted task with its registers or another
  one with those saved for it.
\<close>

lemma interrupts_served:
  assumes "stacks_ok lay (regs m X_sp - 128) (kern m)" and "alive (kern m)" and "current (kern m) = Some c"
    and "int_enabled (kern m)" and "priv m = 3" and "cause = 0x80000003 \<and> msip (kern m) \<or> cause = 0x80000007"
  shows "ok (trap lay handler j j' cause m) (\<lambda>(r, m'). r = Return () \<and> trap_over c m (kern m) m')"
  using assms(6)
proof (elim disjE conjE)
  assume "cause = 0x80000003" "msip (kern m)"
  then show ?thesis using mtrap_served [OF assms(1,2) _ assms(3-5)] by (simp add: trap_def vector_of_def trap_handlers_def)
next
  assume "cause = 0x80000007"
  then show ?thesis using timer_served [OF assms(1-5)] by (simp add: trap_def vector_of_def trap_handlers_def)
qed

text \<open>
  C22: an external interrupt. The handler starts with the frame of the interrupted code pushed and, in
  the outermost trap, the interrupt mask kept in that frame. At the end of the outermost trap the mask
  is what it was and some task goes on in machine mode with interrupts on, with its own registers. An
  interrupt that was taken inside a handler resumes that handler, with all its registers, in machine
  mode, and leaves a switch that was asked for to the outermost one. Of the handler this takes that it
  leaves the frame as it is and returns at the depth it was called at and with the bit of mstatus that
  holds the interrupted mask (MPIE) set, as it was when the interrupt was taken.
\<close>

theorem external_trap_resumes:
  assumes "handler (at_handler m) = Some kh" and "handler_returns (regs m X_sp - 128) (at_handler m) kh"
    and "if isr_depth (kern m) = 0 then stacks_ok lay (regs m X_sp - 128) kh \<and> alive kh \<and> current kh = Some c
      else isr_depth_at lay \<noteq> CLINT_MSIP_ADDRESS \<and> frame_clear lay (regs m X_sp - 128) \<and> unat (regs m X_sp - 128) + 128 \<le> 2 ^ 32"
  shows "ok (trap lay handler j j' 0x8000000B m) (\<lambda>(r, m'). r = Return () \<and>
    (if isr_depth (kern m) = 0 then trap_over c m kh m' else resumes_handler m kh m'))"
proof (cases "isr_depth (kern m) = 0")
  case True
  then show ?thesis
    using external_trap_served [where handler = handler, OF assms(1,2)] assms(3) by (simp add: trap_def vector_of_def trap_handlers_def)
next
  case False
  then show ?thesis
    using external_nested [where handler = handler, OF assms(1,2)] assms(3) by (simp add: trap_def vector_of_def trap_handlers_def)
qed

theorem external_trap_resumes_witness:
  "\<forall>j j'. ok (trap sample_layout Some j j' 0x8000000B (sample_cpu sample_ended))
     (\<lambda>(r, m'). r = Return () \<and> trap_over 0 (sample_cpu sample_ended) (at_handler (sample_cpu sample_ended)) m') \<and>
   ok (trap sample_layout Some j j' 0x8000000B (sample_cpu (enter_isr sample_boot)))
     (\<lambda>(r, m'). r = Return () \<and>
       resumes_handler (sample_cpu (enter_isr sample_boot)) (at_handler (sample_cpu (enter_isr sample_boot))) m')"
proof (intro allI conjI)
  fix j j'
  have h: "handler_returns fp (at_handler (sample_cpu k)) (at_handler (sample_cpu k))" if "mstatus k = 0x1808" for fp k
    using that by (simp add: handler_returns_def at_handler_def pushed_def enter_isr_def sample_cpu_def trap_mstatus_def mstatus_bits)
  have s: "regs (sample_cpu k) X_sp - 128 = 0x80010100" "kern (sample_cpu k) = k" for k by (simp_all add: sample_cpu_def)
  have a: "stacks_ok sample_layout 0x80010100 (at_handler (sample_cpu sample_ended))"
    "alive (at_handler (sample_cpu sample_ended))" "current (at_handler (sample_cpu sample_ended)) = Some 0"
    using sample_ended sample_ended_stacks(1)
    by (simp_all add: at_handler_def pushed_trapped trapped_def stacks_ok_def s enter_isr_def)
  show "ok (trap sample_layout Some j j' 0x8000000B (sample_cpu sample_ended))
     (\<lambda>(r, m'). r = Return () \<and> trap_over 0 (sample_cpu sample_ended) (at_handler (sample_cpu sample_ended)) m')"
    using external_trap_resumes [of Some "sample_cpu sample_ended" "at_handler (sample_cpu sample_ended)" sample_layout 0 j j']
      h sample_ended_stacks(2,3) a unfolding s by simp
  have "frame_clear sample_layout 0x80010100" using sample_stacks_boot by (simp add: stacks_ok_def task_frame_def)
  then show "ok (trap sample_layout Some j j' 0x8000000B (sample_cpu (enter_isr sample_boot)))
     (\<lambda>(r, m'). r = Return () \<and>
       resumes_handler (sample_cpu (enter_isr sample_boot)) (at_handler (sample_cpu (enter_isr sample_boot))) m')"
    using external_trap_resumes [of Some "sample_cpu (enter_isr sample_boot)" "at_handler (sample_cpu (enter_isr sample_boot))" sample_layout 0 j j']
      h [of "enter_isr sample_boot"] sample_start(4) sample_boot_inv(4) sample_stacks_boot
    unfolding s by (simp add: enter_isr_def stacks_ok_def)
qed

text \<open>
  C21: from reset to the first instruction of the initial task. With stacks that can hold a frame and
  do not overlap, and a clock that runs, the reset code gets to the entry of the initial task, with
  the argument of the boot loader in the first argument register, \<^verbatim>\<open>tk_ext_tsk\<close> as return address, the
  stack pointer at the end of its stack, and the interrupts of the timer, the software trap and the
  interrupt controller on; the idle task waits with its first frame.
\<close>

theorem boot_enters_initial_task:
  assumes "valid_ctsk (ini_ctsk im)" and "valid_ctsk (idl_ctsk im)" and "\<not> msip (kern m)" and "clock_ok (mtime (kern m))"
    and "apart_frames (boot_frame (ini_tsk_stack im)) (boot_frame (idl_tsk_stack im))" and "frame_clear lay (boot_frame (ini_tsk_stack im))"
  shows "ok (start_entry lay im j ic m) (\<lambda>(r, m', ic'). r = Return () \<and> boot_ok im (kern m') \<and> pc m' = ini_entry im \<and>
    regs m' = (entry_regs (boot_frame (ini_tsk_stack im)) (ext_entry (kern m)) (regs m X_a0) NULL
      ((regs m)(X_gp := global_pointer lay)))(X_a3 := ini_entry im) \<and>
    int_enabled (kern m') \<and> mie m' = mie m OR 0x888 \<and> ic' = tkmc_init_intctl ic \<and>
    first_entry (kern m') 1 (ext_entry (kern m)) (idl_entry im) (regs m X_a0) NULL)"
proof -
  let ?f = "boot_frame (ini_tsk_stack im)" and ?a = "regs m X_a0"
  have enters: "launch_task lay 0 (m1\<lparr>kern := s'\<rparr>) = m1\<lparr>kern := s', regs := (entry_regs ?f (ext_entry (kern m)) ?a NULL (regs m1))(X_a3 := ini_entry im),
      pc := ini_entry im\<rparr>" "first_entry s' 1 (ext_entry (kern m)) (idl_entry im) ?a NULL" "current s' = Some 0"
    if b: "boot_ok im s'" "stack_mem s' = boot_stacks im (sint ?a) (kern m)" for s' and m1 :: cpu
  proof -
    note f = boot_first_entries [OF b assms(5)]
    have "launch_task lay 0 (m1\<lparr>kern := s'\<rparr>) = m1\<lparr>kern := s', regs := (entry_regs ?f (ext_entry (kern m)) ?a NULL (regs m1))
        (X_gp := regs m1 X_gp, X_tp := regs m1 X_tp, X_a3 := ini_entry im), pc := ini_entry im\<rparr>"
      using launch_task_enters [of lay "m1\<lparr>kern := s'\<rparr>" 0] first_entry_saved [OF f(3), of "regs m1"] assms(6) f(1) by simp
    then show "launch_task lay 0 (m1\<lparr>kern := s'\<rparr>) = m1\<lparr>kern := s', regs := (entry_regs ?f (ext_entry (kern m)) ?a NULL (regs m1))(X_a3 := ini_entry im),
      pc := ini_entry im\<rparr>" by (simp add: entry_regs_def fun_upd_twist)
    show "first_entry s' 1 (ext_entry (kern m)) (idl_entry im) ?a NULL" "current s' = Some 0"
      using f(4) b(1) by (simp_all add: boot_ok_def running_def)
  qed
  define m1 where "m1 = exec lay [LI X_t0 0x888, CSRS_mie X_t0, LI X_sp (boot_stack_end lay)] (set_reg X_gp (global_pointer lay) m)"
  have m1: "kern m1 = kern m" "regs m1 X_a0 = ?a" "mie m1 = mie m OR 0x888" "regs m1 X_gp = global_pointer lay" "regs m1 X_tp = regs m X_tp"
    by (simp_all add: m1_def set_reg_def)
  define m2 where "m2 = m1\<lparr>regs := (\<lambda>r. if callee_saved r then regs m1 r else fst j r)\<rparr>"
  have m2: "m1\<lparr>regs := (\<lambda>r. if callee_saved r then regs m1 r else fst j r), kern := k\<rparr> = m2\<lparr>kern := k\<rparr>" for k by (simp add: m2_def)
  have g: "regs m2 X_gp = global_pointer lay" "regs m2 X_tp = regs m X_tp" "mie m2 = mie m OR 0x888" using m1 by (simp_all add: m2_def)
  have e: "entry_regs f x y z (regs m2) = entry_regs f x y z ((regs m)(X_gp := global_pointer lay))" for f x y z
    using g by (simp add: entry_regs_def)
  show ?thesis
    unfolding start_entry_def Let_def m1_def [symmetric] ok_bind m1(1,2)
  proof (rule ok_mono [OF tkmc_start_boots [OF assms(1-4)]], clarify, goal_cases)
    case (1 r k ic')
    from enters(1) [OF 1(1,4), of m2] enters(2,3) [OF 1(1,4)] 1(1,3) show ?case by (simp add: m2 e g case_unit_Unity MSTATUS_MIE_def)
  qed
qed

theorem boot_enters_initial_task_witness:
  "\<forall>j. ok (start_entry sample_layout sample_image j sample_intctl (sample_cpu sample_reset))
     (\<lambda>(r, m', ic'). r = Return () \<and> pc m' = 0x80000100 \<and> regs m' X_sp = 0x80010200 \<and> int_enabled (kern m'))"
proof
  fix j
  have f: "apart_frames 0x80010180 0x80010380" "task_frame sample_layout 0x80010180" by (rule sample_task_frame apart_framesI; simp)+
  have k: "kern (sample_cpu sample_reset) = sample_reset" by (simp add: sample_cpu_def)
  show "ok (start_entry sample_layout sample_image j sample_intctl (sample_cpu sample_reset))
     (\<lambda>(r, m', ic'). r = Return () \<and> pc m' = 0x80000100 \<and> regs m' X_sp = 0x80010200 \<and> int_enabled (kern m'))"
    by (rule ok_mono [OF boot_enters_initial_task [where m = "sample_cpu sample_reset" and im = sample_image and lay = sample_layout]])
      (use sample_hyps f in \<open>auto simp: STACK_BYTES_def k task_frame_def entry_regs_def sample_image_def FRAME_SIZE_def\<close>)
qed

text \<open>
  C23: the first switch to a task. A task whose frame is the one that \<^verbatim>\<open>tk_sta_tsk\<close> built (for any task
  started, and for the idle task after the boot) is entered at its entry point when a trap first
  switches to it, with the start code and the extended information in the two argument registers,
  \<^verbatim>\<open>tk_ext_tsk\<close> as return address, the stack pointer at the end of its stack and the fill pattern in
  every other register; as long as other tasks are resumed, the frame stays as it is.
\<close>

theorem first_switch_enters:
  assumes "stacks_ok lay (regs m X_sp - 128) (kern m)" and "alive (kern m)" and "current (kern m) = Some c"
    and "int_enabled (kern m)" and "priv m = 3" and "cause = 0x80000003 \<and> msip (kern m) \<or> cause = 0x80000007"
    and "i < CFN_MAX_TSKID" and "i \<noteq> c" and "live (tcbs (kern m) i)" and "first_entry (kern m) i ret entry arg0 arg1"
  shows "ok (trap lay handler j j' cause m) (\<lambda>(r, m'). let fp = sp (tcbs (kern m) i) in
    if running (kern m') i then pc m' = entry \<and> regs m' = entry_regs fp ret arg0 arg1 (regs m)
    else saved_at (stack_mem (kern m')) (sp (tcbs (kern m') i)) (entry_regs fp ret arg0 arg1 (regs m)) entry)"
proof -
  let ?rs = "entry_regs (sp (tcbs (kern m) i)) ret arg0 arg1 (regs m)"
  note f = first_entry_saved [OF assms(10), of "regs m"]
  have enters: "if running (kern m') i then pc m' = entry \<and> regs m' = ?rs
      else saved_at (stack_mem (kern m')) (sp (tcbs (kern m') i)) ?rs entry" if t: "trap_over c m (kern m) m'" for m'
  proof (cases "running (kern m') i")
    case True
    then have "saved_at (stack_mem (kern m)) (sp (tcbs (kern m) i)) (regs m') (pc m')"
      using t assms(8) by (auto simp: trap_over_def running_def split: if_split_asm)
    moreover have "regs m' X_gp = ?rs X_gp" "regs m' X_tp = ?rs X_tp" using t by (simp_all add: trap_over_def entry_regs_def)
    ultimately have "pc m' = entry" "regs m' r = ?rs r" for r
      using saved_at_unique [OF _ f, of "regs m'" "pc m'"] by (cases "r \<in> {X_gp, X_tp}"; auto)+
    then show ?thesis using True by auto
  next
    case False
    then show ?thesis using t f assms(7-9) unfolding trap_over_def by auto
  qed
  from interrupts_served [OF assms(1-6)] show ?thesis by (rule ok_mono) (use enters in \<open>auto simp: Let_def\<close>)
qed

theorem first_switch_enters_witness:
  "\<forall>j j'. ok (trap sample_layout Some j j' 0x80000003 (sample_cpu sample_ended))
     (\<lambda>(r, m'). running (kern m') 1 \<and> pc m' = 0x80000200 \<and> regs m' X_sp = 0x80010400 \<and> regs m' X_ra = 0x80000300)"
proof (intro allI)
  fix j j'
  have f: "first_entry sample_ended 1 0x80000300 0x80000200 0 0" "sp (tcbs sample_ended 1) = 0x80010380"
    using sample_first_entry by simp_all
  have l: "live (tcbs sample_ended i) \<longleftrightarrow> i = 1" if "i < CFN_MAX_TSKID" for i
    using sample_ended_live [OF that] .
  have t: "ok (trap sample_layout Some j j' 0x80000003 (sample_cpu sample_ended))
     (\<lambda>(r, m'). r = Return () \<and> trap_over 0 (sample_cpu sample_ended) sample_ended m')"
    using interrupts_served [of sample_layout "sample_cpu sample_ended" 0 "0x80000003" Some j j'] sample_ended sample_ended_stacks
    by (simp add: sample_cpu_def MSTATUS_MIE_def)
  have "ok (trap sample_layout Some j j' 0x80000003 (sample_cpu sample_ended)) (\<lambda>(r, m').
    if running (kern m') 1 then pc m' = 0x80000200 \<and> regs m' = entry_regs 0x80010380 0x80000300 0 0 (regs (sample_cpu sample_ended))
    else saved_at (stack_mem (kern m')) (sp (tcbs (kern m') 1)) (entry_regs 0x80010380 0x80000300 0 0 (regs (sample_cpu sample_ended))) 0x80000200)"
    using first_switch_enters [of sample_layout "sample_cpu sample_ended" 0 "0x80000003" 1 "0x80000300" "0x80000200" 0 0 Some j j']
      sample_ended sample_ended_stacks f l [of 1]
    by (simp add: sample_cpu_def MSTATUS_MIE_def Let_def del: One_nat_def)
  from ok_conjI [OF t this] show "ok (trap sample_layout Some j j' 0x80000003 (sample_cpu sample_ended))
     (\<lambda>(r, m'). running (kern m') 1 \<and> pc m' = 0x80000200 \<and> regs m' X_sp = 0x80010400 \<and> regs m' X_ra = 0x80000300)"
  proof (rule ok_mono, clarify, goal_cases)
    case (1 r m')
    then obtain n where "running (kern m') n" "live (tcbs sample_ended n)" "alive (kern m')" by (auto simp: trap_over_def)
    then have "running (kern m') 1" using l running_index by blast
    then show ?case using 1 by (simp add: entry_regs_def FRAME_SIZE_def del: One_nat_def)
  qed
qed

end
