(* ===== verification/TK_Context.thy ===== *)
theory TK_Context
  imports TK_Machine
begin

text \<open>
  The registers of a task over a whole run: from the trap that switches away from it, through
  everything that other tasks, handlers and the kernel do, to the trap that resumes it.
\<close>

section \<open>What happens while a task is switched out\<close>

text \<open>
  A software or timer trap is taken, or an external interrupt, whose handler leaves the frame of the
  task \<open>i\<close> and, as every call of the kernel, the tasks that are switched out as they are.
\<close>

definition frame_kept :: "nat \<Rightarrow> kernel \<Rightarrow> (addr \<Rightarrow> UW) \<Rightarrow> (addr \<Rightarrow> UW) \<Rightarrow> bool" where
  "frame_kept i k g g' \<longleftrightarrow> (\<forall>n < 29. g' (frame_word (sp (tcbs k i)) n) = g (frame_word (sp (tcbs k i)) n))"

definition starts_apart :: "nat \<Rightarrow> kernel \<Rightarrow> svc \<Rightarrow> bool" where
  "starts_apart i k c \<longleftrightarrow> (case c of Sta_tsk objid stacd \<Rightarrow> apart_frames (initial_sp (tcbs k (nat (objid - 1)))) (sp (tcbs k i)) | _ \<Rightarrow> True)"

inductive trap_taken :: "layout \<Rightarrow> nat \<Rightarrow> cpu \<Rightarrow> cpu \<Rightarrow> bool" for lay i where
  inner: "stacks_ok lay (regs m X_sp - 128) (kern m) \<Longrightarrow> int_enabled (kern m) \<Longrightarrow> priv m = 3 \<Longrightarrow>
    cause = 0x80000003 \<and> msip (kern m) \<or> cause = 0x80000007 \<Longrightarrow> trap lay handler j j' cause m = Some (r, m') \<Longrightarrow> trap_taken lay i m m'"
| outer: "isr_depth (kern m) = 0 \<Longrightarrow> handler (at_handler m) = Some k \<Longrightarrow> handler_returns (regs m X_sp - 128) (at_handler m) k \<Longrightarrow>
    stacks_ok lay (regs m X_sp - 128) k \<Longrightarrow> alive k \<Longrightarrow> others_same False (at_handler m) k \<Longrightarrow>
    (live (tcbs (kern m) i) \<Longrightarrow> live (tcbs k i)) \<Longrightarrow>
    (current k \<noteq> Some i \<Longrightarrow> frame_kept i (kern m) (stack_mem (at_handler m)) (stack_mem k)) \<Longrightarrow>
    trap lay handler j j' 0x8000000B m = Some (r, m') \<Longrightarrow> trap_taken lay i m m'"

text \<open>
  The steps of the machine while the task \<open>i\<close> does not run. The code that runs computes while time passes, but it
  writes no word of the frame of \<open>i\<close> and keeps the two registers that no frame holds; it makes a
  service call, and a task that it starts has its stack elsewhere; or it is interrupted.
\<close>

inductive mstep :: "layout \<Rightarrow> nat \<Rightarrow> cpu \<Rightarrow> cpu \<Rightarrow> bool" for lay i where
  code: "kern m' = (kern m)\<lparr>stack_mem := g, mstatus := v, clk := t\<rparr> \<Longrightarrow> clk (kern m) \<le> t \<Longrightarrow> frame_kept i (kern m) (stack_mem (kern m)) g \<Longrightarrow>
    regs m' X_gp = regs m X_gp \<Longrightarrow> regs m' X_tp = regs m X_tp \<Longrightarrow> mstep lay i m m'"
| call: "enabled c (kern m) \<Longrightarrow> perform c (kern m) = Some (r, k) \<Longrightarrow> starts_apart i (kern m) c \<Longrightarrow> mstep lay i m (m\<lparr>kern := k\<rparr>)"
| trap: "trap_taken lay i m m' \<Longrightarrow> mstep lay i m m'"

text \<open>What holds of a task that is switched out.\<close>

definition switched_out :: "nat \<Rightarrow> (reg \<Rightarrow> UW) \<Rightarrow> addr \<Rightarrow> cpu \<Rightarrow> bool" where
  "switched_out i rs a m \<longleftrightarrow> alive (kern m) \<and> i < CFN_MAX_TSKID \<and> current (kern m) \<noteq> Some i \<and> live (tcbs (kern m) i) \<and>
     saved_at (stack_mem (kern m)) (sp (tcbs (kern m) i)) rs a \<and> regs m X_gp = rs X_gp \<and> regs m X_tp = rs X_tp"

definition resumed_or_out :: "nat \<Rightarrow> (reg \<Rightarrow> UW) \<Rightarrow> addr \<Rightarrow> cpu \<Rightarrow> bool" where
  "resumed_or_out i rs a m \<longleftrightarrow> (if running (kern m) i then regs m = rs \<and> pc m = a else switched_out i rs a m)"

lemma saved_registers:
  assumes "saved_at g fp rs a" and "saved_at g fp rs' a'" and "rs' X_gp = rs X_gp" "rs' X_tp = rs X_tp"
  shows "rs' = rs \<and> a' = a"
proof -
  have "rs' r = rs r" for r using saved_at_unique [OF assms(1,2)] assms(3,4) by (cases "r \<in> {X_gp, X_tp}") auto
  then show ?thesis using saved_at_unique [OF assms(1,2)] by auto
qed

text \<open>The end of a trap on another task.\<close>

lemma trap_over_out:
  assumes t: "trap_over c m k m'" and c: "c \<noteq> i" "i < CFN_MAX_TSKID" "live (tcbs k i)"
    and s: "saved_at (stack_mem k) (sp (tcbs k i)) rs a" "regs m X_gp = rs X_gp" "regs m X_tp = rs X_tp"
  shows "resumed_or_out i rs a m'"
proof -
  have g: "regs m' X_gp = rs X_gp" "regs m' X_tp = rs X_tp" using t s by (simp_all add: trap_over_def)
  obtain n where n: "running (kern m') n" "if n = c then True else saved_at (stack_mem k) (sp (tcbs k n)) (regs m') (pc m')"
    using t by (auto simp: trap_over_def split: if_split_asm)
  show ?thesis
  proof (cases "running (kern m') i")
    case True
    then have "n = i" using n by (simp add: running_def)
    then show ?thesis using saved_registers [OF s(1) _ g] n c True by (simp add: resumed_or_out_def)
  next
    case False
    have "current (kern m') \<noteq> Some i" using False n by (auto simp: running_def)
    then show ?thesis
      using False t c s(1) g by (simp add: resumed_or_out_def switched_out_def trap_over_def)
  qed
qed

lemma started_frame_kept:
  assumes "sys_inv s" and "tk_sta_tsk objid stacd s = Some (r, s')" and "apart_frames (initial_sp (tcbs s (nat (objid - 1)))) fp" and "n < 29"
  shows "stack_mem s' (frame_word fp n) = stack_mem s (frame_word fp n)"
proof -
  have x: "sta_tsk_result objid stacd s r s'" using tk_sta_tsk_ok [OF assms(1), of objid stacd] assms(2) by simp
  have "frame_word fp n \<noteq> frame_word (initial_sp (tcbs s (nat (objid - 1)))) k" if "k < FRAME_WORDS" for k
    using assms(3,4) that unfolding apart_frames_def FRAME_WORDS_def using order.strict_trans [of n 29 32] by fastforce
  then have "start_frame (nat (objid - 1)) stacd s (frame_word fp n) = stack_mem s (frame_word fp n)"
    unfolding start_frame_def
    by (rule initial_frame_words(6))
  then show ?thesis using x by (auto simp: sta_tsk_result_def Let_def split: if_split_asm)
qed

lemma call_out:
  assumes o: "switched_out i rs a m" and c: "enabled c (kern m)" "perform c (kern m) = Some (r, k)" "starts_apart i (kern m) c"
  shows "switched_out i rs a (m\<lparr>kern := k\<rparr>)"
proof -
  have A: "alive (kern m)" and l: "current (kern m) \<noteq> Some i" "live (tcbs (kern m) i)" using o by (simp_all add: switched_out_def)
  have k: "alive k" "others_same (\<not> starts c) (kern m) k"
    using perform_alive [OF A c(1)] perform_others_kept [OF A c(1)] c(2) by simp_all
  have "frame_kept i (kern m) (stack_mem (kern m)) (stack_mem k)"
  proof (cases "starts c")
    case True
    then obtain objid stacd where x: "c = Sta_tsk objid stacd" by (cases c) auto
    then obtain r' where "tk_sta_tsk objid stacd (kern m) = Some (r', k)" using c(2) by (auto simp: void_def map_prod_def)
    from started_frame_kept [OF _ this] show ?thesis using A c(3) x by (simp add: alive_def frame_kept_def starts_apart_def)
  qed (use k in \<open>simp add: frame_kept_def others_same_def\<close>)
  then have "saved_at (stack_mem k) (sp (tcbs (kern m) i)) rs a"
    using o saved_at_cong [of "stack_mem k" "sp (tcbs (kern m) i)" "stack_mem (kern m)"]
    by (simp add: frame_kept_def switched_out_def)
  then show ?thesis using o k l by (simp add: switched_out_def others_same_def)
qed

lemma at_handler_fields [simp]:
  "tcbs (at_handler m) = tcbs (kern m)" "current (at_handler m) = current (kern m)"
  by (simp_all add: at_handler_def pushed_trapped trapped_def enter_isr_def)

lemma at_handler_stack:
  assumes "x \<noteq> frame_word (regs m X_sp - 128) 29" and "\<And>k. k < 29 \<Longrightarrow> x \<noteq> frame_word (regs m X_sp - 128) k"
  shows "stack_mem (at_handler m) x = stack_mem (kern m) x"
  using assms put_frame_other [of x "regs m X_sp - 128"]
  by (simp add: at_handler_def pushed_trapped trapped_def enter_isr_def)

text \<open>A trap while the task \<open>i\<close> is switched out, and a trap on the task \<open>i\<close> itself.\<close>

lemma external_over:
  assumes "handler (at_handler m) = Some k" and "handler_returns (regs m X_sp - 128) (at_handler m) k"
    and "stacks_ok lay (regs m X_sp - 128) k" and "alive k" and "current k = Some c" and "isr_depth (kern m) = 0"
    and "trap lay handler j j' 0x8000000B m = Some (r, m')"
  shows "trap_over c m k m'"
  using external_trap_served [where handler = handler, OF assms(1-6), of j j'] assms(7) by (auto simp: trap_def vector_of_def trap_handlers_def)

lemma trap_taken_out:
  assumes "trap_taken lay i m m'" and o: "switched_out i rs a m"
  shows "resumed_or_out i rs a m'"
  using assms(1)
proof cases
  case (inner cause handler j j' r)
  have A: "alive (kern m)" using o by (simp add: switched_out_def)
  then obtain c where c: "current (kern m) = Some c" by (auto simp: alive_def)
  have "trap_over c m (kern m) m'"
    using interrupts_served [OF inner(1) A c inner(2-4), of handler j j'] inner(5) by simp
  then show ?thesis by (rule trap_over_out) (use o c in \<open>auto simp: switched_out_def\<close>)
next
  case (outer handler k j j' r)
  let ?fi = "sp (tcbs (kern m) i)" and ?fp = "regs m X_sp - 128"
  obtain c where c: "current (kern m) = Some c" using o by (auto simp: switched_out_def alive_def)
  have k: "current k = Some c" "live (tcbs k i)" "sp (tcbs k i) = ?fi"
    using o outer(6) c by (auto simp: others_same_def switched_out_def)
  have t: "trap_over c m k m'" by (rule external_over [OF outer(2-5) k(1) outer(1,9)])
  have p: "apart_frames ?fp ?fi" using outer(4) o c k by (auto simp: stacks_ok_def switched_out_def)
  have "c \<noteq> i" using o c by (auto simp: switched_out_def)
  then have "stack_mem k (frame_word ?fi n) = stack_mem (kern m) (frame_word ?fi n)" if "n < 29" for n
    using outer(8) k(1) that apart_framesD [OF p] at_handler_stack [of "frame_word ?fi n" m] by (simp add: frame_kept_def)
  then have "saved_at (stack_mem k) ?fi rs a"
    using o saved_at_cong [of "stack_mem k" ?fi "stack_mem (kern m)"] by (simp add: switched_out_def)
  then show ?thesis using k o c by (intro trap_over_out [OF t]) (auto simp: switched_out_def)
qed

lemma trap_over_own:
  assumes t: "trap_over i m k m'" and i: "i < CFN_MAX_TSKID" "live (tcbs k i)"
  shows "resumed_or_out i (regs m) (pc m) m'"
proof -
  obtain n where "running (kern m') n" "if n = i then regs m' = regs m \<and> pc m' = pc m
      else saved_at (stack_mem (kern m')) (sp (tcbs (kern m') i)) (regs m) (pc m)"
    using t unfolding trap_over_def by (metis (full_types))
  then show ?thesis
    using t i by (auto simp: resumed_or_out_def switched_out_def trap_over_def running_def split: if_split_asm)
qed

lemma trap_taken_own:
  assumes "trap_taken lay i m m'" and A: "alive (kern m)" and c: "current (kern m) = Some i" and l: "live (tcbs (kern m) i)"
  shows "resumed_or_out i (regs m) (pc m) m'"
proof -
  have i: "i < CFN_MAX_TSKID" using A c by (auto simp: alive_def sys_inv_def ginv_def cur_ok_def dest!: kinvD(3))
  from assms(1) show ?thesis
  proof cases
    case (inner cause handler j j' r)
    have "trap_over i m (kern m) m'"
      using interrupts_served [OF inner(1) A c inner(2-4), of handler j j'] inner(5) by simp
    then show ?thesis by (rule trap_over_own [OF _ i l])
  next
    case (outer handler k j j' r)
    have "current k = Some i" using outer(6) c by (simp add: others_same_def)
    from trap_over_own [OF external_over [OF outer(2-5) this outer(1,9)] i outer(7) [OF l]] show ?thesis .
  qed
qed

lemma mstep_out:
  assumes "mstep lay i m m'" and o: "switched_out i rs a m"
  shows "resumed_or_out i rs a m'"
  using assms(1)
proof cases
  case (code t v g)
  have "saved_at g (sp (tcbs (kern m) i)) rs a"
    using o code saved_at_cong [of g "sp (tcbs (kern m) i)" "stack_mem (kern m)"] by (simp add: frame_kept_def switched_out_def)
  then show ?thesis
    using o code by (simp add: resumed_or_out_def switched_out_def running_def)
next
  case (call c r k)
  have "switched_out i rs a m'" using call_out [OF o] call by blast
  then show ?thesis by (simp add: resumed_or_out_def switched_out_def running_def)
next
  case trap
  then show ?thesis using o by (rule trap_taken_out)
qed

section \<open>The property\<close>

text \<open>
  C6: a task resumes where it was. Take a trap on a live task \<open>i\<close>, and then any number of steps in
  which other code computes, makes service calls and is interrupted, up to the moment that \<open>i\<close> runs
  again. Then all its registers and its program counter are those it had at the trap; and until that
  moment they are in the frame that its control block points to. The code in between keeps to its
  own stack and to the ABI: it does not write the frame of \<open>i\<close>, and keeps \<^verbatim>\<open>gp\<close> and \<^verbatim>\<open>tp\<close>.
\<close>

theorem task_resumes_where_it_was:
  assumes "alive (kern m0)" and "current (kern m0) = Some i" and "live (tcbs (kern m0) i)" and "trap_taken lay i m0 m1"
    and "(\<lambda>m m'. \<not> running (kern m) i \<and> mstep lay i m m')\<^sup>*\<^sup>* m1 m2"
  shows "if running (kern m2) i then regs m2 = regs m0 \<and> pc m2 = pc m0
    else saved_at (stack_mem (kern m2)) (sp (tcbs (kern m2) i)) (regs m0) (pc m0)"
proof -
  from assms(5) have "resumed_or_out i (regs m0) (pc m0) m2"
  proof (induction rule: rtranclp_induct)
    case base
    show ?case by (rule trap_taken_own [OF assms(4,1,2,3)])
  next
    case (step m m')
    then show ?case using mstep_out [of lay i m m'] by (simp add: resumed_or_out_def)
  qed
  then show ?thesis by (auto simp: resumed_or_out_def switched_out_def split: if_split_asm)
qed

lemma sample_asleep_stacks:
  "stacks_ok sample_layout 0x80010100 sample_asleep" "mstatus sample_asleep = 0x1808" "live (tcbs sample_asleep 0)"
proof -
  note x = sample_asleep_tcbs(1)
  then show "stacks_ok sample_layout 0x80010100 sample_asleep"
    using sample_stacks_boot sample_boot_inv(3) sample_asleep(3) by (auto simp: stacks_ok_def)
  show "mstatus sample_asleep = 0x1808" "live (tcbs sample_asleep 0)" using sample_asleep_tcbs(2) sample_asleep(5) by simp_all
qed

lemma sample_switches_away:
  assumes "entry_mtrap_handler sample_layout j (take_trap 0x80000003 (sample_cpu sample_asleep)) = Some m1"
  shows "\<not> running (kern m1) 0"
proof -
  let ?m = "sample_cpu sample_asleep"
  have s: "regs ?m X_sp - 128 = 0x80010100" "kern ?m = sample_asleep" by (simp_all add: sample_cpu_def)
  have d: "isr_depth_at sample_layout \<noteq> CLINT_MSIP_ADDRESS" "frame_clear sample_layout 0x80010100"
    using sample_asleep_stacks(1) by (simp_all add: stacks_ok_def task_frame_def)
  have t: "alive (trapped ?m)" "msip (trapped ?m)" "\<not> runnable (tcbs (trapped ?m) 0)"
    using sample_asleep by (simp_all add: trapped_def s)
  obtain f s' where r: "mtrap_handler 0x80010100 (trapped ?m) = Some (f, s')" "resumed 0x80010100 (trapped ?m) f s'"
    using mtrap_handler_alive [OF t(1,2), of "0x80010100"] by (auto simp: ok_def)
  have "core (kern m1) = core s'" using mtrap_refines [of sample_layout ?m j "0x80000003"] d r(1) assms by (simp add: s)
  then have "tcbs (core (kern m1)) = tcbs (core s')" by simp
  then have e: "tcbs (kern m1) = tcbs s'" by (simp add: core_def)
  have "\<forall>i < CFN_MAX_TSKID. runnable (tcbs s' i) \<longleftrightarrow> runnable (tcbs (trapped ?m) i)" using r(2) unfolding resumed_def by blast
  then have "\<not> runnable (tcbs s' 0)" using t(3) by (auto dest: spec [of _ 0])
  then show ?thesis using e by (auto simp: running_def)
qed

theorem task_resumes_where_it_was_witness:
  "\<exists>m1 m2. trap_taken sample_layout 0 (sample_cpu sample_asleep) m1 \<and> mstep sample_layout 0 m1 m2 \<and> pc m2 = pc m1 + 4 \<and>
     saved_at (stack_mem (kern m2)) (sp (tcbs (kern m2) 0)) ((\<lambda>_. 0)(X_sp := 0x80010180)) 0x80000104"
proof -
  let ?m = "sample_cpu sample_asleep" and ?j = "(\<lambda>_. 0, \<lambda>_. 0)"
  have f: "stacks_ok sample_layout (regs ?m X_sp - 128) (kern ?m)" "int_enabled (kern ?m)" "priv ?m = 3" "msip (kern ?m)"
      "alive (kern ?m)" "current (kern ?m) = Some 0" "live (tcbs (kern ?m) 0)"
    using sample_asleep sample_asleep_stacks by (simp_all add: sample_cpu_def MSTATUS_MIE_def)
  obtain m1 where m1: "trap sample_layout Some ?j ?j 0x80000003 ?m = Some (Return (), m1)"
    using interrupts_served [OF f(1,5,6,2,3), of "0x80000003" Some ?j ?j] f(4) by (auto simp: ok_def)
  then have r: "\<not> running (kern m1) 0"
    by (intro sample_switches_away) (simp add: trap_def vector_of_def trap_handlers_def)
  have t: "trap_taken sample_layout 0 ?m m1" by (rule trap_taken.inner [OF f(1-3) _ m1]) (use f(4) in simp)
  let ?m2 = "m1\<lparr>pc := pc m1 + 4\<rparr>"
  have c: "mstep sample_layout 0 m1 ?m2"
    by (rule mstep.code [where g = "stack_mem (kern m1)" and v = "mstatus (kern m1)" and t = "clk (kern m1)"]) (simp_all add: frame_kept_def)
  have "(\<lambda>m m'. \<not> running (kern m) 0 \<and> mstep sample_layout 0 m m')\<^sup>*\<^sup>* m1 ?m2" using r c by (intro r_into_rtranclp) simp
  from task_resumes_where_it_was [OF f(5-7) t this] r have "saved_at (stack_mem (kern ?m2)) (sp (tcbs (kern ?m2) 0)) (regs ?m) (pc ?m)" by simp
  then show ?thesis using t c by (intro exI [of _ m1] exI [of _ ?m2]) (simp add: sample_cpu_def)
qed

end
