(* ===== verification/TK_Memory.thy ===== *)
theory TK_Memory
  imports TK_Types
begin

text \<open>
  The two block operations of the kernel, \<^verbatim>\<open>kernel/memcpy.c\<close> and \<^verbatim>\<open>kernel/memset.c\<close>, over a memory of
  bytes: the loop over bytes up to a word boundary, the loops over eight words and over one word
  (little-endian, as on RV32), and the loop over the bytes that are left. Both are shown to end
  and to do what the plain byte-by-byte operation does.
\<close>

unbundle bit_operations_syntax

type_synonym memory = "addr \<Rightarrow> 8 word"

section \<open>Words in a byte memory\<close>

definition load_word :: "addr \<Rightarrow> memory \<Rightarrow> UW" where
  "load_word a m = ucast (m a) OR push_bit 8 (ucast (m (a + 1))) OR
     push_bit 16 (ucast (m (a + 2))) OR push_bit 24 (ucast (m (a + 3)))"

definition store_word :: "addr \<Rightarrow> UW \<Rightarrow> memory \<Rightarrow> memory" where
  "store_word a w m = m(a := ucast w, a + 1 := ucast (drop_bit 8 w), a + 2 := ucast (drop_bit 16 w),
     a + 3 := ucast (drop_bit 24 w))"

text \<open>The byte and halfword accesses of \<^verbatim>\<open>include/sys/ioport.h\<close> to an address that is memory.\<close>

type_synonym UB = "8 word"
type_synonym UH = "16 word"

definition out_b :: "addr \<Rightarrow> UB \<Rightarrow> memory \<Rightarrow> memory" where
  "out_b port data m = m(port := data)"

definition in_b :: "addr \<Rightarrow> memory \<Rightarrow> UB" where
  "in_b port m = m port"

definition out_h :: "addr \<Rightarrow> UH \<Rightarrow> memory \<Rightarrow> memory" where
  "out_h port data m = m(port := ucast data, port + 1 := ucast (drop_bit 8 data))"

definition in_h :: "addr \<Rightarrow> memory \<Rightarrow> UH" where
  "in_h port m = ucast (m port) OR push_bit 8 (ucast (m (port + 1)))"

section \<open>tkmc\_memcpy\<close>

function copy_bytes :: "addr \<Rightarrow> addr \<Rightarrow> UINT \<Rightarrow> memory \<Rightarrow> memory" where
  "copy_bytes d8 s8 n m = (if n = 0 then m else copy_bytes (d8 + 1) (s8 + 1) (n - 1) (m(d8 := m s8)))"
  by pat_completeness auto

function copy_to_boundary :: "addr \<Rightarrow> addr \<Rightarrow> UINT \<Rightarrow> memory \<Rightarrow> addr \<times> addr \<times> UINT \<times> memory" where
  "copy_to_boundary d8 s8 n m = (if d8 AND 3 \<noteq> 0 \<and> n \<noteq> 0
     then copy_to_boundary (d8 + 1) (s8 + 1) (n - 1) (m(d8 := m s8)) else (d8, s8, n, m))"
  by pat_completeness auto

definition copy_word :: "addr \<Rightarrow> addr \<Rightarrow> memory \<Rightarrow> memory" where
  "copy_word dw sw m = store_word dw (load_word sw m) m"

definition copy_block :: "addr \<Rightarrow> addr \<Rightarrow> memory \<Rightarrow> memory" where
  "copy_block dw sw m = (let
       m = copy_word dw sw m;
       m = copy_word (dw + 4) (sw + 4) m;
       m = copy_word (dw + 8) (sw + 8) m;
       m = copy_word (dw + 12) (sw + 12) m;
       m = copy_word (dw + 16) (sw + 16) m;
       m = copy_word (dw + 20) (sw + 20) m;
       m = copy_word (dw + 24) (sw + 24) m
     in copy_word (dw + 28) (sw + 28) m)"

function copy_blocks :: "addr \<Rightarrow> addr \<Rightarrow> UINT \<Rightarrow> memory \<Rightarrow> addr \<times> addr \<times> UINT \<times> memory" where
  "copy_blocks dw sw n m = (if 32 \<le> n then copy_blocks (dw + 32) (sw + 32) (n - 32) (copy_block dw sw m)
     else (dw, sw, n, m))"
  by pat_completeness auto

function copy_words :: "addr \<Rightarrow> addr \<Rightarrow> UINT \<Rightarrow> memory \<Rightarrow> addr \<times> addr \<times> UINT \<times> memory" where
  "copy_words dw sw n m = (if 4 \<le> n then copy_words (dw + 4) (sw + 4) (n - 4) (copy_word dw sw m)
     else (dw, sw, n, m))"
  by pat_completeness auto

lemma unat_less_dec: "n \<noteq> 0 \<Longrightarrow> unat (n - 1) < unat (n :: UINT)"
  by (simp add: unat_minus_one word_greater_zero_iff unat_gt_0)

lemma unat_dec: "k \<le> n \<Longrightarrow> unat (n - k) = unat n - unat (k :: UINT)"
  by (simp add: unat_sub)

lemma unat_dec_less: "k \<le> n \<Longrightarrow> 0 < k \<Longrightarrow> unat (n - k) < unat (n :: UINT)"
  using unat_dec [of k n] by (simp add: word_less_nat_alt word_le_nat_alt)

termination copy_bytes
  by (relation "measure (\<lambda>(_, _, n, _). unat n)") (auto intro: unat_less_dec)

termination copy_to_boundary
  by (relation "measure (\<lambda>(_, _, n, _). unat n)") (auto intro: unat_less_dec)

termination copy_blocks
  by (relation "measure (\<lambda>(_, _, n, _). unat n)") (auto intro: unat_dec_less)

termination copy_words
  by (relation "measure (\<lambda>(_, _, n, _). unat n)") (auto intro: unat_dec_less)

definition tkmc_memcpy :: "addr \<Rightarrow> addr \<Rightarrow> UINT \<Rightarrow> memory \<Rightarrow> addr \<times> memory" where
  "tkmc_memcpy dest src n m =
     (if n < 32 then (dest, copy_bytes dest src n m)
      else if (dest XOR src) AND 3 \<noteq> 0 then (dest, copy_bytes dest src n m)
      else let
        (d8, s8, n, m) = copy_to_boundary dest src n m;
        (dw, sw, n, m) = copy_blocks d8 s8 n m;
        (dw, sw, n, m) = copy_words dw sw n m
      in (dest, copy_bytes dw sw n m))"

section \<open>tkmc\_memset\<close>

function set_bytes :: "addr \<Rightarrow> 8 word \<Rightarrow> UINT \<Rightarrow> memory \<Rightarrow> memory" where
  "set_bytes d8 v n m = (if n = 0 then m else set_bytes (d8 + 1) v (n - 1) (m(d8 := v)))"
  by pat_completeness auto

function set_to_boundary :: "addr \<Rightarrow> 8 word \<Rightarrow> UINT \<Rightarrow> memory \<Rightarrow> addr \<times> UINT \<times> memory" where
  "set_to_boundary d8 v n m = (if d8 AND 3 \<noteq> 0 \<and> n \<noteq> 0
     then set_to_boundary (d8 + 1) v (n - 1) (m(d8 := v)) else (d8, n, m))"
  by pat_completeness auto

definition set_block :: "addr \<Rightarrow> UW \<Rightarrow> memory \<Rightarrow> memory" where
  "set_block dw w m = (let
       m = store_word dw w m;
       m = store_word (dw + 4) w m;
       m = store_word (dw + 8) w m;
       m = store_word (dw + 12) w m;
       m = store_word (dw + 16) w m;
       m = store_word (dw + 20) w m;
       m = store_word (dw + 24) w m
     in store_word (dw + 28) w m)"

function set_blocks :: "addr \<Rightarrow> UW \<Rightarrow> UINT \<Rightarrow> memory \<Rightarrow> addr \<times> UINT \<times> memory" where
  "set_blocks dw w n m = (if 32 \<le> n then set_blocks (dw + 32) w (n - 32) (set_block dw w m) else (dw, n, m))"
  by pat_completeness auto

function set_words :: "addr \<Rightarrow> UW \<Rightarrow> UINT \<Rightarrow> memory \<Rightarrow> addr \<times> UINT \<times> memory" where
  "set_words dw w n m = (if 4 \<le> n then set_words (dw + 4) w (n - 4) (store_word dw w m) else (dw, n, m))"
  by pat_completeness auto

termination set_bytes
  by (relation "measure (\<lambda>(_, _, n, _). unat n)") (auto intro: unat_less_dec)

termination set_to_boundary
  by (relation "measure (\<lambda>(_, _, n, _). unat n)") (auto intro: unat_less_dec)

termination set_blocks
  by (relation "measure (\<lambda>(_, _, n, _). unat n)") (auto intro: unat_dec_less)

termination set_words
  by (relation "measure (\<lambda>(_, _, n, _). unat n)") (auto intro: unat_dec_less)

definition tkmc_memset :: "addr \<Rightarrow> int \<Rightarrow> UINT \<Rightarrow> memory \<Rightarrow> addr \<times> memory" where
  "tkmc_memset dest c n m = (let value = word_of_int c in
     if n < 32 then (dest, set_bytes dest value n m)
     else let
       (d8, n, m) = set_to_boundary dest value n m;
       (d8, n, m) = (if 4 \<le> n then let
           word_value = ucast value * 0x01010101;
           (dw, n, m) = set_blocks d8 word_value n m
         in set_words dw word_value n m
         else (d8, n, m))
     in (dest, set_bytes d8 value n m))"

declare copy_bytes.simps [simp del] copy_to_boundary.simps [simp del] copy_blocks.simps [simp del]
  copy_words.simps [simp del] set_bytes.simps [simp del] set_to_boundary.simps [simp del]
  set_blocks.simps [simp del] set_words.simps [simp del]

section \<open>What the operations are to do\<close>

definition copied :: "addr \<Rightarrow> addr \<Rightarrow> nat \<Rightarrow> memory \<Rightarrow> memory" where
  "copied d s k m = (\<lambda>x. if unat (x - d) < k then m (s + (x - d)) else m x)"

definition filled :: "addr \<Rightarrow> 8 word \<Rightarrow> nat \<Rightarrow> memory \<Rightarrow> memory" where
  "filled d v k m = (\<lambda>x. if unat (x - d) < k then v else m x)"

text \<open>What \<^verbatim>\<open>restrict\<close> asks of the caller: the two areas have no byte in common.\<close>

definition apart :: "addr \<Rightarrow> addr \<Rightarrow> nat \<Rightarrow> bool" where
  "apart d s n \<longleftrightarrow> (\<forall>i j. i < n \<longrightarrow> j < n \<longrightarrow> d + of_nat i \<noteq> s + of_nat j)"

lemma copied_0 [simp]: "copied d s 0 m = m" and filled_0 [simp]: "filled d v 0 m = m"
  by (simp_all add: copied_def filled_def)

lemma unat_of_offset: "k < 2 ^ 32 \<Longrightarrow> unat (of_nat k :: addr) = k"
  by (simp add: unat_of_nat take_bit_nat_eq_self)

lemma offset_less_Suc:
  fixes d x :: addr
  assumes "k < 2 ^ 32"
  shows "unat (x - d) < Suc k \<longleftrightarrow> unat (x - d) < k \<or> x = d + of_nat k"
proof -
  have "unat (x - d) = k \<longleftrightarrow> x - d = of_nat k"
    using unat_of_offset [OF assms] by (metis of_nat_unat ucast_id)
  then show ?thesis by (auto simp: less_Suc_eq algebra_simps)
qed

lemma apart_source:
  assumes "apart d s N" and "k \<le> N" and "j < N"
  shows "\<not> unat (s + of_nat j - d) < k"
proof
  assume "unat (s + of_nat j - d) < k"
  then have "d + of_nat (unat (s + of_nat j - d)) \<noteq> s + of_nat j"
    using assms unfolding apart_def by (meson less_le_trans)
  then show False by simp
qed

lemma copied_source:
  "apart d s N \<Longrightarrow> k \<le> N \<Longrightarrow> j < N \<Longrightarrow> copied d s k m (s + of_nat j) = m (s + of_nat j)"
  by (simp add: copied_def apart_source)

lemma copy_byte:
  assumes "apart d s N" and "k < N" and "N < 2 ^ 32"
  shows "(copied d s k m)(d + of_nat k := m (s + of_nat k)) = copied d s (Suc k) m"
  using assms by (auto simp: fun_eq_iff copied_def offset_less_Suc unat_of_offset)

lemma fill_byte:
  assumes "k < 2 ^ 32"
  shows "(filled d v k m)(d + of_nat k := v) = filled d v (Suc k) m"
  using assms by (auto simp: fun_eq_iff filled_def offset_less_Suc unat_of_offset)

lemma byte_of_word:
  fixes a b c e :: "8 word"
  defines "w \<equiv> (ucast a OR push_bit 8 (ucast b) OR push_bit 16 (ucast c) OR push_bit 24 (ucast e)) :: UW"
  shows "ucast w = a" "ucast (drop_bit 8 w) = b" "ucast (drop_bit 16 w) = c" "ucast (drop_bit 24 w) = e"
  unfolding w_def
  by (rule bit_word_eqI, auto simp: bit_simps dest: bit_imp_le_length)+

lemma copy_word_bytes:
  "copy_word dw sw m = m(dw := m sw, dw + 1 := m (sw + 1), dw + 2 := m (sw + 2), dw + 3 := m (sw + 3))"
  by (simp only: copy_word_def store_word_def load_word_def byte_of_word)

lemma copy_word_copied:
  assumes "apart d s N" and "k + 4 \<le> N" and "N < 2 ^ 32"
  shows "copy_word (d + of_nat k) (s + of_nat k) (copied d s k m) = copied d s (k + 4) m"
proof -
  have src: "copied d s k m (s + of_nat (k + i)) = m (s + of_nat (k + i))" if "i < 4" for i
    by (rule copied_source [OF assms(1)]) (use assms that in auto)
  have "copy_word (d + of_nat k) (s + of_nat k) (copied d s k m) =
      (copied d s k m)(d + of_nat k := m (s + of_nat k), d + of_nat (Suc k) := m (s + of_nat (Suc k)),
       d + of_nat (Suc (Suc k)) := m (s + of_nat (Suc (Suc k))),
       d + of_nat (Suc (Suc (Suc k))) := m (s + of_nat (Suc (Suc (Suc k)))))"
    using src [of 0] src [of 1] src [of 2] src [of 3] by (simp add: copy_word_bytes algebra_simps)
  also have "\<dots> = copied d s (Suc (Suc (Suc (Suc k)))) m"
    using assms by (simp only: copy_byte [OF assms(1) _ assms(3)] Suc_le_lessD)
  finally show ?thesis by (simp add: eval_nat_numeral)
qed

lemma copy_block_copied:
  assumes "apart d s N" and "k + 32 \<le> N" and "N < 2 ^ 32"
  shows "copy_block (d + of_nat k) (s + of_nat k) (copied d s k m) = copied d s (k + 32) m"
proof -
  have w: "copy_word (d + of_nat k + of_nat i) (s + of_nat k + of_nat i) (copied d s (k + i) m) = copied d s (k + (i + 4)) m"
    if "i \<le> 28" for i
    using copy_word_copied [OF assms(1) _ assms(3), of "k + i" m] assms(2) that by (simp add: algebra_simps)
  show ?thesis
    using w [of 0] w [of 4] w [of 8] w [of 12] w [of 16] w [of 20] w [of 24] w [of 28]
    by (simp add: copy_block_def Let_def)
qed

lemma copy_bytes_copied:
  assumes "apart d s N" and "N < 2 ^ 32" and "k + unat n = N"
  shows "copy_bytes (d + of_nat k) (s + of_nat k) n (copied d s k m) = copied d s N m"
  using assms(3)
proof (induction "unat n" arbitrary: k n)
  case 0
  then show ?case by (simp add: copy_bytes.simps unat_eq_0)
next
  case (Suc l)
  have n: "n \<noteq> 0" using Suc.hyps(2) by auto
  then have l: "l = unat (n - 1)" using Suc.hyps(2) by (simp add: unat_minus_one)
  have "copied d s k m (s + of_nat k) = m (s + of_nat k)"
    by (rule copied_source [OF assms(1)]) (use Suc in auto)
  then have "(copied d s k m)(d + of_nat k := copied d s k m (s + of_nat k)) = copied d s (Suc k) m"
    using copy_byte [OF assms(1) _ assms(2), of k m] Suc by simp
  then show ?case
    using Suc.hyps(1) [OF l, of "Suc k"] Suc.hyps(2) Suc.prems n l
    by (subst copy_bytes.simps) (simp add: algebra_simps)
qed

text \<open>
  A loop that stops early leaves the offset it reached; the next one goes on from there.
\<close>

definition reached :: "addr \<Rightarrow> addr \<Rightarrow> nat \<Rightarrow> memory \<Rightarrow> addr \<times> addr \<times> UINT \<times> memory \<Rightarrow> bool" where
  "reached d s N m r \<longleftrightarrow> (\<exists>k n. r = (d + of_nat k, s + of_nat k, n, copied d s k m) \<and> k + unat n = N)"

lemma reachedI: "k + unat n = N \<Longrightarrow> reached d s N m (d + of_nat k, s + of_nat k, n, copied d s k m)"
  by (auto simp: reached_def)

lemma copy_to_boundary_reached:
  assumes "apart d s N" and "N < 2 ^ 32" and "k + unat n = N"
  shows "reached d s N m (copy_to_boundary (d + of_nat k) (s + of_nat k) n (copied d s k m))"
  using assms(3)
proof (induction "unat n" arbitrary: k n)
  case 0
  then show ?case by (subst copy_to_boundary.simps) (simp add: unat_eq_0 reachedI)
next
  case (Suc l)
  have n: "n \<noteq> 0" using Suc.hyps(2) by auto
  then have l: "l = unat (n - 1)" using Suc.hyps(2) by (simp add: unat_minus_one)
  have "copied d s k m (s + of_nat k) = m (s + of_nat k)"
    by (rule copied_source [OF assms(1)]) (use Suc in auto)
  then have e: "(copied d s k m)(d + of_nat k := copied d s k m (s + of_nat k)) = copied d s (Suc k) m"
    using copy_byte [OF assms(1) _ assms(2), of k m] Suc by simp
  have "reached d s N m (copy_to_boundary (d + of_nat k + 1) (s + of_nat k + 1) (n - 1) (copied d s (Suc k) m))"
    using Suc.hyps(1) [OF l, of "Suc k"] Suc.hyps(2) Suc.prems l by (simp add: algebra_simps)
  then show ?case
    using Suc.prems by (subst copy_to_boundary.simps) (simp add: e reachedI)
qed

lemma copy_blocks_reached:
  assumes "apart d s N" and "N < 2 ^ 32" and "k + unat n = N"
  shows "reached d s N m (copy_blocks (d + of_nat k) (s + of_nat k) n (copied d s k m))"
  using assms(3)
proof (induction "unat n" arbitrary: k n rule: less_induct)
  case less
  show ?case
  proof (cases "32 \<le> n")
    case True
    then have u: "32 \<le> unat n" "unat (n - 32) = unat n - 32" by (simp_all add: word_le_nat_alt unat_dec)
    have "reached d s N m (copy_blocks (d + of_nat (k + 32)) (s + of_nat (k + 32)) (n - 32) (copied d s (k + 32) m))"
      by (rule less.hyps) (use u less.prems in auto)
    then show ?thesis
      using True u less.prems copy_block_copied [OF assms(1) _ assms(2), of k m]
      by (subst copy_blocks.simps) (simp add: algebra_simps)
  qed (use less.prems in \<open>simp add: copy_blocks.simps [of _ _ n] reachedI\<close>)
qed

lemma copy_words_reached:
  assumes "apart d s N" and "N < 2 ^ 32" and "k + unat n = N"
  shows "reached d s N m (copy_words (d + of_nat k) (s + of_nat k) n (copied d s k m))"
  using assms(3)
proof (induction "unat n" arbitrary: k n rule: less_induct)
  case less
  show ?case
  proof (cases "4 \<le> n")
    case True
    then have u: "4 \<le> unat n" "unat (n - 4) = unat n - 4" by (simp_all add: word_le_nat_alt unat_dec)
    have "reached d s N m (copy_words (d + of_nat (k + 4)) (s + of_nat (k + 4)) (n - 4) (copied d s (k + 4) m))"
      by (rule less.hyps) (use u less.prems in auto)
    then show ?thesis
      using True u less.prems copy_word_copied [OF assms(1) _ assms(2), of k m]
      by (subst copy_words.simps) (simp add: algebra_simps)
  qed (use less.prems in \<open>simp add: copy_words.simps [of _ _ n] reachedI\<close>)
qed

lemma tkmc_memcpy_copied:
  assumes "apart dest src (unat n)"
  shows "tkmc_memcpy dest src n m = (dest, copied dest src (unat n) m)"
proof -
  let ?N = "unat n"
  have N: "?N < 2 ^ 32" using unsigned_less [of n] by simp
  note loops = copy_to_boundary_reached [OF assms N] copy_blocks_reached [OF assms N]
    copy_words_reached [OF assms N] copy_bytes_copied [OF assms N]
  have "copy_bytes dest src n m = copied dest src ?N m" using loops(4) [of 0 n m] by simp
  moreover obtain k1 n1 where b: "copy_to_boundary dest src n m =
      (dest + of_nat k1, src + of_nat k1, n1, copied dest src k1 m)" "k1 + unat n1 = ?N"
    using loops(1) [of 0 n m] by (auto simp: reached_def)
  moreover obtain k2 n2 where "copy_blocks (dest + of_nat k1) (src + of_nat k1) n1 (copied dest src k1 m) =
      (dest + of_nat k2, src + of_nat k2, n2, copied dest src k2 m)" "k2 + unat n2 = ?N"
    using loops(2) [OF b(2), of m] by (auto simp: reached_def)
  moreover from this(2) obtain k3 n3 where "copy_words (dest + of_nat k2) (src + of_nat k2) n2 (copied dest src k2 m) =
      (dest + of_nat k3, src + of_nat k3, n3, copied dest src k3 m)" "k3 + unat n3 = ?N"
    using loops(3) [of k2 n2 m] by (auto simp: reached_def)
  ultimately show ?thesis using loops(4) by (simp add: tkmc_memcpy_def)
qed

section \<open>Filling\<close>

lemma fill_word_value:
  fixes v :: "8 word"
  defines "w \<equiv> (ucast v * 0x01010101) :: UW"
  shows "ucast w = v" "ucast (drop_bit 8 w) = v" "ucast (drop_bit 16 w) = v" "ucast (drop_bit 24 w) = v"
proof -
  have v: "unat v < 256" using unsigned_less [of v] by simp
  have "unat (ucast v :: UW) = unat v" using v by (simp add: unsigned_ucast_eq take_bit_nat_eq_self)
  then have w: "unat w = unat v * 0x01010101"
    using v by (simp add: w_def unat_word_ariths)
  have b: "ucast (drop_bit k w) = v" if "unat v * 0x01010101 div 2 ^ k mod 256 = unat v" for k
  proof -
    have "unat (drop_bit k w) = unat v * 0x01010101 div 2 ^ k"
      by (simp add: unat_drop_bit_eq w flip: drop_bit_eq_div)
    then show ?thesis using that by (simp add: word_unat_eq_iff take_bit_eq_mod unsigned_ucast_eq)
  qed
  have low: "(unat v + 256 * y) mod 256 = unat v" for y using v by simp
  have up: "(x + N * y) div N = y" if "x < N" for x y N :: nat using that by simp
  show "ucast w = v" using b [of 0] low [of "unat v * 65793"] by (simp add: algebra_simps)
  show "ucast (drop_bit 8 w) = v"
    using b [of 8] up [of "unat v" 256 "unat v * 65793"] low [of "unat v * 257"] v by (simp add: algebra_simps)
  show "ucast (drop_bit 16 w) = v"
    using b [of 16] up [of "unat v * 257" 65536 "unat v * 257"] low [of "unat v"] v by (simp add: algebra_simps)
  show "ucast (drop_bit 24 w) = v"
    using b [of 24] up [of "unat v * 65793" 16777216 "unat v"] v by (simp add: algebra_simps)
qed

lemma store_word_filled:
  assumes "k + 4 \<le> 2 ^ 32"
  shows "store_word (d + of_nat k) (ucast v * 0x01010101) (filled d v k m) = filled d v (k + 4) m"
proof -
  have "store_word (d + of_nat k) (ucast v * 0x01010101) (filled d v k m) =
      (filled d v k m)(d + of_nat k := v, d + of_nat (Suc k) := v, d + of_nat (Suc (Suc k)) := v,
       d + of_nat (Suc (Suc (Suc k))) := v)"
    by (simp add: store_word_def fill_word_value algebra_simps)
  also have "\<dots> = filled d v (Suc (Suc (Suc (Suc k)))) m"
    using assms by (simp only: fill_byte)
  finally show ?thesis by (simp add: eval_nat_numeral)
qed

lemma set_block_filled:
  assumes "k + 32 \<le> 2 ^ 32"
  shows "set_block (d + of_nat k) (ucast v * 0x01010101) (filled d v k m) = filled d v (k + 32) m"
proof -
  have w: "store_word (d + of_nat k + of_nat i) (ucast v * 0x01010101) (filled d v (k + i) m) = filled d v (k + (i + 4)) m"
    if "i \<le> 28" for i
    using store_word_filled [of "k + i" d v m] assms that by (simp add: algebra_simps)
  show ?thesis
    using w [of 0] w [of 4] w [of 8] w [of 12] w [of 16] w [of 20] w [of 24] w [of 28]
    by (simp add: set_block_def Let_def)
qed

lemma set_bytes_filled:
  assumes "k + unat n = N" and "N < 2 ^ 32"
  shows "set_bytes (d + of_nat k) v n (filled d v k m) = filled d v N m"
  using assms(1)
proof (induction "unat n" arbitrary: k n)
  case 0
  then show ?case by (simp add: set_bytes.simps unat_eq_0)
next
  case (Suc l)
  have n: "n \<noteq> 0" using Suc.hyps(2) by auto
  then have l: "l = unat (n - 1)" using Suc.hyps(2) by (simp add: unat_minus_one)
  then show ?case
    using Suc.hyps(1) [OF l, of "Suc k"] Suc.hyps(2) Suc.prems n fill_byte [of k d v m] assms(2)
    by (subst set_bytes.simps) (simp add: algebra_simps)
qed

definition filled_to :: "addr \<Rightarrow> 8 word \<Rightarrow> nat \<Rightarrow> memory \<Rightarrow> addr \<times> UINT \<times> memory \<Rightarrow> bool" where
  "filled_to d v N m r \<longleftrightarrow> (\<exists>k n. r = (d + of_nat k, n, filled d v k m) \<and> k + unat n = N)"

lemma filled_toI: "k + unat n = N \<Longrightarrow> filled_to d v N m (d + of_nat k, n, filled d v k m)"
  by (auto simp: filled_to_def)

lemma set_to_boundary_filled:
  assumes "k + unat n = N" and "N < 2 ^ 32"
  shows "filled_to d v N m (set_to_boundary (d + of_nat k) v n (filled d v k m))"
  using assms(1)
proof (induction "unat n" arbitrary: k n)
  case 0
  then show ?case by (subst set_to_boundary.simps) (simp add: unat_eq_0 filled_toI)
next
  case (Suc l)
  have n: "n \<noteq> 0" using Suc.hyps(2) by auto
  then have l: "l = unat (n - 1)" using Suc.hyps(2) by (simp add: unat_minus_one)
  have "filled_to d v N m (set_to_boundary (d + of_nat k + 1) v (n - 1) (filled d v (Suc k) m))"
    using Suc.hyps(1) [OF l, of "Suc k"] Suc.hyps(2) Suc.prems l by (simp add: algebra_simps)
  then show ?case
    using Suc.prems fill_byte [of k d v m] assms(2) by (subst set_to_boundary.simps) (simp add: filled_toI)
qed

lemma set_blocks_filled:
  assumes "k + unat n = N" and "N < 2 ^ 32"
  shows "filled_to d v N m (set_blocks (d + of_nat k) (ucast v * 0x01010101) n (filled d v k m))"
  using assms(1)
proof (induction "unat n" arbitrary: k n rule: less_induct)
  case less
  show ?case
  proof (cases "32 \<le> n")
    case True
    then have u: "32 \<le> unat n" "unat (n - 32) = unat n - 32" by (simp_all add: word_le_nat_alt unat_dec)
    have "filled_to d v N m (set_blocks (d + of_nat (k + 32)) (ucast v * 0x01010101) (n - 32) (filled d v (k + 32) m))"
      by (rule less.hyps) (use u less.prems in auto)
    then show ?thesis
      using True u less.prems set_block_filled [of k d v m] assms(2)
      by (subst set_blocks.simps) (simp add: algebra_simps)
  qed (use less.prems in \<open>simp add: set_blocks.simps [of _ _ n] filled_toI\<close>)
qed

lemma set_words_filled:
  assumes "k + unat n = N" and "N < 2 ^ 32"
  shows "filled_to d v N m (set_words (d + of_nat k) (ucast v * 0x01010101) n (filled d v k m))"
  using assms(1)
proof (induction "unat n" arbitrary: k n rule: less_induct)
  case less
  show ?case
  proof (cases "4 \<le> n")
    case True
    then have u: "4 \<le> unat n" "unat (n - 4) = unat n - 4" by (simp_all add: word_le_nat_alt unat_dec)
    have "filled_to d v N m (set_words (d + of_nat (k + 4)) (ucast v * 0x01010101) (n - 4) (filled d v (k + 4) m))"
      by (rule less.hyps) (use u less.prems in auto)
    then show ?thesis
      using True u less.prems store_word_filled [of k d v m] assms(2)
      by (subst set_words.simps) (simp add: algebra_simps)
  qed (use less.prems in \<open>simp add: set_words.simps [of _ _ n] filled_toI\<close>)
qed

lemma tkmc_memset_filled: "tkmc_memset dest c n m = (dest, filled dest (word_of_int c) (unat n) m)"
proof -
  let ?N = "unat n" and ?v = "word_of_int c :: 8 word"
  have N: "?N < 2 ^ 32" using unsigned_less [of n] by simp
  have "set_bytes dest ?v n m = filled dest ?v ?N m" using set_bytes_filled [of 0 n ?N dest ?v m] N by simp
  moreover obtain k1 n1 where b: "set_to_boundary dest ?v n m = (dest + of_nat k1, n1, filled dest ?v k1 m)" "k1 + unat n1 = ?N"
    using set_to_boundary_filled [of 0 n ?N dest ?v m] N by (auto simp: filled_to_def)
  moreover obtain k2 n2 where c: "set_blocks (dest + of_nat k1) (ucast ?v * 0x01010101) n1 (filled dest ?v k1 m) =
      (dest + of_nat k2, n2, filled dest ?v k2 m)" "k2 + unat n2 = ?N"
    using set_blocks_filled [OF b(2) N, of dest ?v m] by (auto simp: filled_to_def)
  moreover obtain k3 n3 where "set_words (dest + of_nat k2) (ucast ?v * 0x01010101) n2 (filled dest ?v k2 m) =
      (dest + of_nat k3, n3, filled dest ?v k3 m)" "k3 + unat n3 = ?N"
    using set_words_filled [OF c(2) N, of dest ?v m] by (auto simp: filled_to_def)
  ultimately show ?thesis using set_bytes_filled [OF _ N] by (auto simp: tkmc_memset_def Let_def)
qed

section \<open>Properties\<close>

text \<open>
  C40: \<^verbatim>\<open>tkmc_memcpy\<close> of two areas with no byte in common, of any length and any alignment, returns its
  destination and copies exactly the bytes of the source, changing no other byte.
\<close>

theorem memcpy_is_bytewise:
  assumes "apart dest src (unat n)"
  shows "tkmc_memcpy dest src n m = (dest, \<lambda>x. if x - dest < n then m (src + (x - dest)) else m x)"
  using tkmc_memcpy_copied [OF assms, of m] by (simp add: copied_def word_less_nat_alt)

theorem memcpy_is_bytewise_witness:
  "snd (tkmc_memcpy 0x1002 0x2002 70 (\<lambda>x. ucast x)) 0x1041 = 0x41 \<and>
   snd (tkmc_memcpy 0x1002 0x2002 70 (\<lambda>x. ucast x)) 0x1048 = 0x48"
proof -
  have "apart 0x1002 0x2002 (unat (70 :: UINT))"
    unfolding apart_def
  proof (intro allI impI)
    fix i j :: nat
    assume i: "i < unat (70 :: UINT)" and j: "j < unat (70 :: UINT)"
    then have "unat (0x1002 + of_nat i :: addr) = 0x1002 + i" "unat (0x2002 + of_nat j :: addr) = 0x2002 + j"
      by (simp_all add: unat_word_ariths unat_of_nat take_bit_nat_eq_self)
    then show "0x1002 + of_nat i \<noteq> (0x2002 + of_nat j :: addr)" using i j by (auto dest: arg_cong [of _ _ unat])
  qed
  from memcpy_is_bytewise [OF this, of "\<lambda>x. ucast x"] show ?thesis by simp
qed

text \<open>
  \<^verbatim>\<open>tkmc_memset\<close>, for any value, length and alignment, returns its destination and sets exactly the
  bytes of the area to the low byte of the value.
\<close>

lemma memset_is_bytewise:
  "tkmc_memset dest c n m = (dest, \<lambda>x. if x - dest < n then word_of_int c else m x)"
  using tkmc_memset_filled [of dest c n m] by (simp add: filled_def word_less_nat_alt)

text \<open>A word stored in memory is read back as it was, and the bytes around it are kept.\<close>

lemma word_round_trip:
  "load_word a (store_word a w m) = w \<and> (\<forall>x. 4 \<le> x - a \<longrightarrow> store_word a w m x = m x)"
proof -
  have "a + 1 \<noteq> a" "a + 2 \<noteq> a" "a + 3 \<noteq> a" "a + 2 \<noteq> a + 1" "a + 3 \<noteq> a + 1" "a + 3 \<noteq> a + 2"
    by simp_all
  moreover have "(ucast (ucast w :: 8 word) :: UW) OR push_bit 8 (ucast (ucast (drop_bit 8 w) :: 8 word)) OR
      push_bit 16 (ucast (ucast (drop_bit 16 w) :: 8 word)) OR push_bit 24 (ucast (ucast (drop_bit 24 w) :: 8 word)) = w"
  proof (rule bit_word_eqI)
    fix k
    assume "k < LENGTH(32)"
    then obtain q d where k: "k = 8 * q + d" "d < 8" "q = 0 \<or> q = 1 \<or> q = 2 \<or> q = 3"
      by (intro that [of "k div 8" "k mod 8"]) auto
    show "bit ((ucast (ucast w :: 8 word) :: UW) OR push_bit 8 (ucast (ucast (drop_bit 8 w) :: 8 word)) OR
        push_bit 16 (ucast (ucast (drop_bit 16 w) :: 8 word)) OR push_bit 24 (ucast (ucast (drop_bit 24 w) :: 8 word))) k = bit w k"
      using k by (elim disjE) (simp_all add: bit_or_iff bit_push_bit_iff bit_ucast_iff bit_drop_bit_eq)
  qed
  moreover have "x \<noteq> a \<and> x \<noteq> a + 1 \<and> x \<noteq> a + 2 \<and> x \<noteq> a + 3" if "4 \<le> x - a" for x
    using that by (auto simp: word_le_nat_alt)
  ultimately show ?thesis by (auto simp: load_word_def store_word_def)
qed

text \<open>
  The narrow accesses agree with the wide ones: a word is its two halfwords and a halfword its two
  bytes, the low one first; and each reads back what it wrote and nothing beside it is changed.
\<close>

lemma narrow_accesses:
  "in_b a (out_b a b m) = b" "in_h a (out_h a h m) = h"
  "2 \<le> x - a \<Longrightarrow> out_h a h m x = m x" "x \<noteq> a \<Longrightarrow> out_b a b m x = m x"
  "out_h a h m = out_b (a + 1) (ucast (drop_bit 8 h)) (out_b a (ucast h) m)"
  "store_word a w m = out_h (a + 2) (ucast (drop_bit 16 w)) (out_h a (ucast w) m)"
  "load_word a m = ucast (in_h a m) OR push_bit 16 (ucast (in_h (a + 2) m))"
proof -
  have "a + 1 \<noteq> a" by simp
  moreover have "(ucast (ucast h :: UB) :: UH) OR push_bit 8 (ucast (ucast (drop_bit 8 h) :: UB)) = h"
    by (rule bit_word_eqI) (auto simp: bit_simps)
  ultimately show "in_h a (out_h a h m) = h" by (simp add: in_h_def out_h_def)
  have "x \<noteq> a" "x \<noteq> a + 1" if "2 \<le> x - a" using that by (auto simp: word_le_nat_alt)
  then show "2 \<le> x - a \<Longrightarrow> out_h a h m x = m x" by (simp add: out_h_def)
  have "(ucast (ucast (drop_bit k w) :: UH) :: UB) = ucast (drop_bit k w)"
    "(ucast (drop_bit 8 (ucast (drop_bit k w) :: UH)) :: UB) = ucast (drop_bit (k + 8) w)" for k
    by (rule bit_word_eqI; auto simp: bit_simps ac_simps)+
  from this [of 0] this [of 16] show "store_word a w m = out_h (a + 2) (ucast (drop_bit 16 w)) (out_h a (ucast w) m)"
    by (simp add: store_word_def out_h_def add.assoc)
  show "load_word a m = ucast (in_h a m) OR push_bit 16 (ucast (in_h (a + 2) m))"
    unfolding load_word_def in_h_def by (rule bit_word_eqI) (auto simp: bit_simps add.assoc dest: bit_imp_le_length)
qed (simp_all add: in_b_def out_b_def out_h_def)

end
