(* ===== verification/Spec2Isabelle.thy ===== *)
theory Spec2Isabelle
  imports TK_Context TK_Deadline TK_Memory
begin

text \<open>
  A verification of tsukumo-core, a real-time kernel with the \<mu>T-Kernel 3.0 interface for 32-bit
  RISC-V (\<^verbatim>\<open>src/kernel\<close>, \<^verbatim>\<open>src/include\<close>).

  \<^bold>\<open>The program.\<close> The kernel keeps fixed tables of control blocks for tasks, semaphores, event flags
  and mailboxes. Every block is on some circular doubly linked list through link members inside it:
  a free list, a ready queue (one per priority), the timer queue, or the queue of the object that
  its task waits for. Service calls run with interrupts masked, move blocks between these lists,
  choose the task that should run next and, where that is another one, raise the software interrupt;
  its trap saves the frame of the running task and resumes the frame of the chosen one. The timer
  interrupt counts the elapsed ticks and ends the waits whose time is over. External interrupts go
  through the PLIC to handlers that the application defines, and these may make service calls.

  \<^bold>\<open>The theories\<close>, in the order of their imports:

  \<^item> \<open>TK_Prelude\<close>: computations that may fail, and \<open>ok m P\<close> (\<open>m\<close> returns and its result satisfies \<open>P\<close>).
  \<^item> \<open>TK_Types\<close>: \<^verbatim>\<open>typedef.h.in\<close>, \<^verbatim>\<open>include/sys/config.h\<close>, \<^verbatim>\<open>include/sys/profile.h\<close>, \<^verbatim>\<open>include/tk\<close>,
    \<^verbatim>\<open>kernel/object_id.h\<close>: types, limits, attributes, error codes, milliseconds to ticks.
  \<^item> \<open>TK_List\<close>: \<^verbatim>\<open>kernel/list.h\<close>. The links are a heap of next and prev pointers (\<open>lheap\<close>); the operations
    read and write pointers in the order of the code and fail on a null or poisoned one. \<open>rep h Q\<close> says
    which node owns which ring in the heap, and the operations are shown to implement operations on
    sequences. The locale \<open>intrusive_lists\<close> is their contract.
  \<^item> \<open>TK_State\<close>: the control blocks of \<^verbatim>\<open>task.h\<close>, \<^verbatim>\<open>semaphore.h\<close>, \<^verbatim>\<open>event_flag.h\<close>, \<^verbatim>\<open>mailbox.h\<close>; the globals
    and registers (record \<open>kernel\<close>); \<open>DI\<close>, \<open>EI\<close>, \<open>isDI\<close> of \<^verbatim>\<open>sys/interrupt.h\<close>; \<open>tkmc_in_isr\<close>, \<open>tkmc_can_block\<close>
    of \<^verbatim>\<open>context.h\<close>; \<open>dispatch\<close> of \<^verbatim>\<open>dispatch.h\<close>; \<open>tkmc_get_highest_priority_task\<close> of \<^verbatim>\<open>task.c\<close>.
  \<^item> \<open>TK_Inv\<close>: the invariant \<open>kinv\<close> over control blocks and rings: for each task state, which lists its links
    are on; for each object, whether it is free or what its queue holds and in which order.
  \<^item> \<open>TK_Wait\<close>: \<open>tkmc_complete_wait\<close> (\<^verbatim>\<open>task.c\<close>) and \<open>tkmc_sem_serve_waiters\<close> (\<^verbatim>\<open>semaphore.c\<close>), which call each
    other.
  \<^item> \<open>TK_Sched\<close>: what the scheduler chooses, the invariant between two calls (\<open>sys_inv\<close>), and the critical
    section \<open>crit\<close> that a call runs in.
  \<^item> \<open>TK_Task\<close>: the calls of \<^verbatim>\<open>task.c\<close>. \<open>TK_Timer\<close>: \<^verbatim>\<open>timer.c\<close>. \<open>TK_Object\<close>: what the three kinds of objects
    share (locale \<open>insertion_scan\<close>: the ordered insertion that the source writes out four times; locale
    \<open>object_table\<close>: taking a control block off its free list, which it writes out three times).
    \<open>TK_Semaphore\<close>, \<open>TK_EventFlag\<close>, \<open>TK_Mailbox\<close>: \<^verbatim>\<open>semaphore.c\<close>, \<^verbatim>\<open>event_flag.c\<close>, \<^verbatim>\<open>mailbox.c\<close>.
  \<^item> \<open>TK_IntCtl\<close>: \<^verbatim>\<open>intctl.c\<close>, the handler table and the PLIC registers. \<open>TK_Memory\<close>: \<^verbatim>\<open>memcpy.c\<close>, \<^verbatim>\<open>memset.c\<close>,
    and the byte and halfword accesses of \<^verbatim>\<open>sys/ioport.h\<close>.
  \<^item> \<open>TK_Start\<close>, \<open>TK_Boot\<close>: \<^verbatim>\<open>start.c\<close> (\<open>tkmc_start\<close>, \<open>schedule\<close>), the stops of \<^verbatim>\<open>panic.c\<close>, and what the trap
    entries of \<^verbatim>\<open>asm/rv32/start.S\<close> do to the kernel state; the boot ends in the invariant.
  \<^item> \<open>TK_Frame\<close>: what each call leaves alone. The locale \<open>call_frame\<close> is any property of the state that the
    elementary changes of a call keep; the calls are gone through once, inside it, and each such
    property is an interpretation. \<open>TK_System\<close>: calls, resumptions, traps and the time that passes in between
    as one step relation, with the locale \<open>service\<close> for the contract of a call, interpreted for each of them.
  \<^item> \<open>TK_Samples\<close>, \<open>TK_Results\<close>: concrete states that the model reaches, and the effect of creating and
    starting tasks. \<open>TK_Idle\<close>: the idle loop of \<^verbatim>\<open>asm/rv32/idl_tsk.S\<close>, instruction by instruction with the traps
    that come in between (\<open>idle_run\<close>), and the initial task of \<^verbatim>\<open>ini_tsk.c\<close>.
  \<^item> \<open>TK_Deadline\<close>: the time limits of waits over whole runs, in terms of the hardware clock: the deadline of
    a wait (\<open>due\<close>), what keeps it, and when the timer interrupt ends the wait.
  \<^item> \<open>TK_Port\<close>: the addresses of \<^verbatim>\<open>asm/rv32/address.h\<close> and the word accesses of \<^verbatim>\<open>sys/ioport.h\<close> on the registers of
    the board, which are the fields of the state that the other theories read and write.
  \<^item> \<open>TK_Trap\<close>: a processor (record \<open>cpu\<close>: registers, program counter, mode, mepc, mie, and the kernel state),
    the instructions that \<^verbatim>\<open>asm/rv32/start.S\<close> uses, its macros as lists of instructions (\<open>SAVE_FRAME\<close>,
    \<open>RESTORE_FRAME\<close>, \<open>ENTER_ISR\<close>, \<open>LEAVE_ISR\<close>), its entries, the vector table, the reset entry and
    \<^verbatim>\<open>launch_task.S\<close>; what each entry does to the registers of the tasks.
  \<^item> \<open>TK_Machine\<close>: the entries refine the steps of \<open>TK_System\<close>; the first entry into a task. \<open>TK_Context\<close>: the
    registers of a task over a whole run.

  \<^bold>\<open>How the code is read.\<close> A function that changes state takes the record \<open>kernel\<close> and returns an option:
  \<open>None\<close> where the C code follows a bad pointer, leaves an array or loops for ever, so that a result
  \<open>Some\<close> is memory safety and termination. A call gives an \<open>outcome\<close>: \<open>Return\<close> with its value, \<open>Block\<close> when
  it asked for a switch and the rest of it runs after the task is resumed (\<open>tk_dly_tsk_resume\<close>,
  \<open>take_wupcause\<close>, \<open>tk_wai_flg_resume\<close>, \<open>tk_rcv_mbx_resume\<close>), or \<open>Halt\<close> when it stops the system on
  purpose. A value stored through a pointer argument is part of the result. Unsigned integers are
  words of their width; signed ones are integers within bounds that the code checks. Pointers to
  control blocks are indices into the tables.

  \<^bold>\<open>Loops and fuel.\<close> No fuel is used. Loops over a list or a device are \<open>partial_function\<close>s into the option
  type and each is proved to return from every state of the invariant; loops over a fixed range are
  structural. The two functions that call each other are unfolded once, and the theorem
  \<open>complete_wait_recursive\<close> shows that the result satisfies both equations of the code, so one
  unfolding is enough.

  \<^bold>\<open>What is assumed of the outside.\<close> \<open>clock_ok\<close>: the machine timer does not run backwards, advances by at
  most 1000 counts (a hundredth of a tick) between two instants in a row, and stays below half of its
  range. Reading the time takes an instant; any number of instants pass while the application runs.
  \<open>on_time\<close>, for the statements on time limits: a step ends less than \<open>2 ^ 31\<close> ticks (248 days) after the timer
  interrupt was due. \<open>owned_msg\<close>: a message that is sent is on no queue (the interface demands it). The idle task
  makes no call that waits (\<^verbatim>\<open>idl_tsk.S\<close>). The stacks given at boot pass the checks of \<open>tk_cre_tsk\<close>.
  Interrupt handlers are a parameter of the external interrupt of \<open>TK_IntCtl\<close> and of \<open>TK_Trap\<close>; in the step
  relation the calls that they make are steps between \<open>external_enter\<close> and \<open>external_exit\<close>. C code keeps the
  registers of the calling convention and writes, when it is called by a trap entry, only the kernel's
  variables and the interrupt stack (\<open>c_called\<close>). The stacks of the tasks, the interrupt stack, the depth
  counter and the CLINT do not overlap where a frame is pushed (\<open>stacks_ok\<close>).

  \<^bold>\<open>What is shown.\<close> Of every state that boot, calls, masking and traps reach: no call and no trap gets stuck,
  the best runnable task runs or is about to, the ready queues hold exactly the runnable tasks, and
  no waiter is left behind whose condition is met, and every list holds what the code takes its links
  for. Of the trap entries: whatever trap is taken, the kernel makes one of its steps, and a task that
  was interrupted goes on with the registers it had, however many other tasks ran in between. Of the
  boot: it gets to the first instruction of the initial task. Of the idle task: it stops the processor
  only when nothing else can run, with interrupts masked from the check on, and a time limit that is
  reached ends the stop. Of each service call: its result on every branch, refusals included (the
  definitions with names in \<open>_result\<close>); of the second halves of the calls that blocked and of
  \<open>tkmc_yield\<close>: that they return and keep the invariant. Of the interrupt controller: what \<open>tk_def_int\<close>
  answers and does to the next interrupt, and when an interrupt is completed. Of the timer: the time is
  never torn, no tick is lost, and over any run no wait of \<open>ms\<close> milliseconds times out
  before they have passed, nor later than the timer interrupt that the compare register asks for by
  \<open>ms + 19\<close> milliseconds. Of the lists: refinement to sequences. Of the block routines: equality with the byte-by-byte loops.

  One theorem, \<open>restart_before_switch\<close>, shows a behaviour that the code does not mean: a task that ends
  and is started again by an interrupt handler before its switch is taken resumes its old frame.

  \<^bold>\<open>Not modelled\<close>: the write of \<^verbatim>\<open>mtvec\<close> at reset (the vector table is a constant); the bytes
  that \<open>clear_bss\<close> zeroes, other than as the fields of the state (the stacks that lie there are not zeroed); traps
  between the opening of the mask at the end of \<open>tkmc_start\<close> and the launch of the first task; the hooks that a
  board may put in the place of the weak ones of \<^verbatim>\<open>panic.c\<close> (a call of one is the outcome \<open>Halt\<close>); the pending bits of
  the PLIC; the stack use of the C code
  itself; byte and halfword accesses to device registers, which the kernel does not make; the
  declarations of the headers, and constants that no code uses; the application, the build and the tests.
\<close>

section \<open>The system\<close>

lemma reachable_inv:
  assumes "reachable im s"
  obtains Q where "rep (links s) Q" and "ginv s Q" and "kinv s Q"
  using reachable_alive [OF assms] by (auto simp: alive_def sys_inv_def ginv_def)

lemma ok_pairE:
  assumes "ok m P"
  obtains x y where "m = Some (x, y)" and "P (x, y)"
  using assms by (auto simp: ok_def)

text \<open>
  C1: the kernel never gets stuck. In every state that boot, service calls, masking and the
  traps can reach, every call that its caller may make returns (or is switched away from, or
  stops the system on purpose) without following a bad link, a pending switch is served, the
  timer interrupt and the end of an external interrupt are served, and after each of them the
  kernel is again in such a state.
\<close>

theorem reachable_never_stuck:
  assumes "reachable im s"
  shows "alive s \<and> (\<forall>c. enabled c s \<longrightarrow> (\<exists>r s'. perform c s = Some (r, s') \<and> alive s')) \<and>
    (msip s \<longrightarrow> (\<forall>a. \<exists>f s'. mtrap_handler a s = Some (f, s') \<and> alive s' \<and> \<not> msip s')) \<and>
    (\<forall>a. \<exists>f s'. timer_interrupt a s = Some (f, s') \<and> alive s' \<and> \<not> msip s') \<and>
    (\<forall>a. \<exists>f s'. external_exit a s = Some (f, s') \<and> alive s' \<and> (isr_depth s = 1 \<longrightarrow> \<not> msip s'))"
proof -
  have a: "alive s" by (rule reachable_alive [OF assms])
  have "\<exists>r s'. perform c s = Some (r, s') \<and> alive s'" if "enabled c s" for c
    by (rule ok_pairE [OF perform_alive [OF a that]]) auto
  moreover have "\<exists>f s'. mtrap_handler x s = Some (f, s') \<and> alive s' \<and> \<not> msip s'" if "msip s" for x
    by (rule ok_pairE [OF mtrap_handler_alive [OF a that, of x]]) auto
  moreover have "\<exists>f s'. timer_interrupt x s = Some (f, s') \<and> alive s' \<and> \<not> msip s'" for x
    by (rule ok_pairE [OF timer_interrupt_alive [OF a, of x]]) auto
  moreover have "\<exists>f s'. external_exit x s = Some (f, s') \<and> alive s' \<and> (isr_depth s = 1 \<longrightarrow> \<not> msip s')" for x
    by (rule ok_pairE [OF external_exit_alive [OF a, of x]]) auto
  ultimately show ?thesis using a by blast
qed

theorem reachable_never_stuck_witness:
  "\<exists>r s'. perform (Sig_sem 1 1) sample_boot = Some (r, s') \<and> alive s'"
  using reachable_never_stuck [OF sample_reachable] by (auto dest: spec [of _ "Sig_sem 1 1"])

text \<open>
  C2: the scheduling guarantee. In every reachable state with no switch pending the current task
  is running, nobody else is, and no runnable task has a better priority; with a switch pending
  the task chosen to run next is such a task.
\<close>

theorem reachable_runs_best:
  assumes "reachable im s"
  shows "\<exists>n. (if msip s then next_tsk s = Some n else running s n) \<and> runnable (tcbs s n) \<and>
    (\<forall>i < CFN_MAX_TSKID. runnable (tcbs s i) \<longrightarrow> itskpri (tcbs s n) \<le> itskpri (tcbs s i)) \<and>
    (\<forall>i < CFN_MAX_TSKID. tskstat (tcbs s i) = TTS_RUN \<longrightarrow> current s = Some i)"
proof -
  obtain Q where R: "rep (links s) Q" and G: "ginv s Q" and K: "kinv s Q" by (rule reachable_inv [OF assms])
  have "alive s" by (rule reachable_alive [OF assms])
  then obtain c where c: "current s = Some c" and i: "runnable (tcbs s IDLE)" by (auto simp: alive_def)
  obtain n where n: "top_ready Q = Some n" using top_ready_exists [OF K, of IDLE] i by (auto simp: IDLE_def)
  have "if msip s then next_tsk s = Some n else running s n"
    using G c n by (auto simp: ginv_def sched_ok_def running_def)
  moreover have "\<forall>i < CFN_MAX_TSKID. tskstat (tcbs s i) = TTS_RUN \<longrightarrow> current s = Some i"
    using kinvD(3) [OF K] by (auto simp: cur_ok_def)
  ultimately show ?thesis using top_ready_best [OF R K n] by blast
qed

theorem reachable_runs_best_witness:
  "\<exists>n. running sample_boot n \<and> (\<forall>i < CFN_MAX_TSKID. runnable (tcbs sample_boot i) \<longrightarrow>
    itskpri (tcbs sample_boot n) \<le> itskpri (tcbs sample_boot i))"
  using reachable_runs_best [OF sample_reachable] sample_boot_inv(5) by auto

text \<open>
  C3: the ready queues are what their name says. In every reachable state, walking the ready queue
  of a priority along its links ends, meets no task twice, and meets exactly the tasks of that
  priority that are ready or running.
\<close>

theorem reachable_ready_queues:
  assumes "reachable im s" and "p < CFN_MAX_PRI"
  shows "\<exists>is. list_of (ReadyQ p) (links s) = Some (map TcbHead is) \<and> distinct is \<and>
    set is = {i. i < CFN_MAX_TSKID \<and> runnable (tcbs s i) \<and> itskpri (tcbs s i) = int p + 1}"
proof -
  obtain Q where R: "rep (links s) Q" and K: "kinv s Q" by (rule reachable_inv [OF assms(1)])
  obtain ns where q: "Q (ReadyQ p) = Some ns" using kinvD(2) [OF K] assms(2) by (auto simp: static_def)
  have "\<exists>i. n = TcbHead i" if "n \<in> set ns" for n
    using typed_in_ring [OF kinvD(1) [OF K], of "ReadyQ p" n] q that by (auto simp: in_ring_def split: node.splits)
  then obtain ks where ks: "ns = map TcbHead ks" by (metis ex_map_conv)
  have "i \<in> set ks \<longleftrightarrow> in_ring Q (ReadyQ p) (TcbHead i)" for i using q ks by (auto simp: in_ring_def)
  moreover have "in_ring Q (ReadyQ p) (TcbHead i)"
    if "i < CFN_MAX_TSKID" "runnable (tcbs s i)" "itskpri (tcbs s i) = int p + 1" for i
    using runnable_member [OF K that(1,2)] that(3) by simp
  ultimately have "set ks = {i. i < CFN_MAX_TSKID \<and> runnable (tcbs s i) \<and> itskpri (tcbs s i) = int p + 1}"
    using ready_member [OF R K, of p] by auto
  then show ?thesis using list_of_rep [OF R q] repD(2) [OF R q] ks by (auto simp: distinct_map)
qed

theorem reachable_ready_queues_witness:
  "\<exists>is. list_of (ReadyQ 0) (links sample_boot) = Some (map TcbHead is) \<and>
    set is = {i. i < CFN_MAX_TSKID \<and> runnable (tcbs sample_boot i) \<and> itskpri (tcbs sample_boot i) = 1}"
  using reachable_ready_queues [OF sample_reachable, of 0] by auto

text \<open>
  C9: no semaphore waiter is forgotten. In every reachable state the count of a semaphore that
  exists is within its bounds, the tasks on its queue are exactly the tasks that wait for it, and
  none of them could go on: the first request is larger than the count (\<open>TA_FIRST\<close>), or every
  request is (\<open>TA_CNT\<close>). With \<open>TA_TPRI\<close> the queue is in the order of the priorities.
\<close>

theorem reachable_semaphores:
  assumes "reachable im s" and "j < CFN_MAX_SEMID" and "exists_id (semid (semcbs s j))"
  shows "0 \<le> semcnt (semcbs s j) \<and> semcnt (semcbs s j) \<le> maxsem (semcbs s j) \<and>
    (\<exists>is. list_of (SemQ j) (links s) = Some (map TcbWait is) \<and> distinct is \<and>
      set is = {i. i < CFN_MAX_TSKID \<and> tskstat (tcbs s i) = TTS_WAI \<and> tskwait (tcbs s i) = TTW_SEM \<and>
        (\<exists>c. winfo (tcbs s i) = WSem c j)} \<and>
      held_back (takes_first s j) (semcnt (semcbs s j)) (map (\<lambda>i. wait_req s (TcbWait i)) is) \<and>
      (sematr (semcbs s j) AND TA_TPRI \<noteq> 0 \<longrightarrow> sorted (map (\<lambda>i. itskpri (tcbs s i)) is)))"
proof -
  obtain Q where R: "rep (links s) Q" and G: "ginv s Q" and K: "kinv s Q" by (rule reachable_inv [OF assms(1)])
  note D = sem_okD [OF K assms(2,3)]
  obtain ks where q: "Q (SemQ j) = Some (map TcbWait ks)" and o: "sem_queue_ok s j (map TcbWait ks)"
    using D(5) queue_tasks(1) [OF K] by blast
  have mem: "i \<in> set ks \<longleftrightarrow> in_ring Q (SemQ j) (TcbWait i)" for i using q by (auto simp: in_ring_def)
  have "in_ring Q (SemQ j) (TcbWait i)" if "i < CFN_MAX_TSKID" "tskstat (tcbs s i) = TTS_WAI"
    "tskwait (tcbs s i) = TTW_SEM" "winfo (tcbs s i) = WSem c j" for i c
    using kinvD(4) [OF K that(1)] that by (auto simp: task_ok_def wait_ok_def)
  then have "set ks = {i. i < CFN_MAX_TSKID \<and> tskstat (tcbs s i) = TTS_WAI \<and> tskwait (tcbs s i) = TTW_SEM \<and>
      (\<exists>c. winfo (tcbs s i) = WSem c j)}"
    using waiter_state(1,2) [OF R K, of "SemQ j"] sem_waiter [OF R K] by (auto simp: mem)
  moreover have "held_back (takes_first s j) (semcnt (semcbs s j)) (map (\<lambda>i. wait_req s (TcbWait i)) ks)"
  proof -
    have "held_back (takes_first s j) (semcnt (semcbs s j)) (map (wait_req s) (map TcbWait ks))"
      using G q by (simp only: ginv_def sem_served_def)
    then show ?thesis by (simp only: map_map o_def)
  qed
  moreover have "sematr (semcbs s j) AND TA_TPRI \<noteq> 0 \<longrightarrow> sorted (map (\<lambda>i. itskpri (tcbs s i)) ks)"
    using o by (simp add: sem_queue_ok_def pri_sorted_def sorted_wrt_map sorted_map)
  ultimately show ?thesis
    using D list_of_rep [OF R q] repD(2) [OF R q] by (auto simp: distinct_map)
qed

theorem reachable_semaphores_witness:
  "\<exists>is. list_of (SemQ 0) (links sample_sem) = Some (map TcbWait is) \<and>
    held_back (takes_first sample_sem 0) 1 (map (\<lambda>i. wait_req sample_sem (TcbWait i)) is)"
  using reachable_semaphores [of sample_image sample_sem 0] sample_sem
  by (auto simp: sample_next_def exists_id_def NOEXS_MASK_def)

text \<open>
  C10: no waiter of an event flag is forgotten. In every reachable state each task on the queue of
  a flag that exists waits for a flag, and the pattern of the flag does not satisfy it; a flag
  without \<open>TA_WMUL\<close> has at most one waiter; with \<open>TA_TPRI\<close> the queue is in the order of the priorities.
\<close>

theorem reachable_event_flags:
  assumes "reachable im s" and "j < CFN_MAX_FLGID" and "exists_id (flgid (flgcbs s j))"
  shows "\<exists>is. list_of (FlgQ j) (links s) = Some (map TcbWait is) \<and> distinct is \<and>
    (\<forall>i \<in> set is. tskstat (tcbs s i) = TTS_WAI \<and> tskwait (tcbs s i) = TTW_FLG \<and>
      (\<exists>w m g. winfo (tcbs s i) = WFlg w m g \<and> \<not> check_ptn (flgptn (flgcbs s j)) w m)) \<and>
    (flgatr (flgcbs s j) AND TA_WMUL = 0 \<longrightarrow> length is \<le> 1) \<and>
    (flgatr (flgcbs s j) AND TA_TPRI \<noteq> 0 \<longrightarrow> sorted (map (\<lambda>i. itskpri (tcbs s i)) is))"
proof -
  obtain Q where R: "rep (links s) Q" and G: "ginv s Q" and K: "kinv s Q" by (rule reachable_inv [OF assms(1)])
  obtain ks where q: "Q (FlgQ j) = Some (map TcbWait ks)" and o: "flg_queue_ok s j (map TcbWait ks)"
    using flg_okD [OF K assms(2,3)] queue_tasks(2) [OF K] by blast
  have "tskstat (tcbs s i) = TTS_WAI \<and> tskwait (tcbs s i) = TTW_FLG \<and>
      (\<exists>w m g. winfo (tcbs s i) = WFlg w m g \<and> \<not> check_ptn (flgptn (flgcbs s j)) w m)" if "i \<in> set ks" for i
  proof -
    have i: "in_ring Q (FlgQ j) (TcbWait i)" using q that by (auto simp: in_ring_def)
    then have "\<not> check_ptn (flgptn (flgcbs s j)) (waiptn (winfo (tcbs s i))) (wfmode (winfo (tcbs s i)))"
      using G by (simp add: ginv_def flg_served_def)
    then show ?thesis using waiter_state(2) [OF R K i] flg_waiter [OF R K i] by auto
  qed
  moreover have "flgatr (flgcbs s j) AND TA_TPRI \<noteq> 0 \<longrightarrow> sorted (map (\<lambda>i. itskpri (tcbs s i)) ks)"
    using o by (simp add: flg_queue_ok_def pri_sorted_def sorted_wrt_map sorted_map)
  ultimately show ?thesis
    using o list_of_rep [OF R q] repD(2) [OF R q] by (auto simp: distinct_map flg_queue_ok_def)
qed

theorem reachable_event_flags_witness:
  "\<exists>is. list_of (FlgQ 0) (links sample_flg) = Some (map TcbWait is) \<and>
    (\<forall>i \<in> set is. \<exists>w m g. winfo (tcbs sample_flg i) = WFlg w m g \<and> \<not> check_ptn 6 w m)"
  using reachable_event_flags [of sample_image sample_flg 0] sample_flg
  by (auto simp: sample_next_def exists_id_def NOEXS_MASK_def)

text \<open>
  C11: a mailbox never holds both. In every reachable state a mailbox that exists has no message
  while a task waits to receive one, its waiting tasks are in the order of their priorities
  (\<open>TA_TPRI\<close>), and its messages in the order of theirs (\<open>TA_MPRI\<close>).
\<close>

theorem reachable_mailboxes:
  assumes "reachable im s" and "j < CFN_MAX_MBXID" and "exists_id (mbxid (mbxcbs s j))"
  shows "\<exists>is ms. list_of (MbxWaitQ j) (links s) = Some (map TcbWait is) \<and>
    list_of (MbxMsgQ j) (links s) = Some (map MsgLink ms) \<and> distinct is \<and> distinct ms \<and> (is = [] \<or> ms = []) \<and>
    (\<forall>i \<in> set is. tskstat (tcbs s i) = TTS_WAI \<and> tskwait (tcbs s i) = TTW_MBX) \<and>
    (mbxatr (mbxcbs s j) AND TA_TPRI \<noteq> 0 \<longrightarrow> sorted (map (\<lambda>i. itskpri (tcbs s i)) is)) \<and>
    (mbxatr (mbxcbs s j) AND TA_MPRI \<noteq> 0 \<longrightarrow> sorted (map (msgpri s) ms))"
proof -
  obtain Q where R: "rep (links s) Q" and G: "ginv s Q" and K: "kinv s Q" by (rule reachable_inv [OF assms(1)])
  obtain ks where q: "Q (MbxWaitQ j) = Some (map TcbWait ks)" and o: "mbx_queue_ok s Q j (map TcbWait ks)"
    using mbx_okD [OF K assms(2,3)] queue_tasks(3) [OF K] by blast
  obtain ns where n: "Q (MbxMsgQ j) = Some ns" using kinvD(2) [OF K] assms(2) by (auto simp: static_def)
  have "\<exists>m. x = MsgLink m" if "x \<in> set ns" for x
    using typed_in_ring [OF kinvD(1) [OF K], of "MbxMsgQ j" x] n that by (auto simp: in_ring_def split: node.splits)
  then obtain ms where ms: "ns = map MsgLink ms" by (metis ex_map_conv)
  have "tskstat (tcbs s i) = TTS_WAI \<and> tskwait (tcbs s i) = TTW_MBX" if "i \<in> set ks" for i
    using that q waiter_state(2) [OF R K, of "MbxWaitQ j" i] mbx_waiter [OF R K, of j i] by (auto simp: in_ring_def)
  moreover have "mbxatr (mbxcbs s j) AND TA_TPRI \<noteq> 0 \<longrightarrow> sorted (map (\<lambda>i. itskpri (tcbs s i)) ks)"
    "mbxatr (mbxcbs s j) AND TA_MPRI \<noteq> 0 \<longrightarrow> sorted (map (msgpri s) ms)" "ks = [] \<or> ms = []"
    using o n ms by (auto simp: mbx_queue_ok_def pri_sorted_def msgs_sorted_def sorted_wrt_map sorted_map)
  ultimately show ?thesis
    using list_of_rep [OF R q] list_of_rep [OF R n] repD(2) [OF R q] repD(2) [OF R n] ms
    by (auto simp: distinct_map)
qed

theorem reachable_mailboxes_witness:
  "\<exists>is ms. list_of (MbxWaitQ 0) (links sample_mbx) = Some (map TcbWait is) \<and>
    list_of (MbxMsgQ 0) (links sample_mbx) = Some (map MsgLink ms) \<and> sorted (map (msgpri sample_mbx) ms)"
  using reachable_mailboxes [of sample_image sample_mbx 0] sample_mbx
  by (auto simp: sample_next_def exists_id_def NOEXS_MASK_def attr_defs)

text \<open>The heads that own a list in a state, and what the code takes the members of a list for.\<close>

definition kernel_list :: "kernel \<Rightarrow> node \<Rightarrow> bool" where
  "kernel_list s q \<longleftrightarrow> (case q of ReadyQ p \<Rightarrow> p < CFN_MAX_PRI | MbxMsgQ j \<Rightarrow> j < CFN_MAX_MBXID
     | SemQ j \<Rightarrow> j < CFN_MAX_SEMID \<and> exists_id (semid (semcbs s j)) | FlgQ j \<Rightarrow> j < CFN_MAX_FLGID \<and> exists_id (flgid (flgcbs s j))
     | MbxWaitQ j \<Rightarrow> j < CFN_MAX_MBXID \<and> exists_id (mbxid (mbxcbs s j))
     | FreeTcb \<Rightarrow> True | TimerQ \<Rightarrow> True | FreeSem \<Rightarrow> True | FreeFlg \<Rightarrow> True | FreeMbx \<Rightarrow> True | _ \<Rightarrow> False)"

definition within :: "nat \<Rightarrow> nat option \<Rightarrow> bool" where
  "within n x \<longleftrightarrow> (case x of Some i \<Rightarrow> i < n | None \<Rightarrow> False)"

fun member_kind :: "node \<Rightarrow> node \<Rightarrow> bool" where
  "member_kind (SemQ _) n = within CFN_MAX_TSKID (tcb_of_wait n)"
| "member_kind (FlgQ _) n = within CFN_MAX_TSKID (tcb_of_wait n)"
| "member_kind (MbxWaitQ _) n = within CFN_MAX_TSKID (tcb_of_wait n)"
| "member_kind (MbxMsgQ _) n = (msg_from_link n \<noteq> None)"
| "member_kind FreeSem n = within CFN_MAX_SEMID (semcb_of_link n)"
| "member_kind FreeFlg n = within CFN_MAX_FLGID (flgcb_of_link n)"
| "member_kind FreeMbx n = within CFN_MAX_MBXID (mbxcb_of_link n)"
| "member_kind _ n = within CFN_MAX_TSKID (tcb_of_head n)"

text \<open>
  C12: every list of the kernel holds what the code takes its links for. In every reachable state the
  walk along a list head ends, meets no link twice, and meets only links of the members that the
  code's \<^verbatim>\<open>container_of\<close> on that list expects: the control blocks of tasks by their head on the ready
  queues, the timer queue and the free list, by their wait link on the queues of objects, messages
  on the message queues, and free control blocks of the right kind on the other free lists; every
  index is within its table.
\<close>

theorem reachable_lists_typed:
  assumes "reachable im s" and "kernel_list s q"
  shows "\<exists>ns. list_of q (links s) = Some ns \<and> distinct ns \<and> list_all (member_kind q) ns"
proof -
  obtain Q where R: "rep (links s) Q" and K: "kinv s Q" by (rule reachable_inv [OF assms(1)])
  have "Q (SemQ j) \<noteq> None" if "j < CFN_MAX_SEMID" "exists_id (semid (semcbs s j))" for j
    using kinvD(5) [OF K that(1)] that(2) by (auto simp: sem_ok_def Let_def)
  moreover have "Q (FlgQ j) \<noteq> None" if "j < CFN_MAX_FLGID" "exists_id (flgid (flgcbs s j))" for j
    using kinvD(6) [OF K that(1)] that(2) by (auto simp: flg_ok_def Let_def)
  moreover have "Q (MbxWaitQ j) \<noteq> None" if "j < CFN_MAX_MBXID" "exists_id (mbxid (mbxcbs s j))" for j
    using kinvD(7) [OF K that(1)] that(2) by (auto simp: mbx_ok_def Let_def)
  ultimately have "Q q \<noteq> None"
    using assms(2) kinvD(2) [OF K] by (cases q) (auto simp: kernel_list_def static_def)
  then obtain ns where q: "Q q = Some ns" by blast
  have "member_kind q n" if "n \<in> set ns" for n
  proof -
    have "fits q n" using typed_in_ring [OF kinvD(1) [OF K]] q that by (simp add: in_ring_def)
    then show ?thesis using assms(2) by (cases q; cases n) (auto simp: kernel_list_def within_def)
  qed
  then show ?thesis using list_of_rep [OF R q] repD(2) [OF R q] by (auto simp: list_all_iff)
qed

theorem reachable_lists_typed_witness:
  "\<exists>ns. list_of (SemQ 0) (links sample_sem) = Some ns \<and> distinct ns \<and> list_all (member_kind (SemQ 0)) ns"
  by (rule reachable_lists_typed [of sample_image])
    (use sample_sem(1,2) in \<open>simp_all add: sample_next_def kernel_list_def exists_id_def NOEXS_MASK_def\<close>)

section \<open>Startup and task switches\<close>

text \<open>
  C4: a task switch does what it is for. A software trap with a switch pending saves the frame of
  the task that ran, resumes the frame saved for a task of the best priority among those that can
  run (the interrupted frame itself when that is the task that ran), marks it running, and leaves
  no switch pending; no other task gains or loses the ability to run.
\<close>

theorem switch_resumes_best:
  assumes "alive s" and "msip s" and "current s = Some c"
  shows "ok (mtrap_handler a s) (\<lambda>(f, s'). alive s' \<and> \<not> msip s' \<and> isr_depth s' = isr_depth s \<and> sp (tcbs s' c) = a \<and>
    (\<exists>n. running s' n \<and> f = (if n = c then a else sp (tcbs s n)) \<and>
      (\<forall>i < CFN_MAX_TSKID. runnable (tcbs s' i) \<longrightarrow> itskpri (tcbs s' n) \<le> itskpri (tcbs s' i))) \<and>
    (\<forall>i < CFN_MAX_TSKID. runnable (tcbs s' i) \<longleftrightarrow> runnable (tcbs s i)))"
  by (rule ok_mono [OF mtrap_handler_alive [OF assms(1,2)]]) (use assms(3) in \<open>auto simp: resumed_def\<close>)

theorem switch_resumes_best_witness:
  "ok (mtrap_handler 0x80010100 sample_ended) (\<lambda>(f, s'). \<not> msip s' \<and> sp (tcbs s' 0) = 0x80010100)"
  by (rule ok_mono [OF switch_resumes_best [OF sample_ended(1-3)]]) auto

text \<open>
  C36: a task that ends and is started again before the switch is lost. \<^verbatim>\<open>tk_ext_tsk\<close> only
  asks for the switch. When an external interrupt is taken first and its handler starts the same
  task, \<^verbatim>\<open>tk_sta_tsk\<close> succeeds and points the task at a fresh frame, but the exit of the
  interrupt then saves the interrupted frame over it: the restarted task is ready to resume inside
  \<^verbatim>\<open>tk_ext_tsk\<close> instead of at its entry.
\<close>

theorem restart_before_switch:
  assumes "alive s" and "running s c" and "c \<noteq> IDLE" and "settled s" and "int_enabled s" and "\<not> tkmc_in_isr s"
  shows "ok (tk_ext_tsk s) (\<lambda>(r, s1). r = Block \<and> ok (tk_sta_tsk (int c + 1) stacd (external_enter s1))
    (\<lambda>(r, s2). r = Return E_OK \<and> sp (tcbs s2 c) = initial_sp (tcbs s c) \<and> ok (external_exit frame s2)
      (\<lambda>(f, s'). runnable (tcbs s' c) \<and> sp (tcbs s' c) = frame)))"
  by (rule restart_overwrites [OF assms])

theorem restart_before_switch_witness:
  "ok (tk_ext_tsk sample_boot) (\<lambda>(r, s1). r = Block \<and> ok (tk_sta_tsk 1 0 (external_enter s1))
    (\<lambda>(r, s2). r = Return E_OK \<and> sp (tcbs s2 0) = 0x80010180 \<and> ok (external_exit 0x80010120 s2)
      (\<lambda>(f, s'). runnable (tcbs s' 0) \<and> sp (tcbs s' 0) = 0x80010120)))"
proof -
  have "initial_sp (tcbs sample_boot 0) = 0x80010180"
    using sample_start(2) by (simp add: boot_ok_def started_tcb_def new_tcb_def Let_def ini_ctsk_def sample_image_def
      STACK_BYTES_def FRAME_SIZE_def)
  then show ?thesis
    using restart_before_switch [OF sample_alive sample_boot_inv(2) _ sample_boot_inv(7) sample_boot_tasks(4,5), of 0 "0x80010120"]
    by (simp add: IDLE_def)
qed

section \<open>Tasks\<close>

text \<open>
  C33: creating a task. A packet with a bad attribute, a missing entry or stack, a priority out of
  range, a stack too small, wrapping or misaligned is refused with its error, and so is a full
  table, and nothing changes. Otherwise the first free control block leaves the free list and
  becomes a dormant task whose stack pointer leaves room for one frame.
\<close>

theorem cre_tsk_creates:
  assumes "sys_inv s"
  shows "ok (tk_cre_tsk packet s) (\<lambda>(r, s'). sys_inv s' \<and> cre_tsk_result packet s r s')"
  by (rule tk_cre_tsk_ok [OF assms])

theorem cre_tsk_creates_witness:
  "ok (tk_cre_tsk (Some sample_ctsk) sample_boot) (\<lambda>(r, s'). r = Return 3 \<and> tskstat (tcbs s' 2) = TTS_DMT \<and>
    sp (tcbs s' 2) = 0x80020380)"
proof (rule ok_mono [OF cre_tsk_creates [OF sample_boot_inv(1)]], clarify)
  fix r s'
  assume *: "cre_tsk_result (Some sample_ctsk) sample_boot r s'"
  have l: "list_of FreeTcb (links sample_boot) = Some (TcbHead 2 # map TcbHead [3..<CFN_MAX_TSKID])"
    using sample_start(2) by (simp add: boot_ok_def upt_conv_Cons)
  have v: "c_tskatr sample_ctsk AND NOT VALID_TSKATR = 0" "c_tskatr sample_ctsk AND TA_USERBUF \<noteq> 0"
    using sample_valid_packets(4) by (simp_all add: valid_ctsk_def)
  from * have "r = Return 3" "tcbs s' 2 = new_tcb sample_ctsk (tcbs sample_boot 2)"
    using sample_valid_packets(4) l v by (auto simp: cre_tsk_result_def)
  then show "r = Return 3 \<and> tskstat (tcbs s' 2) = TTS_DMT \<and> sp (tcbs s' 2) = 0x80020380"
    by (simp add: new_tcb_def Let_def sample_ctsk_def FRAME_SIZE_def)
qed

text \<open>
  C34: starting a task. Only a dormant task can be started; an identifier out of range, a task that
  does not exist and one in any other state are refused and nothing changes. A started task is
  ready, at the tail of the queue of its priority, with a clean wait state, no queued wake-up
  requests and its stack pointer at the initial frame.
\<close>

theorem sta_tsk_starts:
  assumes "sys_inv s"
  shows "ok (tk_sta_tsk objid stacd s) (\<lambda>(r, s'). sys_inv s' \<and> sta_tsk_result objid stacd s r s')"
  by (rule tk_sta_tsk_ok [OF assms])

theorem sta_tsk_starts_witness:
  "ok (tk_sta_tsk 3 42 sample_dormant) (\<lambda>(r, s'). r = Return E_OK \<and> tskstat (tcbs s' 2) = TTS_RDY \<and>
    sp (tcbs s' 2) = initial_sp (tcbs sample_dormant 2))"
proof -
  have "sys_inv sample_dormant" "tskstat (tcbs sample_dormant 2) = TTS_DMT"
    using sample_dormant by (simp_all add: sample_next_def new_tcb_def Let_def)
  then show ?thesis
    by (intro ok_mono [OF sta_tsk_starts [of sample_dormant 3 42]])
      (auto simp: sta_tsk_result_def Let_def tkmc_id_in_range_def started_tcb_def)
qed

text \<open>
  C35: ending a task. \<^verbatim>\<open>tk_ext_tsk\<close> called from a task with interrupts on makes the task dormant and
  asks for a switch; called from a handler, with interrupts off or before a task runs it changes no
  task, records the misuse and stops with interrupts masked.
\<close>

theorem ext_tsk_ends:
  assumes "sys_inv s" and "settled s"
  shows "ok (tk_ext_tsk s) (\<lambda>(r, s'). sys_inv s' \<and>
    exit_result TKMC_CONTEXT_EXT_TSK (\<lambda>t. t\<lparr>tskstat := TTS_DMT, tskwait := TTW_NONE\<rparr>) s r s')"
proof -
  have "ok (tk_ext_tsk s) (\<lambda>(r, s'). sys_inv s' \<and> (r \<noteq> Halt \<longrightarrow> mstatus s' = mstatus s))"
    using tk_ext_tsk_call_ok [OF assms] by (simp add: call_ok_def)
  from part_ok [OF this exit_effect(1)] show ?thesis by (rule ok_mono) auto
qed

theorem ext_tsk_ends_witness:
  "ok (tk_ext_tsk sample_boot) (\<lambda>(r, s'). r = Block \<and> tskstat (tcbs s' 0) = TTS_DMT \<and> msip s')"
  by (rule ok_mono [OF ext_tsk_ends [OF sample_boot_inv(1,7)]])
    (use sample_boot_tasks(2) sample_boot_inv(3) in \<open>auto simp: exit_result_def\<close>)

text \<open>
  C30: waking a task. A sleeping task is made ready with the cause E\_OK; any other live task has the
  request queued, up to TK\_WAKEUP\_MAXCNT and not beyond; the running task itself (outside a handler),
  a dormant task, a task that does not exist and an identifier out of range are refused, and a refusal
  changes nothing.
\<close>

theorem wup_tsk_wakes:
  assumes "sys_inv s"
  shows "ok (tk_wup_tsk objid s) (\<lambda>(r, s'). sys_inv s' \<and> mstatus s' = mstatus s \<and> wup_tsk_result objid s r s')"
  by (rule tk_wup_tsk_ok [OF assms])

theorem wup_tsk_wakes_witness:
  "ok (tk_wup_tsk 1 sample_idle) (\<lambda>(r, s'). r = Return E_OK \<and> tskstat (tcbs s' 0) = TTS_RDY \<and> wupcause (tcbs s' 0) = E_OK)"
proof -
  have "sys_inv sample_idle" using sample_idle(1) by (simp add: alive_def)
  then show ?thesis
    by (rule ok_mono [OF wup_tsk_wakes])
      (use sample_idle in \<open>auto simp: wup_tsk_result_def tkmc_id_in_range_def split: if_split_asm\<close>)
qed

text \<open>
  C31: sleeping. A queued wake-up request is used up, one per call; without one a poll returns
  E\_TMOUT and any other call puts the task to sleep, for ever or for the ticks of its time limit
  (rounded up, plus one, plus the edges of the timer that had passed but were not yet counted). A bad time limit and a context that cannot
  block are refused and change nothing.
\<close>

theorem slp_tsk_sleeps:
  assumes "sys_inv s" and "settled s" and "clock_ok (mtime s)"
  shows "ok (tk_slp_tsk tmout s) (\<lambda>(r, s'). sys_inv s' \<and> mstatus s' = mstatus s \<and>
    slp_tsk_result tmout (tkmc_can_block (mstatus s OR NOT MSTATUS_MIE) s) s r s')"
  by (rule tk_slp_tsk_ok [OF assms])

theorem slp_tsk_sleeps_witness:
  "ok (tk_slp_tsk TMO_FEVR sample_boot) (\<lambda>(r, s'). r = Block \<and> tskstat (tcbs s' 0) = TTS_WAI \<and> tskwait (tcbs s' 0) = TTW_SLP)"
  by (rule ok_mono [OF slp_tsk_sleeps [OF sample_boot_inv(1,7,6)]])
    (use sample_boot_tasks(2,3) sample_boot_inv(3) in
      \<open>auto simp: slp_tsk_result_def sleeps_def wait_tcb_def TMO_FEVR_def TMO_POL_def\<close>)

text \<open>
  C32: releasing a wait. A task that waits, whatever for, and is not the current task is made ready with
  the cause E\_RLWAI; no other task changes, except that when it waited for a semaphore others that wait
  for semaphores may be served and made ready with E\_OK; and the invariant holds again, so it is off
  its queues and nobody is left waiting who could go on. The current task is refused with E\_OBJ, also
  when it has just blocked and waits for its switch; so is a task that does not wait. A bad number is
  refused with E\_ID and a task that does not exist with E\_NOEXS. A refusal changes nothing.
\<close>

theorem rel_wai_releases:
  assumes "sys_inv s"
  shows "ok (tk_rel_wai objid s) (\<lambda>(r, s'). sys_inv s' \<and> mstatus s' = mstatus s \<and> rel_wai_result objid s r s')"
  by (rule tk_rel_wai_ok [OF assms])

text \<open>The sleeping task is refused before its switch, and released after it.\<close>

theorem rel_wai_releases_witness:
  "ok (tk_rel_wai 1 sample_asleep) (\<lambda>(r, s'). r = Return E_OBJ \<and> s' = sample_asleep) \<and>
   ok (tk_rel_wai 1 sample_idle) (\<lambda>(r, s'). r = Return E_OK \<and> tskstat (tcbs s' 0) = TTS_RDY \<and> wupcause (tcbs s' 0) = E_RLWAI)"
proof
  have "sys_inv sample_asleep" using sample_asleep(1) by (simp add: alive_def)
  then show "ok (tk_rel_wai 1 sample_asleep) (\<lambda>(r, s'). r = Return E_OBJ \<and> s' = sample_asleep)"
    by (rule ok_mono [OF rel_wai_releases])
      (use sample_asleep in \<open>auto simp: rel_wai_result_def tkmc_id_in_range_def split: if_split_asm\<close>)
  have "sys_inv sample_idle" using sample_idle(1) by (simp add: alive_def)
  then show "ok (tk_rel_wai 1 sample_idle)
      (\<lambda>(r, s'). r = Return E_OK \<and> tskstat (tcbs s' 0) = TTS_RDY \<and> wupcause (tcbs s' 0) = E_RLWAI)"
    by (rule ok_mono [OF rel_wai_releases])
      (use sample_idle in \<open>auto simp: rel_wai_result_def wait_ended_def tkmc_id_in_range_def split: if_split_asm\<close>)
qed

section \<open>Semaphores\<close>

lemma sample_sem_facts:
  "sys_inv sample_sem" "settled sample_sem" "clock_ok (mtime sample_sem)" "current sample_sem = Some 0"
  "tkmc_can_block (mstatus sample_sem OR NOT MSTATUS_MIE) sample_sem" "exists_id (semid (semcbs sample_sem 0))"
  using sample_sem
  by (simp_all add: sample_next_def settled_def running_def tkmc_can_block_def isDI_def tkmc_in_isr_def MSTATUS_MIE_def
    exists_id_def NOEXS_MASK_def)

text \<open>
  C14: signalling a semaphore. Bad arguments, a semaphore that does not exist and a count that would
  pass the maximum are refused and nothing changes. Otherwise the units are handed out along the
  queue as the reference \<^term>\<open>grant\<close> says: the loop over the links, the wake-ups and the subtraction
  of the code give exactly its waiters, its rest of the queue and its count.
\<close>

theorem sig_sem_signals:
  assumes "sys_inv s"
  shows "ok (tk_sig_sem objid cnt s) (\<lambda>(r, s'). sys_inv s' \<and> mstatus s' = mstatus s \<and> sig_sem_result objid cnt s r s')"
  by (rule tk_sig_sem_ok [OF assms])

theorem sig_sem_signals_witness:
  "ok (tk_sig_sem 1 2 sample_sem) (\<lambda>(r, s'). r = Return E_OK \<and> semcnt (semcbs s' 0) = 3)"
  by (rule ok_mono [OF sig_sem_signals [OF sample_sem_facts(1)]])
    (use sample_sem sample_sem_facts(6) in
      \<open>auto simp: sig_sem_result_def signalled_def tkmc_id_in_range_def reqs_def Let_def\<close>)

text \<open>
  C13: no unit of a semaphore is lost or made up. After a signal the count and the units of the tasks
  it woke add up to the count before and the units signalled, the count is not negative, every task
  woken was waiting for this semaphore, and those still waiting could not go on.
\<close>

theorem sig_sem_conserves:
  assumes "sys_inv s" and "tk_sig_sem objid cnt s = Some (Return E_OK, s')"
  shows "\<exists>is g. list_of (SemQ (nat (objid - 1))) (links s) = Some (map TcbWait is) \<and> set g \<subseteq> set is \<and>
    semcnt (semcbs s' (nat (objid - 1))) + sum_list (map (\<lambda>i. wait_req s (TcbWait i)) (filter (\<lambda>i. i \<in> set g) is)) =
      semcnt (semcbs s (nat (objid - 1))) + cnt \<and>
    0 \<le> semcnt (semcbs s' (nat (objid - 1))) \<and>
    (\<forall>i. tcbs s' i = (if i \<in> set g then wake_tcb E_OK (tcbs s i) else tcbs s i)) \<and>
    held_back (takes_first s (nat (objid - 1))) (semcnt (semcbs s' (nat (objid - 1))))
      (map (\<lambda>i. wait_req s (TcbWait i)) (filter (\<lambda>i. i \<notin> set g) is))"
proof -
  define j where "j = nat (objid - 1)"
  have "sig_sem_result objid cnt s (Return E_OK) s'" using tk_sig_sem_ok [OF assms(1), of objid cnt] assms(2) by simp
  then have j: "j < CFN_MAX_SEMID" "exists_id (semid (semcbs s j))" "0 < cnt" and S: "signalled j cnt s s'"
    using id_in_range_index [of objid CFN_MAX_SEMID]
    by (auto simp: sig_sem_result_def Let_def j_def er_defs split: if_split_asm)
  obtain Q where R: "rep (links s) Q" and G: "ginv s Q" using assms(1) by (auto simp: sys_inv_def)
  have K: "kinv s Q" using G by (simp add: ginv_def)
  note D = sem_okD [OF K j(1,2)]
  obtain ks g c ws where ks: "list_of (SemQ j) (links s) = Some (map TcbWait ks)"
    and gr: "grant (takes_first s j) (semcnt (semcbs s j) + cnt) (reqs s ks) = (g, c, ws)"
    and s': "semcnt (semcbs s' j) = c" "\<forall>i. tcbs s' i = (if i \<in> set g then wake_tcb E_OK (tcbs s i) else tcbs s i)"
    using S unfolding signalled_def by blast
  obtain xs where q: "Q (SemQ j) = Some xs" and o: "sem_queue_ok s j xs" using D(5) by blast
  have xs: "xs = map TcbWait ks" using list_of_rep [OF R q] ks by simp
  have "distinct ks" using repD(2) [OF R q] xs by (simp add: distinct_map)
  then have d: "distinct (map fst (reqs s ks))" by (simp add: reqs_def o_def)
  have pos: "\<forall>r \<in> snd ` set (reqs s ks). 0 < r" using o xs by (auto simp: sem_queue_ok_def reqs_def)
  note C = grant_conserves [OF gr d]
  have "fst ` set (reqs s ks) = set ks" by (auto simp: reqs_def image_iff)
  then have "set g \<subseteq> set ks" using C by simp
  moreover have "sum_list (map snd (filter (\<lambda>w. fst w \<in> set g) (reqs s ks))) =
      sum_list (map (\<lambda>i. wait_req s (TcbWait i)) (filter (\<lambda>i. i \<in> set g) ks))"
    by (simp add: reqs_def filter_map o_def del: wait_req.simps)
  moreover have "map snd ws = map (\<lambda>i. wait_req s (TcbWait i)) (filter (\<lambda>i. i \<notin> set g) ks)"
    using C by (simp add: reqs_def filter_map o_def del: wait_req.simps)
  moreover have "0 \<le> c \<and> held_back (takes_first s j) c (map snd ws)" using grant_served [OF gr pos] D(3) j(3) by simp
  ultimately show ?thesis
    using ks s' C unfolding j_def [symmetric] by (intro exI [of _ ks] exI [of _ g]) (simp del: wait_req.simps)
qed

theorem sig_sem_conserves_witness: "\<exists>s'. tk_sig_sem 1 2 sample_sem = Some (Return E_OK, s') \<and> 0 \<le> semcnt (semcbs s' 0)"
proof -
  obtain r s' where rs: "tk_sig_sem 1 2 sample_sem = Some (r, s')" "sig_sem_result 1 2 sample_sem r s'"
    using tk_sig_sem_ok [OF sample_sem_facts(1), of 1 2] by (auto simp: ok_def)
  then have "r = Return E_OK"
    using sample_sem sample_sem_facts(6) by (auto simp: sig_sem_result_def tkmc_id_in_range_def Let_def)
  then show ?thesis using rs sig_sem_conserves [OF sample_sem_facts(1), of 1 2 s'] by auto
qed

text \<open>
  C15: waiting for a semaphore. The call is refused for bad arguments, a context that cannot block, a
  semaphore that does not exist or a request above its maximum. It takes the units when they are there
  and the queue lets it through (nobody waits, \<open>TA_CNT\<close>, or \<open>TA_TPRI\<close> and a better priority than the
  head); otherwise a poll returns E\_TMOUT and any other call joins the queue, behind every waiter of
  the same or a better priority (\<open>TA_TPRI\<close>) or at the tail.
\<close>

theorem wai_sem_waits:
  assumes "sys_inv s" and "settled s" and "clock_ok (mtime s)"
  shows "ok (tk_wai_sem objid cnt tmout s) (\<lambda>(r, s'). sys_inv s' \<and> mstatus s' = mstatus s \<and>
    wai_sem_result objid cnt tmout s r s')"
  by (rule tk_wai_sem_ok [OF assms])

theorem wai_sem_waits_witness:
  "ok (tk_wai_sem 1 2 TMO_FEVR sample_sem) (\<lambda>(r, s'). r = Block \<and> list_of (SemQ 0) (links s') = Some [TcbWait 0])"
  by (rule ok_mono [OF wai_sem_waits [OF sample_sem_facts(1-3)]])
    (use sample_sem sample_sem_facts(4-6) in
      \<open>auto simp: wai_sem_result_def wai_sem_body_def blocked_def tkmc_id_in_range_def Let_def TMO_FEVR_def TMO_POL_def\<close>)

text \<open>
  Creating a semaphore. A bad attribute, a maximum out of range, an initial count above the
  maximum and a full table are refused and nothing changes; otherwise the first free control block
  leaves the free list and holds the counts of the packet, with an empty queue.
\<close>

theorem cre_sem_creates:
  assumes "sys_inv s"
  shows "ok (tk_cre_sem packet s) (\<lambda>(r, s'). sys_inv s' \<and> mstatus s' = mstatus s \<and> cre_sem_result packet s r s')"
  by (rule tk_cre_sem_ok [OF assms])

theorem cre_sem_creates_witness:
  "ok (tk_cre_sem (Some sample_sem_packet) sample_boot) (\<lambda>(r, s'). r = Return 1 \<and> semcnt (semcbs s' 0) = 1)"
  by (rule ok_mono [OF cre_sem_creates [OF sample_boot_inv(1)]])
    (use sample_free(1,4) in \<open>auto simp: cre_sem_result_def sample_sem_packet_def sample_valid_packets attr_defs
      TK_SEMAPHORE_MAXCNT_def upt_conv_Cons split: if_split_asm\<close>)

text \<open>
  C26: the two functions that end waits call each other in the code: a time-out or a release of a
  semaphore waiter serves the queue, and serving the queue ends waits. The model unfolds the
  recursion once; its two functions satisfy the two equations of the code, so the depth is enough.
\<close>

theorem complete_wait_recursive:
  "tkmc_complete_wait = complete_wait_with tkmc_sem_serve_waiters \<and>
   tkmc_sem_serve_waiters = serve_waiters_with tkmc_complete_wait"
  using tkmc_complete_wait_rec tkmc_sem_serve_waiters_rec by simp

section \<open>Event flags\<close>

lemma sample_flg_facts:
  "sys_inv sample_flg" "settled sample_flg" "clock_ok (mtime sample_flg)" "current sample_flg = Some 0"
  "tkmc_can_block (mstatus sample_flg OR NOT MSTATUS_MIE) sample_flg" "exists_id (flgid (flgcbs sample_flg 0))"
  using sample_flg
  by (simp_all add: sample_next_def settled_def running_def tkmc_can_block_def isDI_def tkmc_in_isr_def MSTATUS_MIE_def
    exists_id_def NOEXS_MASK_def)

text \<open>
  C17: setting an event flag. The loop of the code does what the reference \<^term>\<open>flg_match\<close> says: the
  waiters are looked at in the order of the queue; each that the pattern of the moment satisfies is
  woken with that pattern and clears of it what its mode says before the next one is looked at; the
  others stay, and no other control block changes.
\<close>

theorem set_flg_sets:
  assumes "sys_inv s"
  shows "ok (tk_set_flg objid setptn s) (\<lambda>(r, s'). sys_inv s' \<and> mstatus s' = mstatus s \<and> set_flg_result objid setptn s r s')"
  by (rule tk_set_flg_ok [OF assms])

theorem set_flg_sets_witness:
  "ok (tk_set_flg 1 8 sample_flg) (\<lambda>(r, s'). r = Return E_OK \<and> flgptn (flgcbs s' 0) = 14)"
  by (rule ok_mono [OF set_flg_sets [OF sample_flg_facts(1)]])
    (use sample_flg sample_flg_facts(6) in \<open>auto simp: set_flg_result_def set_flg_done_def flg_reqs_def tkmc_id_in_range_def\<close>)

text \<open>
  C18: waiting for an event flag. The call is refused for bad arguments, a context that cannot block, a
  flag that does not exist or a second waiter without \<open>TA_WMUL\<close>. When the pattern satisfies it, it returns the
  pattern and clears what its mode says; otherwise a poll returns E\_TMOUT and any other call joins
  the queue at the place of its priority or at the tail.
\<close>

theorem wai_flg_waits:
  assumes "sys_inv s" and "settled s" and "clock_ok (mtime s)"
  shows "ok (tk_wai_flg objid wptn mode p tmout s) (\<lambda>(r, s'). sys_inv s' \<and> mstatus s' = mstatus s \<and>
    wai_flg_result objid wptn mode p tmout s r s')"
  by (rule tk_wai_flg_ok [OF assms])

theorem wai_flg_waits_witness:
  "ok (tk_wai_flg 1 2 TWF_BITCLR 0x80020000 TMO_FEVR sample_flg)
    (\<lambda>(r, s'). r = Return (E_OK, Some 6) \<and> flgptn (flgcbs s' 0) = 4)"
  by (rule ok_mono [OF wai_flg_waits [OF sample_flg_facts(1-3)]])
    (use sample_flg sample_flg_facts(4-6) in
      \<open>auto simp: wai_flg_result_def wai_flg_body_def tkmc_id_in_range_def Let_def TMO_FEVR_def TMO_POL_def VALID_WFMODE_def
        attr_defs check_ptn_def clear_ptn_def\<close>)

section \<open>Mailboxes\<close>

lemma sample_mbx_facts:
  "sys_inv sample_mbx" "settled sample_mbx" "clock_ok (mtime sample_mbx)" "current sample_mbx = Some 0"
  "tkmc_can_block (mstatus sample_mbx OR NOT MSTATUS_MIE) sample_mbx" "exists_id (mbxid (mbxcbs sample_mbx 0))"
  using sample_mbx
  by (simp_all add: sample_next_def settled_def running_def tkmc_can_block_def isDI_def tkmc_in_isr_def MSTATUS_MIE_def
    exists_id_def NOEXS_MASK_def)

text \<open>
  C19: sending a message. Bad arguments, a mailbox that does not exist and a message priority that is
  not positive (\<open>TA_MPRI\<close>) are refused and nothing changes. A message goes to the first task that
  waits for one, which is made ready with it; with nobody waiting it joins the message queue, at the
  tail or behind every message of the same or a better priority. The packet must be on no queue yet.
\<close>

theorem snd_mbx_sends:
  assumes "sys_inv s" and "owned_msg m s"
  shows "ok (tk_snd_mbx objid m s) (\<lambda>(r, s'). sys_inv s' \<and> mstatus s' = mstatus s \<and> snd_mbx_result objid m s r s')"
  using assms by (intro tk_snd_mbx_ok) (auto simp: owned_msg_def)

theorem snd_mbx_sends_witness:
  "ok (tk_snd_mbx 1 0x80030000 sample_mbx) (\<lambda>(r, s'). if msgpri sample_mbx 0x80030000 \<le> 0 then r = Return E_PAR
     else r = Return E_OK \<and> list_of (MbxMsgQ 0) (links s') = Some [MsgLink 0x80030000])"
  by (rule ok_mono [OF snd_mbx_sends [OF sample_mbx_facts(1) sample_mbx(5)]])
    (use sample_mbx(2-4) sample_mbx_facts(6) in
      \<open>auto simp: snd_mbx_result_def msg_queued_def tkmc_id_in_range_def Let_def attr_defs\<close>)

text \<open>
  C20: receiving a message. The call is refused for bad arguments, a context that cannot block or a
  mailbox that does not exist. It takes the first message of the queue; without one a poll returns
  E\_TMOUT and any other call joins the waiting tasks at the place of its priority or at the tail.
\<close>

theorem rcv_mbx_receives:
  assumes "sys_inv s" and "settled s" and "clock_ok (mtime s)"
  shows "ok (tk_rcv_mbx objid p tmout s) (\<lambda>(r, s'). sys_inv s' \<and> mstatus s' = mstatus s \<and>
    rcv_mbx_result objid p tmout s r s')"
  by (rule tk_rcv_mbx_ok [OF assms])

theorem rcv_mbx_receives_witness:
  "ok (tk_rcv_mbx 1 0x80020000 TMO_FEVR sample_mbx) (\<lambda>(r, s'). r = Block \<and>
     list_of (MbxWaitQ 0) (links s') = Some [TcbWait 0])"
  by (rule ok_mono [OF rcv_mbx_receives [OF sample_mbx_facts(1-3)]])
    (use sample_mbx(2-4) sample_mbx_facts(4-6) in
      \<open>auto simp: rcv_mbx_result_def rcv_mbx_body_def blocked_def tkmc_id_in_range_def TMO_FEVR_def TMO_POL_def\<close>)

section \<open>Time\<close>

text \<open>
  C28: the 64-bit time is read in one piece. The two halves of the counter are read one after the
  other, and the high half a second time until it stands still; under a clock that advances by at
  most 1000 counts between two accesses the loop ends after at most six accesses, and the value
  is one that the counter had during the call.
\<close>

theorem read_mtime_untorn:
  assumes "clock_ok (mtime s)"
  shows "\<exists>k n. clk s \<le> k \<and> k < n \<and> n \<le> clk s + 6 \<and> read_mtime s = Some (mtime s k, s\<lparr>clk := n\<rparr>)"
  using read_mtime_ok [OF assms] by (auto simp: ok_def reads_def)

theorem read_mtime_untorn_witness:
  "\<exists>k n. k < n \<and> n \<le> clk sample_reset + 6 \<and> read_mtime sample_reset = Some (mtime sample_reset k, sample_reset\<lparr>clk := n\<rparr>)"
  using read_mtime_untorn [OF sample_hyps(4)] by blast

text \<open>
  C27: no tick is lost and none is counted twice. The loop over the elapsed periods ends; it moves
  the compare value from \<open>mc\<close> by exactly as many ticks as it counts, without wrapping, to a value
  ahead of a time it read, and by no more than is needed for that.
\<close>

theorem elapsed_periods_exact:
  assumes "clock_ok (mtime s)"
  shows "ok (pass_elapsed_periods mc s) (\<lambda>(p, mc', s'). \<exists>n. p = of_nat n \<and> unat mc' = unat mc + n * 100000 \<and>
    (\<exists>k. clk s \<le> k \<and> k < clk s' \<and> mtime s k < mc' \<and> (0 < n \<longrightarrow> unat mc' \<le> unat (mtime s k) + 100000)) \<and>
    s' = s\<lparr>clk := clk s'\<rparr>)"
  by (rule ok_mono [OF pass_elapsed_periods_ok [OF assms]]) (fastforce simp: passed_def)

theorem elapsed_periods_exact_witness:
  "ok (pass_elapsed_periods 100000 sample_reset) (\<lambda>(p, mc', s'). \<exists>n. p = of_nat n \<and> unat mc' = 100000 + n * 100000)"
  by (rule ok_mono [OF elapsed_periods_exact [OF sample_hyps(4)]]) auto

text \<open>
  C16: the timer interrupt. It always returns, keeps the invariant, and for the \<open>n\<close> ticks that have
  passed, if any, sets the next deadline in the kernel and in the compare register and ages every
  task on the timer queue by \<open>n\<close> ticks: it waits on with \<open>n\<close> ticks less if it had more, and else it
  is ready with E\_TMOUT. No other task changes, but for the waiters of a semaphore, who may be
  served because a waiter ahead of them gave up.
\<close>

theorem timer_handler_ages:
  assumes "sys_inv s" and "clock_ok (mtime s)"
  shows "\<exists>ks. list_of TimerQ (links s) = Some (map TcbHead ks) \<and>
    ok (tkmc_timer_handler s) (\<lambda>s'. sys_inv s' \<and> mstatus s' = mstatus s \<and>
      (\<exists>n mc s1. passed (s_mtimecmp s) s n mc s1 \<and>
        (if of_nat n = (0 :: UINT) then s' = s1
         else s_mtimecmp s' = mc \<and> mtimecmp_reg s' = mc \<and> clk s' = clk s1 \<and>
           (\<forall>k. aged (of_nat n) (k \<in> set ks) (tcbs s k) (tcbs s' k)))))"
proof -
  obtain Q where R: "rep (links s) Q" and G: "ginv s Q" using assms(1) by (auto simp: sys_inv_def)
  obtain ks where q: "Q TimerQ = Some (map TcbHead ks)" using timer_queue_tasks G by (auto simp: ginv_def)
  then have t: "timed Q k \<longleftrightarrow> k \<in> set ks" for k by (auto simp: in_ring_def)
  note ok = tkmc_timer_handler_ok [OF R G assms(2), unfolded timer_done_def t]
  show ?thesis
    by (intro exI [of _ ks] conjI list_of_rep [OF R q] ok_mono [OF ok]) (elim conjE, assumption)+
qed

theorem timer_handler_ages_witness:
  "ok (tkmc_timer_handler sample_boot) (\<lambda>s'. sys_inv s' \<and> mstatus s' = mstatus sample_boot)"
  using timer_handler_ages [OF sample_boot_inv(1,6)] by (auto elim: ok_mono)

end
